(* ===== verification/Ubi_Prelude.thy ===== *)
theory Ubi_Prelude
  imports Main "HOL-Library.Word" "HOL-Library.Monad_Syntax" "HOL-Library.Multiset"
begin

unbundle bit_operations_syntax

section \<open>Prelude: machine types, constants and shared lemmas\<close>

text \<open>
  The C types of the program as words, the constants of
  \<^verbatim>\<open>include/bdev_ubi_internal.h\<close>, guarded array access, and the generic lemmas
  that the component theories share.  A C operation whose behaviour is undefined in
  some situation (an array access out of bounds, a null pointer passed on, a pointer
  cast to the wrong structure) is a function into \<open>option\<close>: \<open>None\<close> is the undefined
  behaviour, so that the absence of undefined behaviour is a theorem.
\<close>

type_synonym u8 = "8 word"
type_synonym u16 = "16 word"
type_synonym u32 = "32 word"
type_synonym u64 = "64 word"

text \<open>A C \<^verbatim>\<open>int\<close> that indexes an array is a 32-bit word, read by \<^const>\<open>sint\<close>.\<close>

type_synonym i32 = "32 word"

named_theorems status_simps \<open>the operations of the status table as rewrite rules\<close>
named_theorems completion_defs \<open>the callbacks of the base bdev, unfolded\<close>
named_theorems demo_simps \<open>the concrete bdev, unfolded\<close>
named_theorems ubi_inv \<open>preservation of invariants, one fact per operation\<close>

subsection \<open>Constants\<close>

definition UBI_METADATA_SIZE :: "'a::numeral" where
  [simp]: "UBI_METADATA_SIZE = 8388608"

definition UBI_MAX_STRIPES :: nat where
  [simp]: "UBI_MAX_STRIPES = 2 * 1024 * 1024"

definition UBI_STRIPE_SIZE_MIN :: u32 where
  [simp]: "UBI_STRIPE_SIZE_MIN = 64"

definition UBI_STRIPE_SIZE_MAX :: u32 where
  [simp]: "UBI_STRIPE_SIZE_MAX = 1024"

definition UBI_PATH_LEN :: nat where
  [simp]: "UBI_PATH_LEN = 1024"

definition UBI_MAGIC_SIZE :: nat where
  [simp]: "UBI_MAGIC_SIZE = 9"

text \<open>The string \<^verbatim>\<open>"BDEV_UBI"\<close> with its terminating zero: nine bytes.\<close>

definition UBI_MAGIC :: "u8 list" where
  [simp]: "UBI_MAGIC = [66, 68, 69, 86, 95, 85, 66, 73, 0]"

definition UBI_VERSION_MAJOR :: u16 where
  [simp]: "UBI_VERSION_MAJOR = 0"

definition UBI_VERSION_MINOR :: u16 where
  [simp]: "UBI_VERSION_MINOR = 1"

definition UBI_MAX_ACTIVE_STRIPE_FETCHES :: nat where
  [simp]: "UBI_MAX_ACTIVE_STRIPE_FETCHES = 8"

definition UBI_MAX_CONCURRENT_READS :: u64 where
  [simp]: "UBI_MAX_CONCURRENT_READS = 24"

definition UBI_FETCH_QUEUE_SIZE :: u32 where
  [simp]: "UBI_FETCH_QUEUE_SIZE = 32768"

definition UBI_URING_QUEUE_SIZE :: nat where
  [simp]: "UBI_URING_QUEUE_SIZE = 32"

text \<open>The errno values the code returns (Linux).\<close>

definition EIO :: int where [simp]: "EIO = 5"
definition EAGAIN :: int where [simp]: "EAGAIN = 11"
definition ENOMEM :: int where [simp]: "ENOMEM = 12"
definition ENODEV :: int where [simp]: "ENODEV = 19"
definition EINVAL :: int where [simp]: "EINVAL = 22"

subsection \<open>Arrays with bounds\<close>

text \<open>
  A large C array is a function on indices with its length given at each access;
  a small one is a list.  An access out of bounds is \<open>None\<close>.
\<close>

definition arr_get :: "nat \<Rightarrow> (nat \<Rightarrow> 'a) \<Rightarrow> nat \<Rightarrow> 'a option" where
  "arr_get n a i = (if i < n then Some (a i) else None)"

definition arr_set :: "nat \<Rightarrow> (nat \<Rightarrow> 'a) \<Rightarrow> nat \<Rightarrow> 'a \<Rightarrow> (nat \<Rightarrow> 'a) option" where
  "arr_set n a i v = (if i < n then Some (a(i := v)) else None)"

definition nth_opt :: "'a list \<Rightarrow> nat \<Rightarrow> 'a option" where
  "nth_opt xs i = (if i < length xs then Some (xs ! i) else None)"

lemma arr_get_in [simp]: "i < n \<Longrightarrow> arr_get n a i = Some (a i)"
  by (simp add: arr_get_def)

lemma arr_set_in [simp]: "i < n \<Longrightarrow> arr_set n a i v = Some (a(i := v))"
  by (simp add: arr_set_def)

lemma nth_opt_in [simp]: "i < length xs \<Longrightarrow> nth_opt xs i = Some (xs ! i)"
  by (simp add: nth_opt_def)

lemma arr_get_Some_iff: "arr_get n a i = Some v \<longleftrightarrow> i < n \<and> v = a i"
  by (auto simp: arr_get_def)

lemma arr_set_Some_iff: "arr_set n a i v = Some b \<longleftrightarrow> i < n \<and> b = a(i := v)"
  by (auto simp: arr_set_def)

lemma nth_opt_Some_iff: "nth_opt xs i = Some v \<longleftrightarrow> i < length xs \<and> v = xs ! i"
  by (auto simp: nth_opt_def)

lemmas arr_Some_iffs = arr_get_Some_iff arr_set_Some_iff nth_opt_Some_iff

subsection \<open>Words\<close>

lemma unat_and_mask_32768:
  fixes w :: u32
  shows "unat (w AND 32767) = unat w mod 32768"
proof -
  have "w AND 32767 = take_bit 15 w"
    by (simp add: take_bit_eq_mask mask_eq_exp_minus_1)
  then show ?thesis
    by (simp only: unsigned_take_bit_eq) (simp add: take_bit_eq_mod)
qed

lemma mod_add_wrap:
  "(a::nat) < n \<Longrightarrow> b \<le> n \<Longrightarrow> (a + b) mod n = (if a + b < n then a + b else a + b - n)"
  by (simp add: le_mod_geq)

lemma unat_ucast_small:
  fixes w :: "'a::len word"
  shows "unat w < 2 ^ LENGTH('b) \<Longrightarrow> unat (ucast w :: 'b::len word) = unat w"
  by (simp add: unsigned_ucast_eq take_bit_nat_eq_self)

lemma unat_ucast_32_64 [simp]: "unat (ucast (w :: u32) :: u64) = unat w"
  using unsigned_less [of w, where ?'a = nat] by (simp add: unat_ucast_small)

lemma unat_Suc_word:
  fixes w :: "'a::len word"
  assumes "unat w < n" and "n < 2 ^ LENGTH('a)"
  shows "unat (w + 1) = Suc (unat w)"
  using assms by (simp add: unat_word_ariths)

end
