(* ===== verification/Ubi_Queue.thy ===== *)
theory Ubi_Queue
  imports Ubi_Prelude
begin

section \<open>The stripe fetch queue (\<^verbatim>\<open>bdev_ubi_stripe.c\<close>)\<close>

text \<open>
  The ring buffer of stripe indices that waits in each I/O channel, its three operations,
  and the contract a bounded FIFO gives its client.  The contract is a locale; the ring
  buffer interprets it.
\<close>

record fetch_queue =
  entries :: "nat \<Rightarrow> u32"
  head :: u32
  tail :: u32

definition enqueue_stripe :: "fetch_queue \<Rightarrow> i32 \<Rightarrow> fetch_queue option" where
  "enqueue_stripe q stripe_idx = do {
     es \<leftarrow> arr_set (unat UBI_FETCH_QUEUE_SIZE) (entries q) (unat (tail q)) stripe_idx;
     Some (q\<lparr>entries := es,
             tail := (tail q + 1) AND (UBI_FETCH_QUEUE_SIZE - 1)\<rparr>)
   }"

definition dequeue_stripe :: "fetch_queue \<Rightarrow> (i32 \<times> fetch_queue) option" where
  "dequeue_stripe q = do {
     stripe_idx \<leftarrow> arr_get (unat UBI_FETCH_QUEUE_SIZE) (entries q) (unat (head q));
     Some (stripe_idx, q\<lparr>head := (head q + 1) AND (UBI_FETCH_QUEUE_SIZE - 1)\<rparr>)
   }"

definition stripe_queue_empty :: "fetch_queue \<Rightarrow> bool" where
  "stripe_queue_empty q \<longleftrightarrow> head q = tail q"

subsection \<open>The contract of a bounded FIFO\<close>

locale bounded_fifo =
  fixes enq :: "'q \<Rightarrow> 'a \<Rightarrow> 'q option"
    and deq :: "'q \<Rightarrow> ('a \<times> 'q) option"
    and is_empty :: "'q \<Rightarrow> bool"
    and contents :: "'q \<Rightarrow> 'a list"
    and invar :: "'q \<Rightarrow> bool"
    and cap :: nat
  assumes enq_law: "invar q \<Longrightarrow> length (contents q) < cap \<Longrightarrow>
      \<exists>q'. enq q x = Some q' \<and> invar q' \<and> contents q' = contents q @ [x]"
    and deq_law: "invar q \<Longrightarrow> contents q = x # xs \<Longrightarrow>
      \<exists>q'. deq q = Some (x, q') \<and> invar q' \<and> contents q' = xs"
    and empty_law: "invar q \<Longrightarrow> is_empty q \<longleftrightarrow> contents q = []"
    and cap_law: "invar q \<Longrightarrow> length (contents q) \<le> cap"
begin

fun enq_all :: "'q \<Rightarrow> 'a list \<Rightarrow> 'q option" where
  "enq_all q [] = Some q"
| "enq_all q (x # xs) = (case enq q x of None \<Rightarrow> None | Some q' \<Rightarrow> enq_all q' xs)"

fun deq_n :: "nat \<Rightarrow> 'q \<Rightarrow> ('a list \<times> 'q) option" where
  "deq_n 0 q = Some ([], q)"
| "deq_n (Suc n) q =
     (case deq q of None \<Rightarrow> None
      | Some (x, q') \<Rightarrow> map_option (\<lambda>(xs, q''). (x # xs, q'')) (deq_n n q'))"

lemma enq_all_contents:
  "invar q \<Longrightarrow> length (contents q) + length xs \<le> cap \<Longrightarrow>
   \<exists>q'. enq_all q xs = Some q' \<and> invar q' \<and> contents q' = contents q @ xs"
proof (induction xs arbitrary: q)
  case (Cons x xs)
  then have "length (contents q) < cap" by simp
  with Cons.prems(1) obtain q' where
    q': "enq q x = Some q'" "invar q'" "contents q' = contents q @ [x]"
    using enq_law by blast
  with Cons.prems Cons.IH [of q'] show ?case by auto
qed simp

lemma deq_n_contents:
  "invar q \<Longrightarrow> n \<le> length (contents q) \<Longrightarrow>
   \<exists>q'. deq_n n q = Some (take n (contents q), q') \<and> invar q' \<and> contents q' = drop n (contents q)"
proof (induction n arbitrary: q)
  case (Suc n)
  then obtain x xs where xs: "contents q = x # xs"
    by (cases "contents q") auto
  with Suc.prems obtain q' where "deq q = Some (x, q')" "invar q'" "contents q' = xs"
    using deq_law by blast
  with Suc.prems Suc.IH [of q'] xs show ?case by auto
qed simp

text \<open>What goes into an empty queue comes out in the same order, and empties it.\<close>

lemma fifo:
  assumes "invar q" and "contents q = []" and "length xs \<le> cap"
  shows "\<exists>q' q''. enq_all q xs = Some q' \<and> deq_n (length xs) q' = Some (xs, q'') \<and> is_empty q''"
proof -
  obtain q' where q': "enq_all q xs = Some q'" "invar q'" "contents q' = xs"
    using enq_all_contents [of q xs] assms by auto
  then obtain q'' where "deq_n (length xs) q' = Some (xs, q'')" "invar q''" "contents q'' = []"
    using deq_n_contents [of q' "length xs"] by auto
  with q' show ?thesis by (auto simp: empty_law)
qed

end

subsection \<open>The ring buffer implements it\<close>

definition queue_ok :: "fetch_queue \<Rightarrow> bool" where
  "queue_ok q \<longleftrightarrow> unat (head q) < 32768 \<and> unat (tail q) < 32768"

definition queue_len :: "fetch_queue \<Rightarrow> nat" where
  "queue_len q = (unat (tail q) + (32768 - unat (head q))) mod 32768"

definition queue_list :: "fetch_queue \<Rightarrow> u32 list" where
  "queue_list q = map (\<lambda>i. entries q ((unat (head q) + i) mod 32768)) [0..<queue_len q]"

lemma length_queue_list [simp]: "length (queue_list q) = queue_len q"
  by (simp add: queue_list_def)

lemma queue_len_bound: "queue_len q < 32768"
  by (simp add: queue_len_def)

lemma unat_ring_next:
  "unat (w :: u32) < 32768 \<Longrightarrow> unat ((w + 1) AND 32767) = Suc (unat w) mod 32768"
  by (simp add: unat_and_mask_32768 unat_Suc_word [where n = 32768])

lemma queue_len_eq:
  "queue_ok q \<Longrightarrow> queue_len q =
     (if unat (head q) \<le> unat (tail q) then unat (tail q) - unat (head q)
      else unat (tail q) + 32768 - unat (head q))"
  using mod_add_wrap [of "unat (tail q)" 32768 "32768 - unat (head q)"]
  by (auto simp: queue_len_def queue_ok_def)

lemma ring_tail_slot:
  assumes "queue_ok q"
  shows "(unat (head q) + queue_len q) mod 32768 = unat (tail q)"
  using assms queue_len_bound [of q]
  by (auto simp: queue_len_eq queue_ok_def mod_add_wrap)

lemma ring_slots_distinct:
  assumes "queue_ok q" and "i < queue_len q"
  shows "(unat (head q) + i) mod 32768 \<noteq> unat (tail q)"
  using assms queue_len_bound [of q]
  by (auto simp: queue_len_eq queue_ok_def mod_add_wrap split: if_splits)

lemma enqueue_stripe_ok:
  assumes "queue_ok q"
  shows "\<exists>q'. enqueue_stripe q x = Some q' \<and> queue_ok q' \<and>
           head q' = head q \<and> unat (tail q') = Suc (unat (tail q)) mod 32768 \<and>
           entries q' = (entries q)(unat (tail q) := x)"
  using assms by (simp add: enqueue_stripe_def queue_ok_def unat_ring_next)

lemma enqueue_stripe_law:
  assumes ok: "queue_ok q" and room: "queue_len q < 32767"
  shows "\<exists>q'. enqueue_stripe q x = Some q' \<and> queue_ok q' \<and> queue_list q' = queue_list q @ [x]"
proof -
  obtain q' where q': "enqueue_stripe q x = Some q'" "queue_ok q'" "head q' = head q"
    "unat (tail q') = Suc (unat (tail q)) mod 32768"
    "entries q' = (entries q)(unat (tail q) := x)"
    using enqueue_stripe_ok [OF ok] by blast
  have len: "queue_len q' = Suc (queue_len q)"
    using ok room q'(4)
    by (auto simp: queue_len_eq [OF q'(2)] queue_len_eq [OF ok] q'(3) queue_ok_def mod_Suc
        split: if_splits)
  have "queue_list q' = queue_list q @ [x]"
    using ring_slots_distinct [OF ok] ring_tail_slot [OF ok]
    by (simp add: queue_list_def len q'(3,5))
  with q' show ?thesis by blast
qed

lemma dequeue_stripe_law:
  assumes ok: "queue_ok q" and xs: "queue_list q = x # xs"
  shows "\<exists>q'. dequeue_stripe q = Some (x, q') \<and> queue_ok q' \<and> queue_list q' = xs"
proof -
  define q' where "q' = q\<lparr>head := (head q + 1) AND 32767\<rparr>"
  from xs have pos: "0 < queue_len q"
    by (metis length_Cons length_queue_list zero_less_Suc)
  have hd': "unat (head q') = Suc (unat (head q)) mod 32768"
    using ok by (simp add: q'_def queue_ok_def unat_ring_next)
  have ok': "queue_ok q'"
    using ok hd' by (simp add: queue_ok_def q'_def)
  have tl': "tail q' = tail q" "entries q' = entries q"
    by (simp_all add: q'_def)
  have len: "queue_len q = Suc (queue_len q')"
    using ok pos
    by (auto simp: queue_len_eq [OF ok'] queue_len_eq [OF ok] hd' tl' queue_ok_def mod_Suc
        split: if_splits)
  have step: "(Suc (unat (head q)) mod 32768 + i) mod 32768 = (unat (head q) + Suc i) mod 32768" for i
    by (simp add: mod_add_left_eq)
  have "queue_list q = entries q (unat (head q)) # queue_list q'"
    using ok
    by (simp add: queue_list_def len upt_conv_Cons map_Suc_upt [symmetric] hd' step
        queue_ok_def tl' del: upt_Suc)
  with xs have "x = entries q (unat (head q))" "xs = queue_list q'" by auto
  with ok hd' show ?thesis
    by (simp add: dequeue_stripe_def queue_ok_def q'_def)
qed

lemma stripe_queue_empty_law:
  "queue_ok q \<Longrightarrow> stripe_queue_empty q \<longleftrightarrow> queue_list q = []"
  by (auto simp: stripe_queue_empty_def queue_list_def queue_len_eq queue_ok_def
      word_unat_eq_iff)

interpretation fq: bounded_fifo enqueue_stripe dequeue_stripe stripe_queue_empty
  queue_list queue_ok 32767
proof unfold_locales
  fix q :: fetch_queue
  show "length (queue_list q) \<le> 32767"
    using queue_len_bound [of q] by simp
qed (auto dest: enqueue_stripe_law dequeue_stripe_law simp: stripe_queue_empty_law)

subsection \<open>Properties\<close>

definition empty_queue :: fetch_queue where
  "empty_queue = \<lparr>entries = \<lambda>_. 0, head = 0, tail = 0\<rparr>"

lemma empty_queue_ok: "queue_ok empty_queue" "queue_list empty_queue = []"
  by (simp_all add: empty_queue_def queue_ok_def queue_list_def queue_len_def)

text \<open>
  C26: the ring buffer is a FIFO.  From an empty queue, wherever its head and tail are in the
  ring, up to 32767 stripes can be enqueued; dequeuing gives them back in the same order and
  leaves the queue empty.
\<close>

theorem fetch_queue_fifo:
  assumes "queue_ok q" and "stripe_queue_empty q" and "length xs \<le> 32767"
  shows "\<exists>q' q''. fq.enq_all q xs = Some q' \<and> fq.deq_n (length xs) q' = Some (xs, q'') \<and>
           stripe_queue_empty q''"
  using fq.fifo assms stripe_queue_empty_law by blast

theorem fetch_queue_fifo_witness:
  "\<exists>q' q''. fq.enq_all empty_queue [7, 3, 9] = Some q' \<and> fq.deq_n 3 q' = Some ([7, 3, 9], q'') \<and>
     stripe_queue_empty q''"
  using fetch_queue_fifo [OF empty_queue_ok(1), of "[7, 3, 9]"] empty_queue_ok
  by (simp add: stripe_queue_empty_law numeral_3_eq_3 del: fq.enq_all.simps fq.deq_n.simps)

text \<open>
  C27: the ring buffer has no check for being full.  With 32767 entries pending one more
  \<^verbatim>\<open>enqueue_stripe\<close> is still carried out and makes the queue look empty: all pending entries
  are lost.
\<close>

theorem fetch_queue_overflow:
  assumes "queue_ok q" and "queue_len q = 32767"
  shows "\<exists>q'. enqueue_stripe q x = Some q' \<and> stripe_queue_empty q' \<and> queue_list q' = []"
proof -
  obtain q' where q': "enqueue_stripe q x = Some q'" "queue_ok q'" "head q' = head q"
    "unat (tail q') = Suc (unat (tail q)) mod 32768"
    using enqueue_stripe_ok [OF assms(1)] by blast
  have "unat (tail q') = unat (head q')"
    using assms q'(3,4) by (auto simp: queue_len_eq queue_ok_def mod_Suc split: if_splits)
  then have "stripe_queue_empty q'"
    by (simp add: stripe_queue_empty_def word_unat_eq_iff)
  with q' show ?thesis
    using stripe_queue_empty_law by blast
qed

theorem fetch_queue_overflow_witness:
  "\<exists>q'. enqueue_stripe \<lparr>entries = \<lambda>_. 5, head = 1, tail = 0\<rparr> 8 = Some q' \<and> stripe_queue_empty q' \<and>
     queue_list q' = []"
  by (rule fetch_queue_overflow) (simp_all add: queue_ok_def queue_len_def)

end
