(* ===== verification/Ubi_Types.thy ===== *)
theory Ubi_Types
  imports Ubi_Queue
begin

section \<open>Data model (\<^verbatim>\<open>include/bdev_ubi_internal.h\<close>, \<^verbatim>\<open>include/bdev_ubi.h\<close>)\<close>

text \<open>
  The structures and enumerations of the two headers, the part of SPDK's structures the
  program reads or writes, and the state an I/O handler works on.

  SPDK and liburing are not part of the repository.  What they return is an \<open>ext_oracle\<close>, an
  argument of every operation that calls them; what the module has handed to them and not
  been called back for is kept in the lists \<open>sq\<close>, \<open>inflight\<close>, \<open>base_reqs\<close>, \<open>buf_wait\<close> of
  the state, so that a callback can be restricted to requests that were made.
\<close>

subsection \<open>Enumerations\<close>

datatype stripe_status =
    STRIPE_NOT_FETCHED
  | STRIPE_INFLIGHT
  | STRIPE_FAILED
  | STRIPE_FETCHED

datatype ubi_io_type = UBI_BDEV_IO | UBI_STRIPE_FETCH

text \<open>The I/O types the source names; every other type of SPDK is \<open>IO_OTHER\<close>.\<close>

datatype spdk_bdev_io_type =
    IO_READ
  | IO_WRITE
  | IO_FLUSH
  | IO_WRITE_ZEROES
  | IO_RESET
  | IO_UNMAP
  | IO_OTHER nat

subsection \<open>On-disk metadata\<close>

record ubi_metadata =
  magic :: "u8 list"
  versionMajor :: "u8 \<times> u8"
  versionMinor :: "u8 \<times> u8"
  md_stripe_size_kb :: u8
  stripe_headers :: "nat \<Rightarrow> nat \<Rightarrow> u8"
  padding :: "nat \<Rightarrow> u8"

subsection \<open>Block devices\<close>

text \<open>The fields of \<^verbatim>\<open>struct spdk_bdev\<close> the program uses.\<close>

record spdk_bdev =
  bdev_name :: "string option"
  blocklen :: u32
  blockcnt :: u64
  write_cache :: bool
  optimal_io_boundary :: u32
  split_on_optimal_io_boundary :: bool
  required_alignment :: u32

record ubi_base_bdev_info =
  base_bdev :: spdk_bdev
  base_desc :: "nat option"

record ubi_bdev =
  bdev :: spdk_bdev
  base_bdev_info :: ubi_base_bdev_info
  image_path :: string
  stripe_size_kb :: u32
  stripe_block_count :: u32
  stripe_shift :: u32
  data_offset_blocks :: u32
  image_block_count :: u64
  alignment_bytes :: u32
  no_sync :: bool
  copy_on_read :: bool
  directio :: bool
  stripe_status :: "nat \<Rightarrow> stripe_status"
  metadata :: ubi_metadata
  stripes_fetched :: u64
  stripes_flushed :: u64
  bdev_thread :: nat

text \<open>Parameters to create a bdev; a null string is \<open>None\<close>.\<close>

record spdk_ubi_bdev_opts =
  opt_name :: "string option"
  opt_image_path :: string
  opt_base_bdev_name :: string
  opt_stripe_size_kb :: u32
  opt_no_sync :: bool
  opt_copy_on_read :: bool
  opt_directio :: bool

subsection \<open>I/O requests and I/O channels\<close>

text \<open>
  The part of \<^verbatim>\<open>struct spdk_bdev_io\<close> the module reads.  \<open>io_id\<close> stands for the pointer:
  two requests that are outstanding at the same time have different ones.
\<close>

record bdev_io =
  io_id :: nat
  io_type :: spdk_bdev_io_type
  offset_blocks :: u64
  num_blocks :: u64

text \<open>The module's context of a request (\<^verbatim>\<open>bdev_io->driver_ctx\<close>).\<close>

record ubi_bdev_io =
  io_op_type :: ubi_io_type
  block_offset :: u64
  block_count :: u64
  io_stripes_fetched :: u64

text \<open>\<open>buf\<close> is the address of the buffer inside the structure.\<close>

record stripe_fetch =
  op_type :: ubi_io_type
  active :: bool
  stripe_idx :: u32
  buf :: u64
  buf_aligned :: u64

record ubi_io_channel =
  poller :: bool
  base_channel :: bool
  blocks_read :: u64
  blocks_written :: u64
  ch_stripes_fetched :: u64
  active_reads :: u64
  stripe_fetches :: "stripe_fetch list"
  stripe_fetch_queue :: fetch_queue
  image_file_fd :: int
  has_reads :: int
  ch_io :: "bdev_io list"

subsection \<open>Requests handed to io\_uring and to the base bdev\<close>

text \<open>
  A submission queue entry names the slot of \<^verbatim>\<open>stripe_fetches\<close> or the request whose
  pointer was stored with \<^verbatim>\<open>io_uring_sqe_set_data\<close>, and the arguments of
  \<^verbatim>\<open>io_uring_prep_read\<close> or \<^verbatim>\<open>io_uring_prep_readv\<close>.
\<close>

datatype sqe =
    Sqe_read (sqe_slot: nat) (sqe_buf: u64) (sqe_nbytes: u32) (sqe_offset: u64)
  | Sqe_readv (sqe_io: bdev_io) (sqe_offset: u64)

text \<open>
  A request to the base bdev names its callback by its constructor:
  \<^verbatim>\<open>ubi_io_completion_cb\<close> (twice), \<^verbatim>\<open>write_stripe_io_completion\<close>,
  \<^verbatim>\<open>ubi_data_flush_completion\<close>, \<^verbatim>\<open>ubi_metadata_write_completion\<close> and
  \<^verbatim>\<open>ubi_metadata_flush_completion\<close>.
\<close>

datatype base_req =
    Req_readv (req_io: bdev_io) (req_start: u64) (req_num: u64)
  | Req_writev (req_io: bdev_io) (req_start: u64) (req_num: u64)
  | Req_write_stripe (req_slot: nat) (req_buf: u64) (req_offset: u64) (req_nbytes: u32)
  | Req_data_flush (req_io: bdev_io) (req_start: u64) (req_num: u64)
  | Req_md_write (req_io: bdev_io) (req_md: ubi_metadata) (req_start: u64) (req_blocks: u32)
  | Req_md_flush (req_io: bdev_io) (req_start: u64) (req_blocks: u32)

record ubi_state =
  ub :: ubi_bdev
  ch :: ubi_io_channel
  driver_ctx :: "nat \<Rightarrow> ubi_bdev_io"
  sq :: "sqe list"
  inflight :: "sqe list"
  base_reqs :: "base_req list"
  buf_wait :: "bdev_io list"
  completed :: "(bdev_io \<times> bool) list"
  clock :: nat

subsection \<open>The oracle\<close>

text \<open>
  What the calls into SPDK and liburing return, as a function of the number of calls made
  so far: whether \<^verbatim>\<open>io_uring_get_sqe\<close> finds a free entry (given how many are taken), the
  result of \<^verbatim>\<open>io_uring_submit\<close> (given how many entries wait), the result of submitting a
  request to the base bdev, and whether \<^verbatim>\<open>spdk_bdev_io_get_buf\<close> calls back at once (and
  with which success flag) or later (\<open>None\<close>).
\<close>

record ext_oracle =
  o_get_sqe :: "nat \<Rightarrow> nat \<Rightarrow> bool"
  o_submit :: "nat \<Rightarrow> nat \<Rightarrow> int"
  o_base :: "nat \<Rightarrow> base_req \<Rightarrow> int"
  o_buf :: "nat \<Rightarrow> bool option"

definition tick :: "ubi_state \<Rightarrow> ubi_state" where
  [simp]: "tick s = s\<lparr>clock := Suc (clock s)\<rparr>"

text \<open>\<^verbatim>\<open>io_uring_submit\<close>: a non-negative result is the number of entries handed over.\<close>

definition io_uring_submit :: "ext_oracle \<Rightarrow> ubi_state \<Rightarrow> int \<times> ubi_state" where
  "io_uring_submit env s =
     (let ret = o_submit env (clock s) (length (sq s)) in
      if ret < 0 then (ret, tick s)
      else (ret, tick (s\<lparr>inflight := inflight s @ take (nat ret) (sq s),
                         sq := drop (nat ret) (sq s)\<rparr>)))"

text \<open>A submission to the base bdev: accepted when it returns zero.\<close>

definition base_submit :: "ext_oracle \<Rightarrow> base_req \<Rightarrow> ubi_state \<Rightarrow> int \<times> ubi_state" where
  "base_submit env r s =
     (let ret = o_base env (clock s) r in
      (ret, tick (if ret = 0 then s\<lparr>base_reqs := base_reqs s @ [r]\<rparr> else s)))"

text \<open>\<^verbatim>\<open>spdk_bdev_io_complete\<close>: the request is done, with a success flag.\<close>

definition spdk_bdev_io_complete :: "bdev_io \<Rightarrow> bool \<Rightarrow> ubi_state \<Rightarrow> ubi_state" where
  "spdk_bdev_io_complete b success s = s\<lparr>completed := completed s @ [(b, success)]\<rparr>"

end
