(* ===== verification/Ubi_Layout.thy ===== *)
theory Ubi_Layout
  imports Ubi_Types
begin

section \<open>Layout parameters (\<^verbatim>\<open>ubi_init_layout_params\<close>)\<close>

text \<open>
  How the stripe geometry is computed from the base bdev, the image size and the requested
  stripe size, with every early return, and what a successful computation guarantees.
  \<open>stat_size\<close> is the result of \<^verbatim>\<open>stat\<close> on a path: \<open>None\<close> when it fails, otherwise
  \<^verbatim>\<open>st_size\<close> (never negative for a file, so that signed and unsigned arithmetic agree).
\<close>

text \<open>\<^verbatim>\<open>while (r > 1) { r /= 2; log2_r++; }\<close>\<close>

function log2_loop :: "u32 \<Rightarrow> nat \<Rightarrow> nat" where
  "log2_loop r log2_r = (if r > 1 then log2_loop (r div 2) (Suc log2_r) else log2_r)"
  by pat_completeness auto
termination
proof (relation "measure (\<lambda>(r, _). unat r)")
  fix r :: u32 and n :: nat
  assume "r > 1"
  then have "1 < unat r" by (simp add: word_less_nat_alt)
  then show "((r div 2, Suc n), (r, n)) \<in> measure (\<lambda>(r, _). unat r)"
    by (simp add: unat_div_distrib)
qed simp

declare log2_loop.simps [simp del]

definition ubi_init_layout_params ::
    "(string \<Rightarrow> u64 option) \<Rightarrow> ubi_bdev \<Rightarrow> (int \<times> ubi_bdev) option" where
  "ubi_init_layout_params stat_size ubi =
     (case stat_size (image_path ubi) of
        None \<Rightarrow> Some (- EINVAL, ubi)
      | Some st_size \<Rightarrow>
          (let blen = blocklen (base_bdev (base_bdev_info ubi));
               bcnt = blockcnt (base_bdev (base_bdev_info ubi));
               kb = stripe_size_kb ubi
           in
           if bcnt * ucast blen < st_size + UBI_METADATA_SIZE then Some (- EINVAL, ubi)
           else if kb < UBI_STRIPE_SIZE_MIN \<or> kb > UBI_STRIPE_SIZE_MAX then Some (- EINVAL, ubi)
           else if kb AND (kb - 1) \<noteq> 0 then Some (- EINVAL, ubi)
           else
             (let stripSizeBytes = kb * 1024 in
              if stripSizeBytes < blen then Some (- EINVAL, ubi)
              else if blen = 0 then None
              else if (UBI_METADATA_SIZE :: u32) mod blen \<noteq> 0 then Some (- EINVAL, ubi)
              else
                (let r = (stripSizeBytes + blen - 1) div blen;
                     log2_r = log2_loop r 0
                 in Some (0, ubi\<lparr>stripe_block_count := push_bit log2_r 1,
                                 stripe_shift := word_of_nat log2_r,
                                 data_offset_blocks := UBI_METADATA_SIZE div blen,
                                 image_block_count := (st_size + ucast blen - 1) div ucast blen\<rparr>)))))"

subsection \<open>Powers of two\<close>

lemma dvd_two_power:
  "(n::nat) dvd 2 ^ k \<Longrightarrow> \<exists>j\<le>k. n = 2 ^ j"
proof (induction k arbitrary: n)
  case (Suc k)
  show ?case
  proof (cases "even n")
    case True
    then obtain m where m: "n = 2 * m" by blast
    with Suc.prems have "m dvd 2 ^ k" by simp
    with Suc.IH obtain j where "j \<le> k" "m = 2 ^ j" by blast
    with m show ?thesis by (intro exI [of _ "Suc j"]) simp
  next
    case False
    then have "coprime n 2" by simp
    with Suc.prems have "n dvd 2 ^ k"
      by (simp add: coprime_dvd_mult_right_iff)
    with Suc.IH show ?thesis using le_Suc_eq by blast
  qed
qed simp

lemma and_pred_zero: "0 < n \<Longrightarrow> and n (n - 1) = (0::nat) \<Longrightarrow> \<exists>a. n = 2 ^ a"
proof (induction n rule: less_induct)
  case (less n)
  have half0: "and (n div 2) ((n - 1) div 2) = 0"
    using less.prems(2) and_rec [of n "n - 1"] by simp
  show ?case
  proof (cases "even n")
    case True
    then obtain m where m: "n = 2 * m" by blast
    with less.prems(1) have half: "(n - 1) div 2 = m - 1" "0 < m" "m < n" by simp_all
    with half0 m have "and m (m - 1) = 0"
      by simp
    with half less.IH obtain a where "m = 2 ^ a" by blast
    with m show ?thesis by (intro exI [of _ "Suc a"]) simp
  next
    case False
    then obtain m where m: "n = Suc (2 * m)" by (elim oddE) simp
    with half0 have "m = 0"
      by simp
    with m show ?thesis by (intro exI [of _ 0]) simp
  qed
qed

lemma unat_two_power: "k < LENGTH('a) \<Longrightarrow> unat ((2::'a::len word) ^ k) = 2 ^ k"
  using unat_of_nat [of "2 ^ k", where 'a = 'a] by simp

lemma log2_loop_power: "m < 32 \<Longrightarrow> log2_loop (2 ^ m) n = n + m"
proof (induction m arbitrary: n)
  case 0
  then show ?case by (simp add: log2_loop.simps)
next
  case (Suc m)
  note u = unat_two_power [where 'a = 32]
  have gt: "(2::u32) ^ Suc m > 1"
    using Suc.prems u [of "Suc m"] one_less_power [of "2::nat" "Suc m"]
    by (simp add: word_less_nat_alt)
  have "unat ((2::u32) ^ Suc m div 2) = 2 ^ m"
    using Suc.prems u [of "Suc m"] by (simp add: unat_div_distrib)
  then have half: "(2::u32) ^ Suc m div 2 = 2 ^ m"
    using Suc.prems u [of m] by (simp add: word_unat_eq_iff)
  show ?case
    using Suc gt half by (subst log2_loop.simps) (simp del: power_Suc)
qed

lemma stripe_size_power_of_two:
  fixes kb :: u32
  assumes "64 \<le> kb" and "kb \<le> 1024" and "kb AND (kb - 1) = 0"
  shows "\<exists>a. 6 \<le> a \<and> a \<le> 10 \<and> unat kb = 2 ^ a"
proof -
  have b: "64 \<le> unat kb" "unat kb \<le> 1024"
    using assms(1,2) by (simp_all add: word_le_nat_alt)
  have "unat (kb - 1) = unat kb - 1"
    using b by (simp add: unat_sub word_le_nat_alt)
  with assms(3) have "and (unat kb) (unat kb - 1) = 0"
    by (metis unsigned_and_eq unsigned_0)
  with b obtain a where a: "unat kb = 2 ^ a"
    using and_pred_zero [of "unat kb"] by auto
  have "(2::nat) ^ 6 \<le> 2 ^ a" "(2::nat) ^ a \<le> 2 ^ 10"
    using a b by simp_all
  then have "6 \<le> a" "a \<le> 10"
    by (simp_all only: power_increasing_iff one_less_numeral_iff semiring_norm)
  with a show ?thesis by blast
qed

subsection \<open>What success guarantees\<close>

text \<open>
  A layout is sound when stripes are a power of two of blocks that exactly make up the
  requested stripe size, and the metadata area is a whole number of blocks.
\<close>

definition geometry_ok :: "ubi_bdev \<Rightarrow> bool" where
  "geometry_ok u \<longleftrightarrow>
     (let bl = unat (blocklen (base_bdev (base_bdev_info u))); kb = unat (stripe_size_kb u) in
      0 < bl \<and> 64 \<le> kb \<and> kb \<le> 1024 \<and> unat (stripe_shift u) \<le> 20 \<and>
      unat (stripe_block_count u) = 2 ^ unat (stripe_shift u) \<and>
      unat (stripe_block_count u) * bl = kb * 1024 \<and>
      unat (data_offset_blocks u) * bl = 8388608)"

lemma ceil_div_two_power:
  "j \<le> m \<Longrightarrow> ((2::nat) ^ m + 2 ^ j - 1) div 2 ^ j = 2 ^ (m - j)"
proof -
  assume "j \<le> m"
  then have "(2::nat) ^ m = 2 ^ (m - j) * 2 ^ j"
    by (simp flip: power_add)
  then have "(2::nat) ^ m + 2 ^ j - 1 = 2 ^ j * 2 ^ (m - j) + (2 ^ j - 1)"
    by (simp add: mult.commute)
  moreover have "(q * k + (q - 1)) div q = k" if "0 < q" for q k :: nat
    using that by (cases q) (auto intro: div_nat_eqI)
  ultimately show ?thesis by (metis zero_less_numeral zero_less_power)
qed

lemma layout_block_count:
  fixes kb blen :: u32
  assumes kb: "unat kb = 2 ^ a" "6 \<le> a" "a \<le> 10" and blen: "unat blen = 2 ^ j" "j \<le> a + 10"
  shows "log2_loop ((kb * 1024 + blen - 1) div blen) 0 = a + 10 - j"
proof -
  have small: "(2::nat) ^ a \<le> 1024" "(2::nat) ^ j \<le> 1048576"
    using kb blen power_increasing [of a 10 "2::nat"] power_increasing [of j 20 "2::nat"] by simp_all
  have bytes: "unat (kb * 1024) = 2 ^ (a + 10)"
    using kb small by (simp add: unat_word_ariths power_add)
  then have sum: "unat (kb * 1024 + blen) = 2 ^ (a + 10) + 2 ^ j"
    using small blen by (simp add: unat_word_ariths power_add)
  moreover have "(1::u32) \<le> kb * 1024 + blen"
    using sum by (simp add: word_le_nat_alt Suc_le_eq)
  ultimately have "unat ((kb * 1024 + blen - 1) div blen) = 2 ^ (a + 10 - j)"
    using blen ceil_div_two_power [of j "a + 10"] by (simp add: unat_div_distrib unat_sub)
  then have "(kb * 1024 + blen - 1) div blen = 2 ^ (a + 10 - j)"
    using kb by (simp add: word_unat_eq_iff unat_two_power)
  then show ?thesis
    using kb by (simp add: log2_loop_power)
qed

lemma ubi_init_layout_params_success:
  assumes "ubi_init_layout_params stat_size u = Some (0, u')"
  obtains st_size a j where
    "stat_size (image_path u) = Some st_size"
    "unat (stripe_size_kb u) = 2 ^ a" "6 \<le> a" "a \<le> 10"
    "unat (blocklen (base_bdev (base_bdev_info u))) = 2 ^ j" "j \<le> a + 10"
    "st_size + 8388608 \<le> blockcnt (base_bdev (base_bdev_info u)) * ucast (blocklen (base_bdev (base_bdev_info u)))"
    "u' = u\<lparr>stripe_block_count := 2 ^ (a + 10 - j), stripe_shift := word_of_nat (a + 10 - j),
            data_offset_blocks := 8388608 div blocklen (base_bdev (base_bdev_info u)),
            image_block_count := (st_size + ucast (blocklen (base_bdev (base_bdev_info u))) - 1)
              div ucast (blocklen (base_bdev (base_bdev_info u)))\<rparr>"
proof -
  let ?bl = "blocklen (base_bdev (base_bdev_info u))" and ?kb = "stripe_size_kb u"
  obtain st_size where st: "stat_size (image_path u) = Some st_size"
    using assms by (auto simp: ubi_init_layout_params_def split: option.splits)
  note res = assms [unfolded ubi_init_layout_params_def st Let_def option.case]
  have c: "st_size + 8388608 \<le> blockcnt (base_bdev (base_bdev_info u)) * ucast ?bl"
    "64 \<le> ?kb" "?kb \<le> 1024" "?kb AND (?kb - 1) = 0" "?bl \<le> ?kb * 1024" "?bl \<noteq> 0"
    "(8388608 :: u32) mod ?bl = 0"
    using res by (auto simp: not_less split: if_splits)
  obtain a where a: "6 \<le> a" "a \<le> 10" "unat ?kb = 2 ^ a"
    using stripe_size_power_of_two [OF c(2-4)] by blast
  have "unat ?bl dvd 2 ^ 23"
    using c(7) by (simp add: word_unat_eq_iff unat_mod_distrib dvd_eq_mod_eq_0)
  then obtain j where j: "unat ?bl = 2 ^ j"
    using dvd_two_power by blast
  have "(2::nat) ^ a \<le> 1024"
    using a power_increasing [of a 10 "2::nat"] by simp
  then have "unat (?kb * 1024) = 2 ^ (a + 10)"
    using a by (simp add: unat_word_ariths power_add)
  with c(5) j have "(2::nat) ^ j \<le> 2 ^ (a + 10)"
    by (simp add: word_le_nat_alt)
  then have ja: "j \<le> a + 10"
    by (simp only: power_increasing_iff one_less_numeral_iff semiring_norm)
  show ?thesis
    using that [OF st a(3,1,2) j ja c(1)] res c layout_block_count [OF a(3,1,2) j ja]
    by (auto simp: push_bit_of_1 split: if_splits)
qed

lemma ubi_init_layout_params_geometry:
  assumes "ubi_init_layout_params stat_size u = Some (0, u')"
  shows "geometry_ok u'"
proof -
  from assms obtain st_size a j where
    a: "unat (stripe_size_kb u) = 2 ^ a" "6 \<le> a" "a \<le> 10" and
    j: "unat (blocklen (base_bdev (base_bdev_info u))) = 2 ^ j" "j \<le> a + 10" and
    u': "u' = u\<lparr>stripe_block_count := 2 ^ (a + 10 - j), stripe_shift := word_of_nat (a + 10 - j),
            data_offset_blocks := 8388608 div blocklen (base_bdev (base_bdev_info u)),
            image_block_count := (st_size + ucast (blocklen (base_bdev (base_bdev_info u))) - 1)
              div ucast (blocklen (base_bdev (base_bdev_info u)))\<rparr>"
    by (rule ubi_init_layout_params_success)
  have kb: "64 \<le> (2::nat) ^ a" "(2::nat) ^ a \<le> 1024"
    using a power_increasing [of a 10 "2::nat"] power_increasing [of 6 a "2::nat"] by simp_all
  have "(2::nat) ^ 23 = 2 ^ (23 - j) * 2 ^ j"
    using a j by (simp only: flip: power_add) simp
  then have "(2::nat) ^ j dvd 8388608"
    by (simp add: dvd_def) (metis mult.commute)
  then have "unat ((8388608::u32) div blocklen (base_bdev (base_bdev_info u))) * 2 ^ j = 8388608"
    using j by (simp add: unat_div_distrib)
  moreover have "(2::nat) ^ (a + 10 - j) * 2 ^ j = 2 ^ a * 1024"
    using j by (simp flip: power_add) (simp add: power_add)
  moreover have "unat (word_of_nat (a + 10 - j) :: u32) = a + 10 - j"
    using a by (simp only: unat_of_nat) simp
  ultimately show ?thesis
    using a j kb by (simp add: geometry_ok_def u' Let_def unat_two_power del: of_nat_diff)
qed

subsection \<open>Properties\<close>

text \<open>The inputs the documentation allows, stated on numbers.\<close>

definition layout_accepts :: "(string \<Rightarrow> u64 option) \<Rightarrow> ubi_bdev \<Rightarrow> bool" where
  "layout_accepts stat_size u \<longleftrightarrow>
     (let bl = blocklen (base_bdev (base_bdev_info u)); bc = blockcnt (base_bdev (base_bdev_info u)) in
      (case stat_size (image_path u) of None \<Rightarrow> False
       | Some st_size \<Rightarrow> st_size + 8388608 \<le> bc * ucast bl) \<and>
      unat (stripe_size_kb u) \<in> {64, 128, 256, 512, 1024} \<and>
      unat bl dvd 8388608 \<and> unat bl \<le> unat (stripe_size_kb u) * 1024)"

lemma two_power_6_10: "6 \<le> a \<Longrightarrow> a \<le> 10 \<Longrightarrow> (2::nat) ^ a \<in> {64, 128, 256, 512, 1024}"
proof -
  assume "6 \<le> a" "a \<le> 10"
  then have "a \<in> {6, 7, 8, 9, 10}" by auto
  then show ?thesis by auto
qed

lemma kb_masks:
  fixes kb :: u32
  assumes "unat kb \<in> {64, 128, 256, 512, 1024}"
  shows "64 \<le> kb" "kb \<le> 1024" "kb AND (kb - 1) = 0" "unat (kb * 1024) = unat kb * 1024"
proof -
  have "kb = 64 \<or> kb = 128 \<or> kb = 256 \<or> kb = 512 \<or> kb = 1024"
    using assms by (auto simp: word_unat_eq_iff)
  then show "64 \<le> kb" "kb \<le> 1024" "kb AND (kb - 1) = 0" "unat (kb * 1024) = unat kb * 1024"
    by (elim disjE; simp)+
qed

lemma layout_outcomes:
  assumes "blocklen (base_bdev (base_bdev_info u)) \<noteq> 0"
  shows "\<exists>rc u'. ubi_init_layout_params stat_size u = Some (rc, u') \<and> (rc = 0 \<or> rc = - EINVAL \<and> u' = u)"
  using assms by (auto simp: ubi_init_layout_params_def Let_def split: option.split)

text \<open>
  C23: \<^verbatim>\<open>ubi_init_layout_params\<close> always returns when the base bdev has a block length, and
  accepts exactly the inputs the documentation allows: the image exists and fits behind the
  metadata, the stripe size is a power of two between 64 and 1024 KB, the block length
  divides the metadata size and is at most a stripe.  An accepted input gives a sound
  geometry; any other gives \<^verbatim>\<open>-EINVAL\<close> and leaves the bdev as it was.
\<close>

theorem init_layout_params_spec:
  assumes "blocklen (base_bdev (base_bdev_info u)) \<noteq> 0"
  shows "\<exists>rc u'. ubi_init_layout_params stat_size u = Some (rc, u') \<and>
           (if layout_accepts stat_size u then rc = 0 \<and> geometry_ok u' else rc = - EINVAL \<and> u' = u)"
proof (cases "layout_accepts stat_size u")
  case True
  let ?bl = "blocklen (base_bdev (base_bdev_info u))"
  from True obtain st_size where st: "stat_size (image_path u) = Some st_size"
    "st_size + 8388608 \<le> blockcnt (base_bdev (base_bdev_info u)) * ucast ?bl"
    and kb: "unat (stripe_size_kb u) \<in> {64, 128, 256, 512, 1024}"
    and bl: "unat ?bl dvd 8388608" "unat ?bl \<le> unat (stripe_size_kb u) * 1024"
    by (auto simp: layout_accepts_def Let_def split: option.splits)
  have "8388608 mod ?bl = 0"
    using bl(1) by (simp add: word_unat_eq_iff unat_mod_distrib dvd_eq_mod_eq_0)
  moreover have "?bl \<le> stripe_size_kb u * 1024"
    using bl(2) kb_masks(4) [OF kb] by (simp add: word_le_nat_alt)
  ultimately have "\<exists>u'. ubi_init_layout_params stat_size u = Some (0, u')"
    unfolding ubi_init_layout_params_def st(1) Let_def
    using st(2) kb_masks(1-3) [OF kb] assms by (auto simp: not_less [symmetric])
  with True show ?thesis using ubi_init_layout_params_geometry by auto
next
  case False
  have "ubi_init_layout_params stat_size u \<noteq> Some (0, u')" for u'
  proof
    assume "ubi_init_layout_params stat_size u = Some (0, u')"
    then obtain st_size a j where s: "stat_size (image_path u) = Some st_size"
      "unat (stripe_size_kb u) = 2 ^ a" "6 \<le> a" "a \<le> 10"
      "unat (blocklen (base_bdev (base_bdev_info u))) = 2 ^ j" "j \<le> a + 10"
      "st_size + 8388608 \<le> blockcnt (base_bdev (base_bdev_info u)) * ucast (blocklen (base_bdev (base_bdev_info u)))"
      by (rule ubi_init_layout_params_success)
    have "(2::nat) ^ j \<le> 2 ^ a * 1024"
      using s(6) power_increasing [of j "a + 10" "2::nat"] by (simp add: power_add)
    moreover have "(2::nat) ^ j dvd 2 ^ 23"
      using s(4,6) by (intro le_imp_power_dvd) simp
    ultimately show False
      using False s two_power_6_10 [OF s(3,4)] by (simp add: layout_accepts_def Let_def)
  qed
  with False layout_outcomes [OF assms, of stat_size] show ?thesis by auto
qed

text \<open>A base bdev of 64 MB with 512-byte blocks.\<close>

definition demo_base :: spdk_bdev where
  "demo_base = \<lparr>bdev_name = Some ''base'', blocklen = 512, blockcnt = 131072, write_cache = False,
     optimal_io_boundary = 0, split_on_optimal_io_boundary = False, required_alignment = 0\<rparr>"

definition demo_metadata :: ubi_metadata where
  "demo_metadata = \<lparr>magic = replicate 9 0, versionMajor = (0, 0), versionMinor = (0, 0),
     md_stripe_size_kb = 0, stripe_headers = \<lambda>_ _. 0, padding = \<lambda>_. 0\<rparr>"

text \<open>A bdev on it before its layout is computed.\<close>

definition demo_ubi0 :: "u32 \<Rightarrow> ubi_bdev" where
  "demo_ubi0 kb = \<lparr>bdev = demo_base\<lparr>bdev_name := Some ''ubi0''\<rparr>,
     base_bdev_info = \<lparr>base_bdev = demo_base, base_desc = Some 1\<rparr>, image_path = ''image'',
     stripe_size_kb = kb, stripe_block_count = 0, stripe_shift = 0, data_offset_blocks = 0,
     image_block_count = 0, alignment_bytes = 4096, no_sync = False, copy_on_read = True, directio = True,
     stripe_status = \<lambda>_. STRIPE_NOT_FETCHED, metadata = demo_metadata,
     stripes_fetched = 0, stripes_flushed = 0, bdev_thread = 0\<rparr>"

text \<open>The same bdev with 64 KB stripes on a 1 MB image and a new disk, as the module sets it up.\<close>

definition demo_ubi :: ubi_bdev where
  "demo_ubi = (demo_ubi0 64)\<lparr>stripe_block_count := 128, stripe_shift := 7, data_offset_blocks := 16384,
     image_block_count := 2048, bdev_thread := 1,
     bdev := demo_base\<lparr>bdev_name := Some ''ubi0'', blockcnt := 114688, optimal_io_boundary := 128,
       split_on_optimal_io_boundary := True, required_alignment := 12\<rparr>,
     metadata := demo_metadata\<lparr>magic := UBI_MAGIC, versionMinor := (1, 0), md_stripe_size_kb := 64\<rparr>\<rparr>"

lemmas demo_ubi_defs [demo_simps] = demo_ubi_def demo_ubi0_def demo_base_def

lemma demo_ubi_geometry: "geometry_ok demo_ubi"
  by (simp add: geometry_ok_def demo_simps)

theorem init_layout_params_spec_witness:
  "(\<exists>u'. ubi_init_layout_params (\<lambda>_. Some 1048576) (demo_ubi0 64) = Some (0, u') \<and> geometry_ok u') \<and>
   ubi_init_layout_params (\<lambda>_. Some 1048576) (demo_ubi0 96) = Some (- EINVAL, demo_ubi0 96)"
proof
  have "layout_accepts (\<lambda>_. Some 1048576) (demo_ubi0 64)"
    by (simp add: layout_accepts_def demo_ubi0_def demo_base_def dvd_def)
  then show "\<exists>u'. ubi_init_layout_params (\<lambda>_. Some 1048576) (demo_ubi0 64) = Some (0, u') \<and> geometry_ok u'"
    using init_layout_params_spec [of "demo_ubi0 64" "\<lambda>_. Some 1048576"]
    by (auto simp: demo_ubi0_def demo_base_def)
  have "\<not> layout_accepts (\<lambda>_. Some 1048576) (demo_ubi0 96)"
    by (simp add: layout_accepts_def demo_ubi0_def demo_base_def)
  then show "ubi_init_layout_params (\<lambda>_. Some 1048576) (demo_ubi0 96) = Some (- EINVAL, demo_ubi0 96)"
    using init_layout_params_spec [of "demo_ubi0 96" "\<lambda>_. Some 1048576"]
    by (auto simp: demo_ubi0_def demo_base_def)
qed

lemma ceil_div_bounds:
  assumes "0 < (b::nat)"
  shows "x \<le> (x + b - 1) div b * b" "(x + b - 1) div b * b < x + b"
proof -
  have "(x + b - 1) div b * b + (x + b - 1) mod b = x + b - 1" by simp
  moreover have "(x + b - 1) mod b < b" using assms by simp
  ultimately show "x \<le> (x + b - 1) div b * b" "(x + b - 1) div b * b < x + b"
    using assms by linarith+
qed

text \<open>
  A layout that was accepted covers the image: its block count is the image size in
  blocks, rounded up, and the metadata followed by the blocks of the image fit on the base
  bdev.  The sizes are assumed not to overflow 64 bits.
\<close>

theorem layout_covers_image:
  assumes "ubi_init_layout_params stat_size u = Some (0, u')"
    and "stat_size (image_path u) = Some st_size"
    and "unat st_size + 2 ^ 33 \<le> 2 ^ 64"
    and "unat (blockcnt (base_bdev (base_bdev_info u))) * unat (blocklen (base_bdev (base_bdev_info u))) < 2 ^ 64"
  shows "let bl = unat (blocklen (base_bdev (base_bdev_info u)));
             n = unat (image_block_count u')
         in unat st_size \<le> n * bl \<and> n * bl < unat st_size + bl \<and>
            unat (data_offset_blocks u') + n \<le> unat (blockcnt (base_bdev (base_bdev_info u)))"
proof -
  let ?bl = "blocklen (base_bdev (base_bdev_info u))" and ?bc = "blockcnt (base_bdev (base_bdev_info u))"
  obtain st j where st: "stat_size (image_path u) = Some st" and bl: "unat ?bl = 2 ^ j"
    and fit: "st + 8388608 \<le> ?bc * ucast ?bl"
    and n: "image_block_count u' = (st + ucast ?bl - 1) div ucast ?bl"
    using assms(1) by (rule ubi_init_layout_params_success) auto
  have [simp]: "st = st_size" using st assms(2) by simp
  have pos: "0 < unat ?bl" using bl by simp
  have small: "unat ?bl < 2 ^ 32" using unsigned_less [of ?bl, where ?'a = nat] by simp
  have sum: "unat (st_size + ucast ?bl) = unat st_size + unat ?bl"
    using assms(3) small by (simp add: unat_word_ariths)
  then have "unat (st_size + ucast ?bl - 1) = unat st_size + unat ?bl - 1"
    using pos by (subst unat_sub) (simp_all add: word_le_nat_alt)
  then have nn: "unat (image_block_count u') = (unat st_size + unat ?bl - 1) div unat ?bl"
    using n by (simp add: unat_div_distrib)
  note ceil = ceil_div_bounds [OF pos, of "unat st_size", folded nn]
  have "unat (data_offset_blocks u') * unat (blocklen (base_bdev (base_bdev_info u'))) = 8388608"
    using ubi_init_layout_params_geometry [OF assms(1)] by (simp add: geometry_ok_def Let_def)
  moreover have "base_bdev_info u' = base_bdev_info u"
    using assms(1) by (rule ubi_init_layout_params_success) simp
  ultimately have off: "unat (data_offset_blocks u') * unat ?bl = 8388608" by simp
  have "unat (st_size + 8388608) = unat st_size + 8388608"
    using assms(3) by (simp add: unat_word_ariths)
  moreover have "unat (?bc * ucast ?bl) = unat ?bc * unat ?bl"
    using assms(4) by (simp add: unat_word_ariths)
  ultimately have "unat st_size + 8388608 \<le> unat ?bc * unat ?bl"
    using fit by (simp add: word_le_nat_alt)
  then have "(unat (data_offset_blocks u') + unat (image_block_count u')) * unat ?bl < (unat ?bc + 1) * unat ?bl"
    using ceil(2) off by (simp add: add_mult_distrib)
  then have "unat (data_offset_blocks u') + unat (image_block_count u') < unat ?bc + 1"
    by (rule mult_less_cancel2 [THEN iffD1, THEN conjunct2])
  with ceil show ?thesis by (simp add: Let_def)
qed

theorem layout_covers_image_witness:
  "\<exists>u'. ubi_init_layout_params (\<lambda>_. Some 1000000) (demo_ubi0 64) = Some (0, u') \<and>
     1000000 \<le> unat (image_block_count u') * 512 \<and> unat (image_block_count u') * 512 < 1000512 \<and>
     unat (data_offset_blocks u') + unat (image_block_count u') \<le> 131072"
proof -
  let ?st = "\<lambda>_ :: string. Some (1000000 :: u64)"
  have bl: "blocklen (base_bdev (base_bdev_info (demo_ubi0 64))) = 512"
    "blockcnt (base_bdev (base_bdev_info (demo_ubi0 64))) = 131072"
    by (simp_all add: demo_ubi0_def demo_base_def)
  have "\<exists>u'. ubi_init_layout_params ?st (demo_ubi0 64) = Some (0, u')"
    by (simp add: ubi_init_layout_params_def demo_ubi0_def demo_base_def Let_def)
  then obtain u' where u': "ubi_init_layout_params ?st (demo_ubi0 64) = Some (0, u')" by blast
  from layout_covers_image [OF this refl] u' show ?thesis
    by (auto simp: bl Let_def)
qed

end
