(* ===== verification/Ubi_Metadata.thy ===== *)
theory Ubi_Metadata
  imports Ubi_Layout
begin

section \<open>On-disk metadata (\<^verbatim>\<open>bdev_ubi.c\<close>)\<close>

text \<open>
  The little-endian version numbers, recognition of a new disk, initialisation and loading
  of the metadata, and the byte layout of \<^verbatim>\<open>struct ubi_metadata\<close> on the base bdev.
\<close>

subsection \<open>Version numbers\<close>

definition store_littleendian_shortint :: "u16 \<Rightarrow> u8 \<times> u8" where
  "store_littleendian_shortint n = (ucast (n AND 0xff), ucast (drop_bit 8 n))"

definition load_littleendian_shortint :: "u8 \<times> u8 \<Rightarrow> u16" where
  "load_littleendian_shortint mem = ucast (fst mem) OR push_bit 8 (ucast (snd mem))"

definition ubi_set_version :: "ubi_metadata \<Rightarrow> u16 \<Rightarrow> u16 \<Rightarrow> ubi_metadata" where
  "ubi_set_version m major minor =
     m\<lparr>versionMajor := store_littleendian_shortint major,
       versionMinor := store_littleendian_shortint minor\<rparr>"

definition ubi_get_version :: "ubi_metadata \<Rightarrow> u16 \<times> u16" where
  "ubi_get_version m =
     (load_littleendian_shortint (versionMajor m), load_littleendian_shortint (versionMinor m))"

subsection \<open>New disks, initialisation, loading\<close>

text \<open>The loop over the magic bytes; \<open>magic\<close> has \<^const>\<open>UBI_MAGIC_SIZE\<close> of them.\<close>

fun ubi_new_disk :: "u8 list \<Rightarrow> bool" where
  "ubi_new_disk [] = True"
| "ubi_new_disk (b # bs) = (if b \<noteq> 0 then False else ubi_new_disk bs)"

definition ubi_init_metadata :: "ubi_bdev \<Rightarrow> ubi_bdev" where
  "ubi_init_metadata u =
     (let m = (metadata u)\<lparr>magic := UBI_MAGIC\<rparr>;
          m = ubi_set_version m UBI_VERSION_MAJOR UBI_VERSION_MINOR;
          m = m\<lparr>md_stripe_size_kb := ucast (stripe_size_kb u)\<rparr>
      in u\<lparr>metadata := m\<rparr>)"

text \<open>The body of the loop over the stripe headers, and the loop with \<open>n\<close> rounds to go.\<close>

definition load_stripe :: "nat \<Rightarrow> ubi_bdev \<Rightarrow> ubi_bdev" where
  "load_stripe i u =
     (let fetched = (stripe_headers (metadata u) i 0 \<noteq> 0);
          u = u\<lparr>stripe_status := (stripe_status u)
                  (i := if fetched then STRIPE_FETCHED else STRIPE_NOT_FETCHED)\<rparr>
      in if fetched
         then u\<lparr>stripes_fetched := stripes_fetched u + 1,
                stripes_flushed := stripes_flushed u + 1\<rparr>
         else u)"

primrec load_stripes :: "nat \<Rightarrow> nat \<Rightarrow> ubi_bdev \<Rightarrow> ubi_bdev" where
  "load_stripes 0 i u = u"
| "load_stripes (Suc n) i u = load_stripes n (Suc i) (load_stripe i u)"

text \<open>
  What \<^verbatim>\<open>ubi_finish_read_metadata\<close> does with metadata that was read successfully: the
  status it passes to \<^verbatim>\<open>ubi_finish_create\<close>, and the bdev.
\<close>

definition ubi_load_metadata :: "ubi_bdev \<Rightarrow> int \<times> ubi_bdev" where
  "ubi_load_metadata u =
     (if ubi_new_disk (magic (metadata u)) then (0, ubi_init_metadata u)
      else if magic (metadata u) \<noteq> UBI_MAGIC then (- EINVAL, u)
      else
        (let (major, minor) = ubi_get_version (metadata u) in
         if major \<noteq> UBI_VERSION_MAJOR \<or> minor \<noteq> UBI_VERSION_MINOR then (- EINVAL, u)
         else (0, load_stripes UBI_MAX_STRIPES 0 u)))"

subsection \<open>The bytes on disk\<close>

text \<open>
  \<^verbatim>\<open>struct ubi_metadata\<close> has byte members only, so its bytes follow each other without
  padding: the byte at offset \<open>k\<close>, and the structure read back from bytes.
\<close>

definition metadata_bytes :: "ubi_metadata \<Rightarrow> nat \<Rightarrow> u8" where
  "metadata_bytes m k =
     (if k < 9 then magic m ! k
      else if k = 9 then fst (versionMajor m)
      else if k = 10 then snd (versionMajor m)
      else if k = 11 then fst (versionMinor m)
      else if k = 12 then snd (versionMinor m)
      else if k = 13 then md_stripe_size_kb m
      else if k < 14 + 2 * UBI_MAX_STRIPES then stripe_headers m ((k - 14) div 2) ((k - 14) mod 2)
      else padding m (k - (14 + 2 * UBI_MAX_STRIPES)))"

definition metadata_of_bytes :: "(nat \<Rightarrow> u8) \<Rightarrow> ubi_metadata" where
  "metadata_of_bytes b =
     \<lparr>magic = map b [0..<9], versionMajor = (b 9, b 10), versionMinor = (b 11, b 12),
      md_stripe_size_kb = b 13,
      stripe_headers = (\<lambda>i j. b (14 + 2 * i + j)),
      padding = (\<lambda>i. b (14 + 2 * UBI_MAX_STRIPES + i))\<rparr>"

text \<open>Two structures agree when all their members do, arrays within their bounds.\<close>

definition metadata_agree :: "ubi_metadata \<Rightarrow> ubi_metadata \<Rightarrow> bool" where
  "metadata_agree m m' \<longleftrightarrow>
     magic m = magic m' \<and> versionMajor m = versionMajor m' \<and> versionMinor m = versionMinor m' \<and>
     md_stripe_size_kb m = md_stripe_size_kb m' \<and>
     (\<forall>i < UBI_MAX_STRIPES. \<forall>j < 2. stripe_headers m i j = stripe_headers m' i j) \<and>
     (\<forall>i < 8388608 - UBI_MAGIC_SIZE - UBI_MAX_STRIPES * 2 - 5. padding m i = padding m' i)"

subsection \<open>Lemmas\<close>

lemma load_store_littleendian [simp]:
  "load_littleendian_shortint (store_littleendian_shortint n) = n"
proof -
  have "n AND 0xff = take_bit 8 n"
    by (simp add: take_bit_eq_mask mask_eq_exp_minus_1)
  then have "ucast (ucast (n AND 0xff) :: u8) = (take_bit 8 n :: u16)"
    by (simp only:) (rule bit_word_eqI, auto simp: bit_simps)
  moreover have "push_bit 8 (ucast (ucast (drop_bit 8 n) :: u8)) = (push_bit 8 (drop_bit 8 n) :: u16)"
    by (rule bit_word_eqI) (auto simp: bit_simps)
  moreover have "take_bit 8 n OR push_bit 8 (drop_bit 8 n) = n"
  proof (rule bit_word_eqI)
    fix k assume "k < LENGTH(16)"
    then show "bit (take_bit 8 n OR push_bit 8 (drop_bit 8 n)) k \<longleftrightarrow> bit n k"
      by (cases "k < 8") (auto simp: bit_simps not_less)
  qed
  ultimately show ?thesis
    by (simp add: load_littleendian_shortint_def store_littleendian_shortint_def)
qed

lemma ubi_get_set_version [simp]: "ubi_get_version (ubi_set_version m a b) = (a, b)"
  by (simp add: ubi_get_version_def ubi_set_version_def)

lemma ubi_new_disk_iff: "ubi_new_disk bs \<longleftrightarrow> (\<forall>b \<in> set bs. b = 0)"
  by (induction bs) auto

lemma length_upt_9: "length xs = 9 \<Longrightarrow> map ((!) xs) [0..<9] = xs"
  by (metis map_nth)

lemma metadata_roundtrip:
  assumes "length (magic m) = 9"
  shows "metadata_agree (metadata_of_bytes (metadata_bytes m)) m"
proof -
  have "map (metadata_bytes m) [0..<9] = map ((!) (magic m)) [0..<9]"
    by (rule map_cong) (auto simp: metadata_bytes_def)
  then have "map (metadata_bytes m) [0..<9] = magic m"
    using length_upt_9 [OF assms] by simp
  moreover have "metadata_bytes m (14 + 2 * i + j) = stripe_headers m i j"
    if "i < UBI_MAX_STRIPES" "j < 2" for i j
    using that by (simp add: metadata_bytes_def)
  ultimately show ?thesis
    by (simp add: metadata_agree_def metadata_of_bytes_def) (simp add: metadata_bytes_def)
qed



subsection \<open>Loading\<close>

definition fetched_set :: "ubi_bdev \<Rightarrow> nat set" where
  "fetched_set u = {i. i < UBI_MAX_STRIPES \<and> stripe_status u i = STRIPE_FETCHED}"

definition header_set :: "ubi_metadata \<Rightarrow> nat set" where
  "header_set m = {i. i < UBI_MAX_STRIPES \<and> stripe_headers m i 0 \<noteq> 0}"

lemma finite_fetched_set [simp]: "finite (fetched_set u)"
  by (simp add: fetched_set_def)

lemma finite_header_set [simp]: "finite (header_set m)"
  by (simp add: header_set_def)

lemma load_stripe_metadata [simp]: "metadata (load_stripe i u) = metadata u"
  by (simp add: load_stripe_def Let_def)

lemma load_stripes_metadata [simp]: "metadata (load_stripes n i u) = metadata u"
  by (induction n arbitrary: i u) simp_all

lemma load_stripes_status:
  "stripe_status (load_stripes n i u) k =
     (if i \<le> k \<and> k < i + n
      then if stripe_headers (metadata u) k 0 \<noteq> 0 then STRIPE_FETCHED else STRIPE_NOT_FETCHED
      else stripe_status u k)"
  by (induction n arbitrary: i u) (auto simp: load_stripe_def Let_def)

lemma header_range_card:
  "card {k. i \<le> k \<and> k < i + Suc n \<and> h k} =
     (if h i then Suc (card {k. Suc i \<le> k \<and> k < Suc i + n \<and> h k})
      else card {k. Suc i \<le> k \<and> k < Suc i + n \<and> h k})"
proof -
  have "{k. i \<le> k \<and> k < i + Suc n \<and> h k} =
      (if h i then insert i {k. Suc i \<le> k \<and> k < Suc i + n \<and> h k}
       else {k. Suc i \<le> k \<and> k < Suc i + n \<and> h k})"
    by (auto simp: Suc_le_eq le_eq_less_or_eq)
  then show ?thesis by simp
qed

lemma load_stripes_counts:
  "stripes_fetched (load_stripes n i u) = stripes_fetched u +
     word_of_nat (card {k. i \<le> k \<and> k < i + n \<and> stripe_headers (metadata u) k 0 \<noteq> 0}) \<and>
   stripes_flushed (load_stripes n i u) = stripes_flushed u +
     word_of_nat (card {k. i \<le> k \<and> k < i + n \<and> stripe_headers (metadata u) k 0 \<noteq> 0})"
proof (induction n arbitrary: i u)
  case 0
  have "{k. i \<le> k \<and> k < i + 0 \<and> stripe_headers (metadata u) k 0 \<noteq> 0} = {}" by auto
  then show ?case by (simp only: load_stripes.simps card.empty) simp
next
  case (Suc n)
  show ?case
    by (simp only: load_stripes.simps Suc header_range_card load_stripe_metadata)
      (simp add: load_stripe_def Let_def)
qed

lemma load_all_stripes:
  defines "u' \<equiv> \<lambda>u. load_stripes UBI_MAX_STRIPES 0 u"
  shows "fetched_set (u' u) = header_set (metadata u)"
    and "stripes_fetched (u' u) = stripes_fetched u + word_of_nat (card (header_set (metadata u)))"
    and "stripes_flushed (u' u) = stripes_flushed u + word_of_nat (card (header_set (metadata u)))"
    and "\<forall>i < UBI_MAX_STRIPES. i \<notin> header_set (metadata u) \<longrightarrow>
           stripe_status (u' u) i = STRIPE_NOT_FETCHED"
  using load_stripes_counts [of UBI_MAX_STRIPES 0 u]
  by (simp_all only: u'_def fetched_set_def header_set_def load_stripes_status)
    (auto split: if_splits)

lemma card_stripe_set: "S \<subseteq> {..<UBI_MAX_STRIPES} \<Longrightarrow> card S \<le> UBI_MAX_STRIPES"
  using card_mono [of "{..<UBI_MAX_STRIPES}" S] by simp

subsection \<open>Properties\<close>

lemma header_set_agree: "metadata_agree m m' \<Longrightarrow> header_set m = header_set m'"
  by (auto simp: metadata_agree_def header_set_def)

lemma unat_card_headers: "unat (word_of_nat (card (header_set m)) :: u64) = card (header_set m)"
proof -
  have "card (header_set m) \<le> UBI_MAX_STRIPES"
    by (rule card_stripe_set) (auto simp: header_set_def)
  then show ?thesis by (simp add: unat_of_nat)
qed

lemma load_valid:
  assumes "magic (metadata u) = UBI_MAGIC" "ubi_get_version (metadata u) = (UBI_VERSION_MAJOR, UBI_VERSION_MINOR)"
  shows "ubi_load_metadata u = (0, load_stripes UBI_MAX_STRIPES 0 u)"
  using assms by (simp add: ubi_load_metadata_def del: UBI_MAX_STRIPES_def)

text \<open>
  Restart.  Metadata that was written to disk byte by byte and is read back into a freshly
  allocated bdev is accepted, marks exactly the stripes whose header byte was set as fetched
  and every other stripe as not fetched, and sets both counters to the number of set headers.
\<close>

theorem reload_after_restart:
  assumes "magic m = UBI_MAGIC" and "ubi_get_version m = (UBI_VERSION_MAJOR, UBI_VERSION_MINOR)"
    and "stripes_fetched u = 0" and "stripes_flushed u = 0"
  shows "\<exists>u'. ubi_load_metadata (u\<lparr>metadata := metadata_of_bytes (metadata_bytes m)\<rparr>) = (0, u') \<and>
     fetched_set u' = header_set m \<and>
     (\<forall>i. i < UBI_MAX_STRIPES \<and> i \<notin> header_set m \<longrightarrow> stripe_status u' i = STRIPE_NOT_FETCHED) \<and>
     unat (stripes_fetched u') = card (header_set m) \<and> stripes_flushed u' = stripes_fetched u'"
proof -
  let ?u = "u\<lparr>metadata := metadata_of_bytes (metadata_bytes m)\<rparr>"
  have ag: "metadata_agree (metadata ?u) m"
    using metadata_roundtrip [of m] assms(1) by simp
  then have "magic (metadata ?u) = UBI_MAGIC" "ubi_get_version (metadata ?u) = (UBI_VERSION_MAJOR, UBI_VERSION_MINOR)"
    using assms(1,2) by (simp_all only: metadata_agree_def ubi_get_version_def)
  then have "ubi_load_metadata ?u = (0, load_stripes UBI_MAX_STRIPES 0 ?u)" by (rule load_valid)
  moreover have "header_set (metadata ?u) = header_set m"
    using ag by (rule header_set_agree)
  ultimately show ?thesis
    using load_all_stripes [of ?u] assms(3,4) unat_card_headers [of m] by auto
qed

definition demo_saved :: ubi_metadata where
  "demo_saved = demo_metadata\<lparr>magic := UBI_MAGIC, versionMinor := (1, 0),
     stripe_headers := (\<lambda>_ _. 0)(3 := (\<lambda>_. 0)(0 := 1))\<rparr>"

lemma demo_saved_headers: "header_set demo_saved = {3}"
  by (auto simp: header_set_def demo_saved_def)

theorem reload_after_restart_witness:
  "\<exists>u'. ubi_load_metadata ((demo_ubi0 64)\<lparr>metadata := metadata_of_bytes (metadata_bytes demo_saved)\<rparr>) = (0, u') \<and>
     fetched_set u' = {3} \<and> stripe_status u' 2 = STRIPE_NOT_FETCHED \<and> unat (stripes_fetched u') = 1"
proof -
  have v: "magic demo_saved = UBI_MAGIC" "ubi_get_version demo_saved = (UBI_VERSION_MAJOR, UBI_VERSION_MINOR)"
    by (simp_all add: demo_saved_def ubi_get_version_def demo_metadata_def load_littleendian_shortint_def)
  have z: "stripes_fetched (demo_ubi0 64) = 0" "stripes_flushed (demo_ubi0 64) = 0"
    by (simp_all add: demo_ubi0_def)
  from reload_after_restart [OF v z] show ?thesis
    by (auto simp: demo_saved_headers)
qed

lemma init_metadata_valid:
  "magic (metadata (ubi_init_metadata u)) = UBI_MAGIC"
  "ubi_get_version (metadata (ubi_init_metadata u)) = (UBI_VERSION_MAJOR, UBI_VERSION_MINOR)"
  "stripe_headers (metadata (ubi_init_metadata u)) = stripe_headers (metadata u)"
  "stripe_status (ubi_init_metadata u) = stripe_status u"
  by (simp_all add: ubi_init_metadata_def ubi_set_version_def ubi_get_version_def Let_def)

text \<open>
  C28: the code decides that a disk is new from the magic alone and keeps the stripe headers
  it read.  A stale header next to a zeroed magic is therefore not seen when the disk is
  initialised, the stripe counts as not fetched, but the disk the module writes back is valid
  and the next open takes the stripe for fetched, although nothing was ever copied.
\<close>

theorem stale_header_resurfaces:
  assumes "ubi_new_disk (magic (metadata u))" and "i < UBI_MAX_STRIPES"
    and "stripe_headers (metadata u) i 0 \<noteq> 0" and "stripe_status u i = STRIPE_NOT_FETCHED"
  shows "\<exists>u1 u2. ubi_load_metadata u = (0, u1) \<and> stripe_status u1 i = STRIPE_NOT_FETCHED \<and>
     ubi_load_metadata (v\<lparr>metadata := metadata u1\<rparr>) = (0, u2) \<and> stripe_status u2 i = STRIPE_FETCHED"
proof -
  let ?u1 = "ubi_init_metadata u"
  have "ubi_load_metadata u = (0, ?u1)"
    using assms(1) by (simp add: ubi_load_metadata_def)
  moreover have "ubi_load_metadata (v\<lparr>metadata := metadata ?u1\<rparr>) =
      (0, load_stripes UBI_MAX_STRIPES 0 (v\<lparr>metadata := metadata ?u1\<rparr>))"
    by (rule load_valid) (use init_metadata_valid(1,2) [of u] in simp_all)
  moreover have "i \<in> header_set (metadata (v\<lparr>metadata := metadata ?u1\<rparr>))"
    using assms(2,3) by (simp add: header_set_def init_metadata_valid)
  ultimately show ?thesis
    using assms(4) load_all_stripes(1) [of "v\<lparr>metadata := metadata ?u1\<rparr>"]
    by (auto simp: fetched_set_def init_metadata_valid)
qed

theorem stale_header_resurfaces_witness:
  "let u = (demo_ubi0 64)\<lparr>metadata := demo_metadata\<lparr>stripe_headers := \<lambda>_ _. 1\<rparr>\<rparr> in
   \<exists>u1 u2. ubi_load_metadata u = (0, u1) \<and> stripe_status u1 5 = STRIPE_NOT_FETCHED \<and>
     ubi_load_metadata (u\<lparr>metadata := metadata u1\<rparr>) = (0, u2) \<and> stripe_status u2 5 = STRIPE_FETCHED"
  unfolding Let_def
  by (rule stale_header_resurfaces)
    (simp_all add: demo_ubi0_def demo_metadata_def ubi_new_disk_iff)

text \<open>
  The metadata cannot hold three of the five legal stripe sizes: the field is one byte, so
  256, 512 and 1024 KB are all stored as 0, while 64 and 128 KB are kept.
\<close>

lemma stored_stripe_size:
  "unat (md_stripe_size_kb (metadata (ubi_init_metadata u))) = unat (stripe_size_kb u) mod 256"
proof -
  have "metadata (ubi_init_metadata u) =
      (ubi_set_version ((metadata u)\<lparr>magic := UBI_MAGIC\<rparr>) UBI_VERSION_MAJOR UBI_VERSION_MINOR)
        \<lparr>md_stripe_size_kb := ucast (stripe_size_kb u)\<rparr>"
    by (simp add: ubi_init_metadata_def Let_def)
  then show ?thesis
    by (simp add: unsigned_ucast_eq take_bit_eq_mod)
qed

end
