(* ===== verification/Ubi_Stripe.thy ===== *)
theory Ubi_Stripe
  imports Ubi_Metadata
begin

section \<open>Stripe status and stripe fetches (\<^verbatim>\<open>bdev_ubi_stripe.c\<close>)\<close>

text \<open>
  The status table of a bdev, and the life of a stripe fetch: it is started on a slot of
  \<^verbatim>\<open>stripe_fetches\<close>, its read of the image completes, its write to the base bdev completes.
  A slot is named by its index, which stands for the pointer \<^verbatim>\<open>struct stripe_fetch *\<close>.
\<close>

subsection \<open>The status table\<close>

definition stripe_ix :: "i32 \<Rightarrow> nat option" where
  "stripe_ix index = (if 0 \<le> sint index then Some (nat (sint index)) else None)"

definition ubi_get_stripe_status :: "ubi_bdev \<Rightarrow> i32 \<Rightarrow> stripe_status option" where
  "ubi_get_stripe_status u index = do {
     i \<leftarrow> stripe_ix index;
     arr_get UBI_MAX_STRIPES (stripe_status u) i
   }"

definition ubi_set_stripe_status :: "ubi_bdev \<Rightarrow> i32 \<Rightarrow> stripe_status \<Rightarrow> ubi_bdev option" where
  "ubi_set_stripe_status u index status = do {
     i \<leftarrow> stripe_ix index;
     st \<leftarrow> arr_set UBI_MAX_STRIPES (stripe_status u) i status;
     let u = u\<lparr>stripe_status := st\<rparr>;
     Some (if status = STRIPE_FETCHED
           then u\<lparr>metadata := (metadata u)\<lparr>stripe_headers :=
                    (stripe_headers (metadata u))(i := (stripe_headers (metadata u) i)(0 := 1))\<rparr>\<rparr>
           else u)
   }"

subsection \<open>Stripe fetches\<close>

abbreviation upd_fetch :: "nat \<Rightarrow> (stripe_fetch \<Rightarrow> stripe_fetch) \<Rightarrow> ubi_state \<Rightarrow> ubi_state" where
  "upd_fetch k f s \<equiv>
     s\<lparr>ch := (ch s)\<lparr>stripe_fetches := (stripe_fetches (ch s))[k := f (stripe_fetches (ch s) ! k)]\<rparr>\<rparr>"

definition ubi_fail_stripe_fetch :: "nat \<Rightarrow> ubi_state \<Rightarrow> ubi_state option" where
  "ubi_fail_stripe_fetch k s = do {
     sf \<leftarrow> nth_opt (stripe_fetches (ch s)) k;
     u \<leftarrow> ubi_set_stripe_status (ub s) (stripe_idx sf) STRIPE_FAILED;
     Some (upd_fetch k (\<lambda>sf. sf\<lparr>active := False\<rparr>) (s\<lparr>ub := u\<rparr>))
   }"

text \<open>Where a stripe lies in the image, and how long it is, in bytes.\<close>

definition stripe_offset :: "ubi_bdev \<Rightarrow> u32 \<Rightarrow> u64" where
  "stripe_offset u idx = ucast (stripe_size_kb u) * 1024 * ucast idx"

definition stripe_nbytes :: "ubi_bdev \<Rightarrow> u32" where
  "stripe_nbytes u = ucast (ucast (stripe_size_kb u) * 1024 :: u64)"

definition align_buf :: "u64 \<Rightarrow> u32 \<Rightarrow> u64" where
  "align_buf addr alignment =
     (let remainder = addr AND ucast (alignment - 1);
          alignment_offset = (if remainder \<noteq> 0 then ucast (ucast alignment - remainder) else 0 :: u32)
      in addr + ucast alignment_offset)"

definition ubi_start_fetch_stripe :: "ext_oracle \<Rightarrow> nat \<Rightarrow> ubi_state \<Rightarrow> ubi_state option" where
  "ubi_start_fetch_stripe env k s = do {
     sf \<leftarrow> nth_opt (stripe_fetches (ch s)) k;
     let got_sqe = o_get_sqe env (clock s) (length (sq s));
     let s = tick s;
     let offset = stripe_offset (ub s) (stripe_idx sf);
     let nbytes = stripe_nbytes (ub s);
     let aligned = align_buf (buf sf) (alignment_bytes (ub s));
     let s = upd_fetch k (\<lambda>sf. sf\<lparr>buf_aligned := aligned\<rparr>) s;
     if \<not> got_sqe then None
     else do {
       let (ret, s) = io_uring_submit env (s\<lparr>sq := sq s @ [Sqe_read k aligned nbytes offset]\<rparr>);
       if ret < 0 then ubi_fail_stripe_fetch k s else Some s
     }
   }"

definition ubi_complete_fetch_stripe ::
    "ext_oracle \<Rightarrow> nat \<Rightarrow> int \<Rightarrow> ubi_state \<Rightarrow> (int \<times> ubi_state) option" where
  "ubi_complete_fetch_stripe env k res s = do {
     sf \<leftarrow> nth_opt (stripe_fetches (ch s)) k;
     let offset = stripe_offset (ub s) (stripe_idx sf);
     let nbytes = stripe_nbytes (ub s);
     if res < 0 then do { s \<leftarrow> ubi_fail_stripe_fetch k s; Some (- 1, s) }
     else do {
       let (ret, s) = base_submit env
              (Req_write_stripe k (buf_aligned sf) (offset + UBI_METADATA_SIZE) nbytes) s;
       if ret \<noteq> 0 then do { s \<leftarrow> ubi_fail_stripe_fetch k s; Some (- 1, s) }
       else Some (1, s)
     }
   }"

definition write_stripe_io_completion :: "nat \<Rightarrow> bool \<Rightarrow> ubi_state \<Rightarrow> ubi_state option" where
  "write_stripe_io_completion k success s = do {
     sf \<leftarrow> nth_opt (stripe_fetches (ch s)) k;
     u \<leftarrow> ubi_set_stripe_status (ub s) (stripe_idx sf) STRIPE_FETCHED;
     let u = u\<lparr>stripes_fetched := stripes_fetched u + 1\<rparr>;
     Some (upd_fetch k (\<lambda>sf. sf\<lparr>active := False\<rparr>) (s\<lparr>ub := u\<rparr>))
   }"

subsection \<open>The contract of a status table\<close>

locale status_table =
  fixes get :: "'t \<Rightarrow> 'i \<Rightarrow> 'v option"
    and put :: "'t \<Rightarrow> 'i \<Rightarrow> 'v \<Rightarrow> 't option"
    and valid :: "'i \<Rightarrow> bool"
  assumes put_defined: "put t i v \<noteq> None \<longleftrightarrow> valid i"
    and get_defined: "get t i \<noteq> None \<longleftrightarrow> valid i"
    and get_put_same: "put t i v = Some t' \<Longrightarrow> get t' i = Some v"
    and get_put_other: "put t i v = Some t' \<Longrightarrow> i \<noteq> j \<Longrightarrow> get t' j = get t j"
begin

fun put_all :: "'t \<Rightarrow> 'i list \<Rightarrow> 'v \<Rightarrow> 't option" where
  "put_all t [] v = Some t"
| "put_all t (i # is) v = (case put t i v of None \<Rightarrow> None | Some t' \<Rightarrow> put_all t' is v)"

lemma put_all_get:
  "\<forall>i \<in> set is. valid i \<Longrightarrow>
   \<exists>t'. put_all t is v = Some t' \<and> (\<forall>j. get t' j = (if j \<in> set is then Some v else get t j))"
proof (induction "is" arbitrary: t)
  case (Cons i "is")
  then obtain t1 where t1: "put t i v = Some t1"
    using put_defined [of t i v] by auto
  from Cons.IH [of t1] Cons.prems obtain t' where
    "put_all t1 is v = Some t'" "\<forall>j. get t' j = (if j \<in> set is then Some v else get t1 j)"
    by auto
  with t1 show ?case
    using get_put_same [OF t1] get_put_other [OF t1] by auto
qed simp

text \<open>A run over a list that fails has met an invalid index.\<close>

lemma put_all_invalid: "put_all t is v = None \<longleftrightarrow> (\<exists>i \<in> set is. \<not> valid i)"
proof (induction "is" arbitrary: t)
  case (Cons i "is")
  then show ?case
    using put_defined [of t i v] by (auto split: option.splits)
qed simp

end

subsection \<open>Indices in range\<close>

definition stripe_valid :: "i32 \<Rightarrow> bool" where
  "stripe_valid i \<longleftrightarrow> unat i < UBI_MAX_STRIPES"

lemma sint_i32: "sint (i :: i32) = (if unat i < 2 ^ 31 then int (unat i) else int (unat i) - 2 ^ 32)"
proof -
  have b: "uint i < 2 ^ 32" "0 \<le> uint i"
    using uint_lt2p [of i] by simp_all
  have "bit (uint i) 31 \<longleftrightarrow> \<not> uint i < 2 ^ 31"
  proof -
    have "uint i div 2 ^ 31 = (if uint i < 2 ^ 31 then 0 else 1)"
      using b int_div_pos_eq [of "uint i" "2 ^ 31" 1 "uint i - 2 ^ 31"] by auto
    then show ?thesis by (simp add: bit_iff_odd)
  qed
  moreover have "sint i = take_bit 32 (uint i) - 2 ^ 32 * of_bool (bit (uint i) 31)"
    by (simp add: sint_uint signed_take_bit_eq_take_bit_minus)
  moreover have "take_bit 32 (uint i) = uint i"
    using b by (simp add: take_bit_int_eq_self)
  ultimately show ?thesis
    by (simp add: uint_nat del: of_nat_unat)
qed
lemma stripe_ix_eq: "stripe_ix i = (if unat i < 2 ^ 31 then Some (unat i) else None)"
  using uint_lt2p [of i] by (auto simp: stripe_ix_def sint_i32)

lemma ubi_get_stripe_status_eq:
  "ubi_get_stripe_status u i = (if stripe_valid i then Some (stripe_status u (unat i)) else None)"
  by (simp add: ubi_get_stripe_status_def stripe_ix_eq arr_get_def stripe_valid_def)

text \<open>The bdev after a status update that is in range.\<close>

definition put_status :: "nat \<Rightarrow> stripe_status \<Rightarrow> ubi_bdev \<Rightarrow> ubi_bdev" where
  "put_status i v u =
     (let u = u\<lparr>stripe_status := (stripe_status u)(i := v)\<rparr> in
      if v = STRIPE_FETCHED
      then u\<lparr>metadata := (metadata u)\<lparr>stripe_headers := (stripe_headers (metadata u))
             (i := (stripe_headers (metadata u) i)(0 := 1))\<rparr>\<rparr>
      else u)"

lemma ubi_set_stripe_status_eq:
  "ubi_set_stripe_status u i v = (if stripe_valid i then Some (put_status (unat i) v u) else None)"
  by (simp add: ubi_set_stripe_status_def stripe_ix_eq arr_set_def stripe_valid_def put_status_def Let_def)

lemma put_status_frame [simp]:
  "bdev (put_status i v u) = bdev u"
  "base_bdev_info (put_status i v u) = base_bdev_info u"
  "image_path (put_status i v u) = image_path u"
  "stripe_size_kb (put_status i v u) = stripe_size_kb u"
  "stripe_block_count (put_status i v u) = stripe_block_count u"
  "stripe_shift (put_status i v u) = stripe_shift u"
  "data_offset_blocks (put_status i v u) = data_offset_blocks u"
  "image_block_count (put_status i v u) = image_block_count u"
  "alignment_bytes (put_status i v u) = alignment_bytes u"
  "no_sync (put_status i v u) = no_sync u"
  "copy_on_read (put_status i v u) = copy_on_read u"
  "directio (put_status i v u) = directio u"
  "stripes_fetched (put_status i v u) = stripes_fetched u"
  "stripes_flushed (put_status i v u) = stripes_flushed u"
  "bdev_thread (put_status i v u) = bdev_thread u"
  by (simp_all add: put_status_def Let_def)

lemma put_status_status [simp]: "stripe_status (put_status i v u) = (stripe_status u)(i := v)"
  by (simp add: put_status_def Let_def)

interpretation st: status_table ubi_get_stripe_status ubi_set_stripe_status stripe_valid
  by unfold_locales
    (auto simp: ubi_get_stripe_status_eq ubi_set_stripe_status_eq word_unat_eq_iff split: if_splits)

lemmas stripe_status_eqs [status_simps] = ubi_get_stripe_status_eq ubi_set_stripe_status_eq stripe_valid_def

text \<open>What a status update does to the sets of stripes in each status and of set headers.\<close>

definition inflight_set :: "ubi_bdev \<Rightarrow> nat set" where
  "inflight_set u = {i. i < UBI_MAX_STRIPES \<and> stripe_status u i = STRIPE_INFLIGHT}"

lemma put_status_sets:
  assumes "i < UBI_MAX_STRIPES"
  shows "fetched_set (put_status i v u) =
      (if v = STRIPE_FETCHED then insert i (fetched_set u) else fetched_set u - {i})"
    and "inflight_set (put_status i v u) =
      (if v = STRIPE_INFLIGHT then insert i (inflight_set u) else inflight_set u - {i})"
    and "header_set (metadata (put_status i v u)) =
      (if v = STRIPE_FETCHED then insert i (header_set (metadata u)) else header_set (metadata u))"
  using assms
  by (auto simp: put_status_def fetched_set_def inflight_set_def header_set_def Let_def
      split: if_splits)

subsection \<open>The bounce buffer\<close>

lemma unat_and_4095: "unat ((x :: u64) AND 4095) = unat x mod 4096"
proof -
  have "x AND 4095 = take_bit 12 x"
    by (simp add: take_bit_eq_mask mask_eq_exp_minus_1)
  then show ?thesis
    by (simp only: unsigned_take_bit_eq) (simp add: take_bit_eq_mod)
qed

lemma align_buf_4096:
  assumes room: "unat addr + 8192 < 2 ^ 64"
  shows "unat (align_buf addr 4096) mod 4096 = 0"
    and "unat addr \<le> unat (align_buf addr 4096)"
    and "unat (align_buf addr 4096) < unat addr + 4096"
proof -
  define r where "r = unat addr mod 4096"
  have r: "unat (addr AND 4095) = r" "r < 4096"
    by (simp_all add: r_def unat_and_4095)
  define off where "off = (if r = 0 then 0 else 4096 - r)"
  have "unat (align_buf addr 4096) = unat addr + off"
  proof (cases "r = 0")
    case True
    with r(1) have "addr AND 4095 = 0" by (simp add: word_unat_eq_iff)
    with True show ?thesis by (simp add: align_buf_def off_def)
  next
    case False
    with r(1) have ne: "addr AND 4095 \<noteq> 0" by auto
    have "unat ((4096 :: u64) - (addr AND 4095)) = 4096 - r"
      using r by (subst unat_sub) (simp_all add: word_le_nat_alt)
    then have "unat (ucast (ucast ((4096 :: u64) - (addr AND 4095)) :: u32) :: u64) = 4096 - r"
      by (simp add: unat_ucast_small)
    with ne False room r show ?thesis
      by (simp add: align_buf_def off_def unat_word_ariths)
  qed
  moreover obtain q where q: "unat addr = 4096 * q + r"
    unfolding r_def by (metis mult_div_mod_eq)
  then have "(unat addr + off) mod 4096 = 0"
    using r(2) by (simp add: off_def)
  ultimately show "unat (align_buf addr 4096) mod 4096 = 0"
    and "unat addr \<le> unat (align_buf addr 4096)"
    and "unat (align_buf addr 4096) < unat addr + 4096"
    using r(2) by (simp_all add: off_def)
qed

subsection \<open>Properties\<close>

lemma geometry_kb: "geometry_ok u \<Longrightarrow> 64 \<le> unat (stripe_size_kb u) \<and> unat (stripe_size_kb u) \<le> 1024"
  by (simp add: geometry_ok_def Let_def)

lemma unat_kb_bytes:
  assumes "unat (stripe_size_kb u) \<le> 1024"
  shows "unat (ucast (stripe_size_kb u) * 1024 :: u64) = unat (stripe_size_kb u) * 1024"
  using assms by (simp add: unat_word_ariths)

lemma unat_stripe_nbytes:
  assumes "unat (stripe_size_kb u) \<le> 1024"
  shows "unat (stripe_nbytes u) = unat (stripe_size_kb u) * 1024"
  using assms unat_kb_bytes [OF assms] by (simp add: stripe_nbytes_def unat_ucast_small)

lemma unat_stripe_offset:
  assumes "unat (stripe_size_kb u) \<le> 1024" "unat idx \<le> UBI_MAX_STRIPES"
  shows "unat (stripe_offset u idx) = unat idx * (unat (stripe_size_kb u) * 1024)"
proof -
  have "unat (stripe_size_kb u) * 1024 * unat idx \<le> 1048576 * 2097152"
    using assms by (intro mult_le_mono) simp_all
  then show ?thesis
    using unat_kb_bytes [OF assms(1)]
    by (simp add: stripe_offset_def unat_mult_lem [THEN iffD1] mult.commute)
qed

text \<open>
  C25: the read of a stripe stays inside the slot's bounce buffer.  With the alignment of 4096
  bytes the module sets, the address handed to io\_uring is a multiple of 4096, and it and the
  bytes of a whole stripe behind it lie inside the \<^verbatim>\<open>1024 * UBI_STRIPE_SIZE_MAX + 8192\<close> bytes of
  \<^verbatim>\<open>buf\<close>, for every legal stripe size.
\<close>

theorem bounce_buffer_in_bounds:
  assumes "geometry_ok u" and "unat addr + (1024 * 1024 + 8192) \<le> 2 ^ 64"
  shows "4096 dvd unat (align_buf addr 4096) \<and> unat addr \<le> unat (align_buf addr 4096) \<and>
     unat (align_buf addr 4096) + unat (stripe_nbytes u) \<le> unat addr + (1024 * 1024 + 8192)"
proof -
  have "unat addr + 8192 < 2 ^ 64" using assms(2) by simp
  note al = align_buf_4096 [OF this]
  have "unat (stripe_nbytes u) \<le> 1024 * 1024"
    using geometry_kb [OF assms(1)] by (simp add: unat_stripe_nbytes)
  with al show ?thesis by (auto simp: dvd_eq_mod_eq_0)
qed

theorem bounce_buffer_in_bounds_witness:
  "4096 dvd unat (align_buf 4660 4096) \<and> 4660 \<le> unat (align_buf 4660 4096) \<and>
     unat (align_buf 4660 4096) + unat (stripe_nbytes demo_ubi) \<le> 4660 + (1024 * 1024 + 8192)"
  using bounce_buffer_in_bounds [OF demo_ubi_geometry, of 4660] by simp

lemma stripe_extent_eq:
  assumes "geometry_ok u" and "unat idx < UBI_MAX_STRIPES"
  shows "let bl = unat (blocklen (base_bdev (base_bdev_info u)));
             n = unat (stripe_block_count u)
         in unat (stripe_offset u idx) = unat idx * n * bl \<and> unat (stripe_nbytes u) = n * bl \<and>
            unat (stripe_offset u idx + UBI_METADATA_SIZE) = (unat (data_offset_blocks u) + unat idx * n) * bl"
proof -
  note kb = geometry_kb [OF assms(1), THEN conjunct2]
  let ?bl = "unat (blocklen (base_bdev (base_bdev_info u)))" and ?n = "unat (stripe_block_count u)"
  have g: "?n * ?bl = unat (stripe_size_kb u) * 1024" "unat (data_offset_blocks u) * ?bl = 8388608"
    using assms(1) unfolding geometry_ok_def Let_def by blast+
  have off: "unat (stripe_offset u idx) = unat idx * (?n * ?bl)"
    using unat_stripe_offset [OF kb] assms(2) g(1) by simp
  moreover have "unat idx * (?n * ?bl) \<le> 2097152 * 1048576"
    using assms(2) kb g(1) by (intro mult_le_mono) simp_all
  ultimately have "unat (stripe_offset u idx + 8388608) = unat (stripe_offset u idx) + 8388608"
    by (simp add: unat_word_ariths)
  with off g show ?thesis
    using unat_stripe_nbytes [OF kb] by (simp add: Let_def add_mult_distrib mult.assoc)
qed

text \<open>
  A stripe is copied to its own place.  For a sound geometry the offset in the image is
  the stripe index times the stripe size, and the write to the base bdev starts exactly at the
  first block of that stripe behind the metadata and covers exactly its blocks; no
  multiplication wraps.
\<close>

theorem stripe_extent:
  assumes "geometry_ok u" and "unat idx < UBI_MAX_STRIPES"
  shows "let bl = unat (blocklen (base_bdev (base_bdev_info u)));
             n = unat (stripe_block_count u)
         in unat (stripe_offset u idx) = unat idx * n * bl \<and> unat (stripe_nbytes u) = n * bl \<and>
            unat (stripe_offset u idx + UBI_METADATA_SIZE) = (unat (data_offset_blocks u) + unat idx * n) * bl"
  by (rule stripe_extent_eq [OF assms])

theorem stripe_extent_witness:
  "unat (stripe_offset demo_ubi 3) = 3 * 128 * 512 \<and> unat (stripe_nbytes demo_ubi) = 128 * 512 \<and>
   unat (stripe_offset demo_ubi 3 + UBI_METADATA_SIZE) = (16384 + 3 * 128) * 512"
  using stripe_extent [OF demo_ubi_geometry, of 3]
  by (simp add: demo_simps)

text \<open>
  C29: \<^verbatim>\<open>write_stripe_io_completion\<close> does not look at its \<^verbatim>\<open>success\<close> argument: when the base
  bdev reports that the write of a stripe failed, the stripe is marked as fetched all the
  same, its header is set and it is counted, so that later reads are served from blocks that
  were never written.
\<close>

theorem failed_stripe_write_counts_as_fetched:
  assumes "k < length (stripe_fetches (ch s))" and "unat (stripe_idx (stripe_fetches (ch s) ! k)) < UBI_MAX_STRIPES"
  shows "\<exists>s'. write_stripe_io_completion k False s = Some s' \<and>
     (let i = unat (stripe_idx (stripe_fetches (ch s) ! k)) in
      stripe_status (ub s') i = STRIPE_FETCHED \<and> stripe_headers (metadata (ub s')) i 0 = 1 \<and>
      stripes_fetched (ub s') = stripes_fetched (ub s) + 1 \<and> \<not> active (stripe_fetches (ch s') ! k))"
  using assms
  by (simp add: write_stripe_io_completion_def ubi_set_stripe_status_eq stripe_valid_def put_status_def Let_def)

text \<open>A channel whose slot 0 fetches stripe 3.\<close>

definition demo_fetching :: ubi_state where
  "demo_fetching = \<lparr>ub = demo_ubi\<lparr>stripe_status := (\<lambda>_. STRIPE_NOT_FETCHED)(3 := STRIPE_INFLIGHT)\<rparr>,
     ch = \<lparr>poller = True, base_channel = True, blocks_read = 0, blocks_written = 0,
           ch_stripes_fetched = 1, active_reads = 0,
           stripe_fetches = \<lparr>op_type = UBI_STRIPE_FETCH, active = True, stripe_idx = 3, buf = 4660, buf_aligned = 8192\<rparr> #
             replicate 7 \<lparr>op_type = UBI_BDEV_IO, active = False, stripe_idx = 0, buf = 0, buf_aligned = 0\<rparr>,
           stripe_fetch_queue = empty_queue, image_file_fd = 5, has_reads = 0, ch_io = []\<rparr>,
     driver_ctx = \<lambda>_. \<lparr>io_op_type = UBI_BDEV_IO, block_offset = 0, block_count = 0, io_stripes_fetched = 0\<rparr>,
     sq = [], inflight = [], base_reqs = [], buf_wait = [], completed = [], clock = 0\<rparr>"

theorem failed_stripe_write_counts_as_fetched_witness:
  "\<exists>s'. write_stripe_io_completion 0 False demo_fetching = Some s' \<and>
     stripe_status (ub s') 3 = STRIPE_FETCHED \<and> stripe_headers (metadata (ub s')) 3 0 = 1 \<and>
     stripes_fetched (ub s') = stripes_fetched (ub demo_fetching) + 1 \<and> \<not> active (stripe_fetches (ch s') ! 0)"
proof -
  have "unat (stripe_idx (stripe_fetches (ch demo_fetching) ! 0)) = 3" "0 < length (stripe_fetches (ch demo_fetching))"
    by (simp_all add: demo_fetching_def)
  with failed_stripe_write_counts_as_fetched [of 0 demo_fetching] show ?thesis
    by (simp add: Let_def)
qed

end
