(* ===== verification/Ubi_Flush.thy ===== *)
theory Ubi_Flush
  imports Ubi_Stripe
begin

section \<open>Flush requests (\<^verbatim>\<open>bdev_ubi_flush.c\<close>)\<close>

text \<open>
  A flush first flushes the data range on the base bdev; if stripes were fetched since the
  last metadata flush it then writes and flushes the metadata.  One definition per function,
  each called back by the base bdev when the previous stage is done.
\<close>

abbreviation upd_ctx :: "bdev_io \<Rightarrow> (ubi_bdev_io \<Rightarrow> ubi_bdev_io) \<Rightarrow> ubi_state \<Rightarrow> ubi_state" where
  "upd_ctx b f s \<equiv> s\<lparr>driver_ctx := (driver_ctx s)(io_id b := f (driver_ctx s (io_id b)))\<rparr>"

definition ubi_submit_flush_request :: "ext_oracle \<Rightarrow> bdev_io \<Rightarrow> ubi_state \<Rightarrow> ubi_state" where
  "ubi_submit_flush_request env b s =
     (if no_sync (ub s) then spdk_bdev_io_complete b True s
      else
        (let ubi_io = driver_ctx s (io_id b);
             start_block = block_offset ubi_io + ucast (data_offset_blocks (ub s));
             (ret, s) = base_submit env (Req_data_flush b start_block (block_count ubi_io)) s
         in if ret \<noteq> 0 then spdk_bdev_io_complete b False s else s))"

text \<open>A division by a zero block length is undefined.\<close>

definition md_blocks :: "ubi_bdev \<Rightarrow> u32 option" where
  "md_blocks u = (if blocklen (bdev u) = 0 then None
                  else Some (UBI_METADATA_SIZE div blocklen (bdev u)))"

definition ubi_data_flush_completion ::
    "ext_oracle \<Rightarrow> bdev_io \<Rightarrow> bool \<Rightarrow> ubi_state \<Rightarrow> ubi_state option" where
  "ubi_data_flush_completion env b success s =
     (if \<not> success then Some s
      else if stripes_fetched (ub s) = stripes_flushed (ub s)
      then Some (spdk_bdev_io_complete b True s)
      else do {
        num_blocks \<leftarrow> md_blocks (ub s);
        let s = upd_ctx b (\<lambda>ubi_io. ubi_io\<lparr>io_stripes_fetched := stripes_fetched (ub s)\<rparr>) s;
        let (ret, s) = base_submit env (Req_md_write b (metadata (ub s)) 0 num_blocks) s;
        Some (if ret \<noteq> 0 then spdk_bdev_io_complete b False s else s)
      })"

definition ubi_metadata_write_completion ::
    "ext_oracle \<Rightarrow> bdev_io \<Rightarrow> bool \<Rightarrow> ubi_state \<Rightarrow> ubi_state option" where
  "ubi_metadata_write_completion env b success s =
     (if \<not> success then Some (spdk_bdev_io_complete b False s)
      else do {
        num_blocks \<leftarrow> md_blocks (ub s);
        let (ret, s) = base_submit env (Req_md_flush b 0 num_blocks) s;
        Some (if ret \<noteq> 0 then spdk_bdev_io_complete b False s else s)
      })"

definition ubi_metadata_flush_completion :: "bdev_io \<Rightarrow> bool \<Rightarrow> ubi_state \<Rightarrow> ubi_state" where
  "ubi_metadata_flush_completion b success s =
     (if \<not> success then spdk_bdev_io_complete b False s
      else
        (let ubi_io = driver_ctx s (io_id b);
             s = (if io_stripes_fetched ubi_io > stripes_flushed (ub s)
                  then s\<lparr>ub := (ub s)\<lparr>stripes_flushed := io_stripes_fetched ubi_io\<rparr>\<rparr>
                  else s)
         in spdk_bdev_io_complete b True s))"

end
