(* ===== verification/Ubi_IO.thy ===== *)
theory Ubi_IO
  imports Ubi_Flush
begin

section \<open>Requests and the poller (\<^verbatim>\<open>bdev_ubi.c\<close>, \<^verbatim>\<open>bdev_ubi_io_channel.c\<close>)\<close>

text \<open>
  \<^verbatim>\<open>ubi_submit_request\<close> queues a request and, where its stripe must be fetched, the stripe;
  \<^verbatim>\<open>ubi_io_poll\<close> reaps image reads, starts stripe fetches and serves requests.  The
  callbacks a client runs when its request completes are taken to run after the handler
  that completed it.
\<close>

subsection \<open>Submitting a request\<close>

definition ubi_io_type_supported :: "spdk_bdev_io_type \<Rightarrow> bool" where
  "ubi_io_type_supported t = (case t of IO_READ \<Rightarrow> True | IO_WRITE \<Rightarrow> True | IO_FLUSH \<Rightarrow> True | _ \<Rightarrow> False)"

definition block_stripe :: "ubi_bdev \<Rightarrow> u64 \<Rightarrow> u64" where
  "block_stripe u block = drop_bit (unat (stripe_shift u)) block"

definition insert_io :: "bdev_io \<Rightarrow> ubi_state \<Rightarrow> ubi_state" where
  "insert_io b s = s\<lparr>ch := (ch s)\<lparr>ch_io := ch_io (ch s) @ [b]\<rparr>\<rparr>"

definition ubi_submit_request :: "bdev_io \<Rightarrow> ubi_state \<Rightarrow> ubi_state option" where
  "ubi_submit_request b s =
     (if io_type b = IO_WRITE \<or> (io_type b = IO_READ \<and> copy_on_read (ub s)) then
        (let start_block = offset_blocks b;
             end_block = start_block + num_blocks b - 1;
             start_stripe = block_stripe (ub s) start_block;
             end_stripe = block_stripe (ub s) end_block
         in
         if start_stripe \<noteq> end_stripe then Some (spdk_bdev_io_complete b False s)
         else if start_block < image_block_count (ub s) then do {
           status \<leftarrow> ubi_get_stripe_status (ub s) (ucast start_stripe);
           if status = STRIPE_NOT_FETCHED then do {
             q \<leftarrow> enqueue_stripe (stripe_fetch_queue (ch s)) (ucast start_stripe);
             u \<leftarrow> ubi_set_stripe_status (ub s) (ucast start_stripe) STRIPE_INFLIGHT;
             Some (insert_io b (s\<lparr>ub := u, ch := (ch s)\<lparr>stripe_fetch_queue := q\<rparr>\<rparr>))
           } else Some (insert_io b s)
         } else Some (insert_io b s))
      else Some (insert_io b s))"

subsection \<open>Completing a request\<close>

definition ubi_complete_io :: "bdev_io \<Rightarrow> bool \<Rightarrow> ubi_state \<Rightarrow> ubi_state" where
  "ubi_complete_io b success s =
     spdk_bdev_io_complete b success
       (if io_type b = IO_READ
        then s\<lparr>ch := (ch s)\<lparr>active_reads := active_reads (ch s) - 1\<rparr>\<rparr> else s)"

definition ubi_io_completion_cb :: "bdev_io \<Rightarrow> bool \<Rightarrow> ubi_state \<Rightarrow> ubi_state" where
  "ubi_io_completion_cb b success s = ubi_complete_io b success s"

definition ubi_complete_read_from_image :: "bdev_io \<Rightarrow> int \<Rightarrow> ubi_state \<Rightarrow> int \<times> ubi_state" where
  "ubi_complete_read_from_image b res s =
     (if res < 0 then (- 1, ubi_complete_io b False s) else (1, ubi_complete_io b True s))"

subsection \<open>Reads and writes on the base bdev\<close>

definition ubi_submit_read_request :: "ext_oracle \<Rightarrow> bdev_io \<Rightarrow> ubi_state \<Rightarrow> int \<times> ubi_state" where
  "ubi_submit_read_request env b s =
     (let start_block = offset_blocks b + ucast (data_offset_blocks (ub s))
      in base_submit env (Req_readv b start_block (num_blocks b)) s)"

definition ubi_submit_write_request :: "ext_oracle \<Rightarrow> bdev_io \<Rightarrow> ubi_state \<Rightarrow> int \<times> ubi_state" where
  "ubi_submit_write_request env b s =
     (let start_block = offset_blocks b + ucast (data_offset_blocks (ub s))
      in base_submit env (Req_writev b start_block (num_blocks b)) s)"

definition get_buf_for_read_cb ::
    "ext_oracle \<Rightarrow> bdev_io \<Rightarrow> bool \<Rightarrow> ubi_state \<Rightarrow> ubi_state option" where
  "get_buf_for_read_cb env b success s =
     (if \<not> success then Some (ubi_complete_io b False s)
      else do {
        let start_block = offset_blocks b;
        status \<leftarrow> ubi_get_stripe_status (ub s) (ucast (block_stripe (ub s) start_block));
        if status = STRIPE_FETCHED \<or> start_block \<ge> image_block_count (ub s) then do {
          let (ret, s) = ubi_submit_read_request env b s;
          Some (if ret \<noteq> 0 then ubi_complete_io b False s else s)
        } else do {
          let got_sqe = o_get_sqe env (clock s) (length (sq s));
          let s = tick s;
          if \<not> got_sqe then Some (ubi_complete_io b False s)
          else do {
            let offset = start_block * ucast (blocklen (bdev (ub s)));
            Some (s\<lparr>sq := sq s @ [Sqe_readv b offset],
                    ch := (ch s)\<lparr>has_reads := has_reads (ch s) + 1\<rparr>\<rparr>)
          }
        }
      })"

subsection \<open>Reaping image reads\<close>

text \<open>
  \<^verbatim>\<open>io_uring_peek_batch_cqe\<close> gives an error code or a batch of completions, each the entry
  that completed and its result.  The pointer stored with the entry is dispatched on the
  \<^verbatim>\<open>op.type\<close> it points to; the wrong type would be a cast to the wrong structure.
\<close>

fun ubi_complete_cqes ::
    "ext_oracle \<Rightarrow> (sqe \<times> int) list \<Rightarrow> int \<Rightarrow> ubi_state \<Rightarrow> (int \<times> ubi_state) option" where
  "ubi_complete_cqes env [] ret s = Some (ret, s)"
| "ubi_complete_cqes env ((e, res) # cqes) ret s =
     (let s = s\<lparr>inflight := remove1 e (inflight s)\<rparr> in
      case e of
        Sqe_read k _ _ _ \<Rightarrow> do {
          sf \<leftarrow> nth_opt (stripe_fetches (ch s)) k;
          if op_type sf \<noteq> UBI_STRIPE_FETCH then None
          else do {
            (ret, s) \<leftarrow> ubi_complete_fetch_stripe env k res s;
            ubi_complete_cqes env cqes ret s
          }
        }
      | Sqe_readv b _ \<Rightarrow>
          if io_op_type (driver_ctx s (io_id b)) \<noteq> UBI_BDEV_IO then None
          else do {
            let (ret, s) = ubi_complete_read_from_image b res s;
            ubi_complete_cqes env cqes ret s
          })"

definition ubi_complete_image_io ::
    "ext_oracle \<Rightarrow> int + (sqe \<times> int) list \<Rightarrow> ubi_state \<Rightarrow> (int \<times> ubi_state) option" where
  "ubi_complete_image_io env batch s =
     (case batch of
        Inl err \<Rightarrow> if err = - EAGAIN then Some (0, s) else Some (- 1, s)
      | Inr cqes \<Rightarrow> ubi_complete_cqes env cqes 0 s)"

subsection \<open>Starting stripe fetches\<close>

definition free_stripe_fetches :: "stripe_fetch list \<Rightarrow> nat list" where
  "free_stripe_fetches sfs = filter (\<lambda>i. \<not> active (sfs ! i)) [0..<length sfs]"

fun start_fetches :: "ext_oracle \<Rightarrow> nat list \<Rightarrow> ubi_state \<Rightarrow> ubi_state option" where
  "start_fetches env [] s = Some s"
| "start_fetches env (k # ks) s =
     (if head (stripe_fetch_queue (ch s)) = tail (stripe_fetch_queue (ch s)) then Some s
      else do {
        (idx, q) \<leftarrow> dequeue_stripe (stripe_fetch_queue (ch s));
        let s = s\<lparr>ch := (ch s)\<lparr>stripe_fetch_queue := q\<rparr>\<rparr>;
        let s = upd_fetch k (\<lambda>sf. sf\<lparr>stripe_idx := idx, active := True, op_type := UBI_STRIPE_FETCH\<rparr>) s;
        s \<leftarrow> ubi_start_fetch_stripe env k s;
        let s = s\<lparr>ch := (ch s)\<lparr>ch_stripes_fetched := ch_stripes_fetched (ch s) + 1\<rparr>\<rparr>;
        start_fetches env ks s
      })"

subsection \<open>Serving requests\<close>

text \<open>
  What the poller decides about the request at the head of the queue: serve it, leave it and
  stop, fail it because its stripe could not be fetched, or fail it in the branch the code
  calls a programming error.
\<close>

datatype io_decision = Io_serve | Io_wait | Io_stripe_failed | Io_bug

definition io_verdict :: "ubi_bdev \<Rightarrow> bdev_io \<Rightarrow> io_decision option" where
  "io_verdict u b =
     (if io_type b \<noteq> IO_FLUSH \<and> offset_blocks b < image_block_count u then do {
        status \<leftarrow> ubi_get_stripe_status u (ucast (block_stripe u (offset_blocks b)));
        Some (if status = STRIPE_FAILED then Io_stripe_failed
              else if status = STRIPE_INFLIGHT then Io_wait
              else if status = STRIPE_NOT_FETCHED \<and> (io_type b \<noteq> IO_READ \<or> copy_on_read u) then Io_bug
              else Io_serve)
      } else Some Io_serve)"

definition ubi_dispatch_io :: "ext_oracle \<Rightarrow> bdev_io \<Rightarrow> ubi_state \<Rightarrow> ubi_state option" where
  "ubi_dispatch_io env b s =
     (let s = upd_ctx b (\<lambda>ubi_io. ubi_io\<lparr>block_offset := offset_blocks b, block_count := num_blocks b,
                                      io_op_type := UBI_BDEV_IO\<rparr>) s
      in case io_type b of
        IO_READ \<Rightarrow>
          (let s = s\<lparr>ch := (ch s)\<lparr>active_reads := active_reads (ch s) + 1,
                               blocks_read := blocks_read (ch s) + num_blocks b\<rparr>\<rparr>
           in case o_buf env (clock s) of
                None \<Rightarrow> Some (tick (s\<lparr>buf_wait := buf_wait s @ [b]\<rparr>))
              | Some success \<Rightarrow> get_buf_for_read_cb env b success (tick s))
      | IO_WRITE \<Rightarrow>
          Some (snd (ubi_submit_write_request env b
                  (s\<lparr>ch := (ch s)\<lparr>blocks_written := blocks_written (ch s) + num_blocks b\<rparr>\<rparr>)))
      | IO_FLUSH \<Rightarrow> Some (ubi_submit_flush_request env b s)
      | _ \<Rightarrow> Some (spdk_bdev_io_complete b False s))"

text \<open>The loop over the queue of requests; its first argument is the queue.\<close>

fun serve_ios :: "ext_oracle \<Rightarrow> bdev_io list \<Rightarrow> ubi_state \<Rightarrow> ubi_state option" where
  "serve_ios env [] s = Some s"
| "serve_ios env (b # bs) s =
     (if io_type b = IO_READ \<and> active_reads (ch s) \<ge> UBI_MAX_CONCURRENT_READS then Some s
      else do {
        verdict \<leftarrow> io_verdict (ub s) b;
        let s' = s\<lparr>ch := (ch s)\<lparr>ch_io := bs\<rparr>\<rparr>;
        case verdict of
          Io_wait \<Rightarrow> Some s
        | Io_serve \<Rightarrow> do { s' \<leftarrow> ubi_dispatch_io env b s'; serve_ios env bs s' }
        | _ \<Rightarrow> serve_ios env bs (spdk_bdev_io_complete b False s')
      })"

subsection \<open>The poller\<close>

datatype poller_status = SPDK_POLLER_IDLE | SPDK_POLLER_BUSY

definition submit_image_reads :: "ext_oracle \<Rightarrow> ubi_state \<Rightarrow> ubi_state" where
  "submit_image_reads env s =
     (if has_reads (ch s) \<noteq> 0 then
        (let (ret, s) = io_uring_submit env s
         in if ret < 0 then s else s\<lparr>ch := (ch s)\<lparr>has_reads := 0\<rparr>\<rparr>)
      else s)"

definition ubi_io_poll ::
    "ext_oracle \<Rightarrow> int + (sqe \<times> int) list \<Rightarrow> ubi_state \<Rightarrow> (poller_status \<times> ubi_state) option" where
  "ubi_io_poll env batch s = do {
     let queues_empty = (ch_io (ch s) = [] \<and> stripe_queue_empty (stripe_fetch_queue (ch s)));
     (image_ios_completed, s) \<leftarrow> ubi_complete_image_io env batch s;
     if queues_empty \<and> image_ios_completed < 1 then Some (SPDK_POLLER_IDLE, s)
     else if queues_empty then Some (SPDK_POLLER_BUSY, s)
     else do {
       s \<leftarrow> start_fetches env (free_stripe_fetches (stripe_fetches (ch s))) s;
       s \<leftarrow> serve_ios env (ch_io (ch s)) s;
       Some (SPDK_POLLER_BUSY, submit_image_reads env s)
     }
   }"

end
