(* ===== verification/Ubi_System.thy ===== *)
theory Ubi_System
  imports Ubi_IO
begin

section \<open>The I/O path as a transition system\<close>

text \<open>
  A channel reacts to four kinds of events: a client submits a request, SPDK runs the poller,
  SPDK hands over a read buffer that was not available at once, and the base bdev completes a
  request.  An event is enabled only when the documented interfaces allow it: a completion
  belongs to a request that is outstanding, and a request obeys the limits the bdev layer
  enforces.
\<close>

subsection \<open>Events\<close>

datatype ubi_event =
    Ev_submit bdev_io
  | Ev_poll ext_oracle "int + (sqe \<times> int) list"
  | Ev_buf ext_oracle bdev_io bool
  | Ev_base ext_oracle base_req bool

text \<open>The callback of a request to the base bdev.\<close>

definition base_completion ::
    "ext_oracle \<Rightarrow> base_req \<Rightarrow> bool \<Rightarrow> ubi_state \<Rightarrow> ubi_state option" where
  "base_completion env r success s =
     (case r of
        Req_readv b _ _ \<Rightarrow> Some (ubi_io_completion_cb b success s)
      | Req_writev b _ _ \<Rightarrow> Some (ubi_io_completion_cb b success s)
      | Req_write_stripe k _ _ _ \<Rightarrow> write_stripe_io_completion k success s
      | Req_data_flush b _ _ \<Rightarrow> ubi_data_flush_completion env b success s
      | Req_md_write b _ _ _ \<Rightarrow> ubi_metadata_write_completion env b success s
      | Req_md_flush b _ _ \<Rightarrow> Some (ubi_metadata_flush_completion b success s))"

fun ev_exec :: "ubi_event \<Rightarrow> ubi_state \<Rightarrow> ubi_state option" where
  "ev_exec (Ev_submit b) s = ubi_submit_request b s"
| "ev_exec (Ev_poll env batch) s = map_option snd (ubi_io_poll env batch s)"
| "ev_exec (Ev_buf env b success) s =
     get_buf_for_read_cb env b success (s\<lparr>buf_wait := remove1 b (buf_wait s)\<rparr>)"
| "ev_exec (Ev_base env r success) s =
     base_completion env r success (s\<lparr>base_reqs := remove1 r (base_reqs s)\<rparr>)"

text \<open>
  The limits the bdev layer enforces before it calls \<^verbatim>\<open>ubi_submit_request\<close>: a supported
  type, a non-empty range inside the device and, because the module sets
  \<^verbatim>\<open>split_on_optimal_io_boundary\<close>, a read or write inside one stripe.
\<close>

definition io_ok :: "ubi_bdev \<Rightarrow> bdev_io \<Rightarrow> bool" where
  "io_ok u b \<longleftrightarrow>
     ubi_io_type_supported (io_type b) \<and> num_blocks b \<noteq> 0 \<and>
     unat (offset_blocks b) + unat (num_blocks b) \<le> unat (blockcnt (bdev u)) \<and>
     (io_type b \<noteq> IO_FLUSH \<longrightarrow>
        block_stripe u (offset_blocks b) = block_stripe u (offset_blocks b + num_blocks b - 1))"

fun ev_enabled :: "ubi_event \<Rightarrow> ubi_state \<Rightarrow> bool" where
  "ev_enabled (Ev_submit b) s \<longleftrightarrow> io_ok (ub s) b"
| "ev_enabled (Ev_poll env batch) s \<longleftrightarrow>
     (case batch of Inl err \<Rightarrow> err < 0
      | Inr cqes \<Rightarrow> length cqes \<le> 64 \<and> mset (map fst cqes) \<subseteq># mset (inflight s))"
| "ev_enabled (Ev_buf env b success) s \<longleftrightarrow> b \<in> set (buf_wait s)"
| "ev_enabled (Ev_base env r success) s \<longleftrightarrow> r \<in> set (base_reqs s)"

text \<open>
  What is documented of io\_uring: \<^verbatim>\<open>io_uring_get_sqe\<close> finds an entry while fewer than
  \<^const>\<open>UBI_URING_QUEUE_SIZE\<close> wait to be submitted, and \<^verbatim>\<open>io_uring_submit\<close> may fail.  \<open>submits\<close> says that
  it does not.
\<close>

definition uring_doc :: "ext_oracle \<Rightarrow> bool" where
  "uring_doc env \<longleftrightarrow> (\<forall>t n. n < UBI_URING_QUEUE_SIZE \<longrightarrow> o_get_sqe env t n)"

definition submits :: "ext_oracle \<Rightarrow> bool" where
  "submits env \<longleftrightarrow> (\<forall>t n. 0 \<le> o_submit env t n)"

definition uring_ok :: "ext_oracle \<Rightarrow> bool" where
  "uring_ok env \<longleftrightarrow>
     (\<forall>t n. n < UBI_URING_QUEUE_SIZE \<longrightarrow> o_get_sqe env t n) \<and> (\<forall>t n. 0 \<le> o_submit env t n)"

lemma uring_ok_iff: "uring_ok env \<longleftrightarrow> uring_doc env \<and> submits env"
  by (simp add: uring_ok_def uring_doc_def submits_def)

fun ev_oracle :: "ubi_event \<Rightarrow> ext_oracle option" where
  "ev_oracle (Ev_submit b) = None"
| "ev_oracle (Ev_poll env batch) = Some env"
| "ev_oracle (Ev_buf env b success) = Some env"
| "ev_oracle (Ev_base env r success) = Some env"

definition ev_ok :: "ubi_event \<Rightarrow> bool" where
  "ev_ok e \<longleftrightarrow> (case ev_oracle e of None \<Rightarrow> True | Some env \<Rightarrow> uring_ok env)"

definition ev_doc :: "ubi_event \<Rightarrow> bool" where
  "ev_doc e \<longleftrightarrow> (case ev_oracle e of None \<Rightarrow> True | Some env \<Rightarrow> uring_doc env)"

definition ev_submits :: "ubi_event \<Rightarrow> bool" where
  "ev_submits e \<longleftrightarrow> (case ev_oracle e of None \<Rightarrow> True | Some env \<Rightarrow> submits env)"

lemma ev_ok_iff: "ev_ok e \<longleftrightarrow> ev_doc e \<and> ev_submits e"
  by (simp add: ev_ok_def ev_doc_def ev_submits_def uring_ok_iff split: option.split)

subsection \<open>What is outstanding\<close>

definition ring :: "ubi_state \<Rightarrow> sqe multiset" where
  "ring s = mset (sq s) + mset (inflight s)"

definition ring_slots :: "sqe multiset \<Rightarrow> nat multiset" where
  "ring_slots R = image_mset sqe_slot (filter_mset is_Sqe_read R)"

definition ring_reads :: "sqe multiset \<Rightarrow> bdev_io multiset" where
  "ring_reads R = image_mset sqe_io (filter_mset (\<lambda>e. \<not> is_Sqe_read e) R)"

definition base_slots :: "base_req multiset \<Rightarrow> nat multiset" where
  "base_slots B = image_mset req_slot (filter_mset is_Req_write_stripe B)"

definition base_reads :: "base_req multiset \<Rightarrow> bdev_io multiset" where
  "base_reads B = image_mset req_io (filter_mset is_Req_readv B)"

definition base_ios :: "base_req multiset \<Rightarrow> bdev_io multiset" where
  "base_ios B = image_mset req_io (filter_mset (\<lambda>r. \<not> is_Req_write_stripe r) B)"

text \<open>The reads that were dispatched and not completed.\<close>

definition reads :: "ubi_state \<Rightarrow> bdev_io multiset" where
  "reads s = mset (buf_wait s) + ring_reads (ring s) + base_reads (mset (base_reqs s))"

definition fetch_slots :: "ubi_state \<Rightarrow> nat multiset" where
  "fetch_slots s = ring_slots (ring s) + base_slots (mset (base_reqs s))"

text \<open>Every request the channel knows of: queued, outstanding or completed.\<close>

definition all_ios :: "ubi_state \<Rightarrow> bdev_io multiset" where
  "all_ios s = mset (ch_io (ch s)) + mset (buf_wait s) + ring_reads (ring s) +
     base_ios (mset (base_reqs s)) + mset (map fst (completed s))"

lemmas base_callback_defs [completion_defs] = base_completion_def ubi_io_completion_cb_def write_stripe_io_completion_def
  ubi_data_flush_completion_def ubi_metadata_write_completion_def ubi_metadata_flush_completion_def base_submit_def
  bind_eq_Some_conv Let_def

lemmas outstanding_defs = ring_slots_def ring_reads_def base_slots_def base_reads_def base_ios_def

lemma outstanding_add [simp]:
  "ring_slots (add_mset (Sqe_read k a n off) R) = add_mset k (ring_slots R)"
  "ring_slots (add_mset (Sqe_readv b off) R) = ring_slots R"
  "ring_reads (add_mset (Sqe_read k a n off) R) = ring_reads R"
  "ring_reads (add_mset (Sqe_readv b off) R) = add_mset b (ring_reads R)"
  by (simp_all add: outstanding_defs)

lemma base_slots_add [simp]:
  "base_slots (add_mset r B) = (if is_Req_write_stripe r then add_mset (req_slot r) (base_slots B) else base_slots B)"
  "base_reads (add_mset r B) = (if is_Req_readv r then add_mset (req_io r) (base_reads B) else base_reads B)"
  "base_ios (add_mset r B) = (if is_Req_write_stripe r then base_ios B else add_mset (req_io r) (base_ios B))"
  by (simp_all add: outstanding_defs)

lemma outstanding_union [simp]:
  "ring_slots (R + R') = ring_slots R + ring_slots R'"
  "ring_reads (R + R') = ring_reads R + ring_reads R'"
  "base_slots (B + B') = base_slots B + base_slots B'"
  "base_reads (B + B') = base_reads B + base_reads B'"
  "base_ios (B + B') = base_ios B + base_ios B'"
  "ring_slots {#} = {#}" "ring_reads {#} = {#}" "base_slots {#} = {#}" "base_reads {#} = {#}" "base_ios {#} = {#}"
  by (simp_all add: outstanding_defs)

lemma size_ring: "size R = size (ring_slots R) + size (ring_reads R)"
  by (induction R) (auto simp: outstanding_defs)

end
