(* ===== verification/Ubi_Invariant.thy ===== *)
theory Ubi_Invariant
  imports Ubi_System
begin

section \<open>The invariant of the I/O path\<close>

text \<open>
  The invariant has these parts: the configuration is sound; every stripe in flight is owned by
  exactly one queue entry or fetch slot; every active slot has an outstanding operation, and at
  most \<open>z\<close> operations are stale, that is, belong to a slot that has been given up or is in use
  again; the counter of active reads is the number of reads outstanding; queued requests are
  legal and their stripes are not forgotten; a fetched stripe has its header.  Operations become
  stale only when \<^verbatim>\<open>io_uring_submit\<close> fails: the code then gives the slot up and leaves its entry in
  the ring.  With \<open>z = 0\<close> every active slot has exactly one operation, and the metadata in memory
  agrees with the status table.  Each operation's lemma says how it moves the parameters: \<open>oth\<close> are
  the stripes other channels own, \<open>X\<close> operations that have just been taken off the ring or the
  base bdev, \<open>n\<close> the reads that are counted and not yet handed on.  A last part says that writes
  sent to the base bdev belong to write requests.
\<close>

subsection \<open>Definition\<close>

definition image_stripes :: "ubi_bdev \<Rightarrow> nat" where
  "image_stripes u =
     (unat (image_block_count u) + 2 ^ unat (stripe_shift u) - 1) div 2 ^ unat (stripe_shift u)"

text \<open>
  A sound configuration: the shift of a layout that was computed, an image that fits the fetch
  queue, and a device whose stripes all have an entry in the status table.
\<close>

definition conf_ok :: "ubi_bdev \<Rightarrow> bool" where
  "conf_ok u \<longleftrightarrow> unat (stripe_shift u) \<le> 20 \<and> blocklen (bdev u) \<noteq> 0 \<and>
     image_stripes u \<le> 32767 \<and>
     unat (blockcnt (bdev u)) \<le> UBI_MAX_STRIPES * 2 ^ unat (stripe_shift u)"

definition stripe_of :: "ubi_bdev \<Rightarrow> bdev_io \<Rightarrow> nat" where
  "stripe_of u b = unat (offset_blocks b) div 2 ^ unat (stripe_shift u)"

definition act :: "ubi_io_channel \<Rightarrow> nat set" where
  "act c = {k. k < length (stripe_fetches c) \<and> active (stripe_fetches c ! k)}"

definition slot_stripe :: "ubi_io_channel \<Rightarrow> nat \<Rightarrow> nat" where
  "slot_stripe c k = unat (stripe_idx (stripe_fetches c ! k))"

definition queued :: "ubi_io_channel \<Rightarrow> nat list" where
  "queued c = map unat (queue_list (stripe_fetch_queue c))"

definition owned :: "ubi_io_channel \<Rightarrow> nat set" where
  "owned c = set (queued c) \<union> slot_stripe c ` act c"

definition decided :: "ubi_bdev \<Rightarrow> nat \<Rightarrow> bool" where
  "decided u i \<longleftrightarrow> i < UBI_MAX_STRIPES \<and> (stripe_status u i = STRIPE_FAILED \<or> stripe_status u i = STRIPE_FETCHED)"

text \<open>A slot with an operation: in use, or given up with its stripe decided.\<close>

definition slot_ok :: "ubi_bdev \<Rightarrow> ubi_io_channel \<Rightarrow> nat \<Rightarrow> bool" where
  "slot_ok u c k \<longleftrightarrow> k < UBI_MAX_ACTIVE_STRIPE_FETCHES \<and> op_type (stripe_fetches c ! k) = UBI_STRIPE_FETCH \<and>
     (k \<in> act c \<or> decided u (slot_stripe c k))"

definition fetch_st ::
    "nat \<Rightarrow> nat set \<Rightarrow> nat multiset \<Rightarrow> ubi_bdev \<Rightarrow> ubi_io_channel \<Rightarrow> nat multiset \<Rightarrow> bool" where
  "fetch_st z oth X u c F \<longleftrightarrow>
     queue_ok (stripe_fetch_queue c) \<and> length (stripe_fetches c) = UBI_MAX_ACTIVE_STRIPE_FETCHES \<and>
     distinct (queued c) \<and> inj_on (slot_stripe c) (act c) \<and>
     set (queued c) \<inter> slot_stripe c ` act c = {} \<and>
     owned c \<inter> oth = {} \<and> inflight_set u = owned c \<union> oth \<and>
     owned c \<union> oth \<subseteq> {..<image_stripes u} \<and>
     (\<forall>k \<in># F + X. slot_ok u c k) \<and>
     mset_set (act c) \<subseteq># F + X \<and> size (F + X) \<le> card (act c) + z"

abbreviation fetch_ok ::
    "nat set \<Rightarrow> nat multiset \<Rightarrow> ubi_bdev \<Rightarrow> ubi_io_channel \<Rightarrow> nat multiset \<Rightarrow> bool" where
  "fetch_ok \<equiv> fetch_st 0"

definition read_ok ::
    "nat \<Rightarrow> ubi_bdev \<Rightarrow> ubi_io_channel \<Rightarrow> bdev_io multiset \<Rightarrow> (nat \<Rightarrow> ubi_bdev_io) \<Rightarrow> bool" where
  "read_ok n u c R ctx \<longleftrightarrow>
     unat (active_reads c) = size R + n \<and> size R + n \<le> 24 \<and>
     (\<forall>b \<in># R. io_type b = IO_READ \<and> io_ok u b \<and> io_op_type (ctx (io_id b)) = UBI_BDEV_IO)"

definition not_forgotten :: "ubi_bdev \<Rightarrow> bdev_io \<Rightarrow> bool" where
  "not_forgotten u b \<longleftrightarrow>
     (io_type b = IO_WRITE \<or> io_type b = IO_READ \<and> copy_on_read u) \<and>
     offset_blocks b < image_block_count u \<longrightarrow>
     stripe_status u (stripe_of u b) \<noteq> STRIPE_NOT_FETCHED"

definition ios_ok :: "ubi_bdev \<Rightarrow> bdev_io list \<Rightarrow> bool" where
  "ios_ok u bs \<longleftrightarrow> (\<forall>b \<in> set bs. io_ok u b \<and> not_forgotten u b)"

definition md_ok :: "ubi_bdev \<Rightarrow> (nat \<Rightarrow> ubi_bdev_io) \<Rightarrow> base_req multiset \<Rightarrow> bool" where
  "md_ok u ctx B \<longleftrightarrow>
     fetched_set u = header_set (metadata u) \<and>
     unat (stripes_fetched u) = card (fetched_set u) \<and>
     stripes_flushed u \<le> stripes_fetched u \<and>
     (\<forall>r \<in># B. is_Req_md_write r \<or> is_Req_md_flush r \<longrightarrow>
        io_stripes_fetched (ctx (io_id (req_io r))) \<le> stripes_fetched u)"

definition md_st :: "nat \<Rightarrow> ubi_bdev \<Rightarrow> (nat \<Rightarrow> ubi_bdev_io) \<Rightarrow> base_req multiset \<Rightarrow> bool" where
  "md_st z u ctx B \<longleftrightarrow> fetched_set u \<subseteq> header_set (metadata u) \<and> (z = 0 \<longrightarrow> md_ok u ctx B)"

definition writes_ok :: "base_req multiset \<Rightarrow> bool" where
  "writes_ok B \<longleftrightarrow> (\<forall>r \<in># B. is_Req_writev r \<longrightarrow> io_type (req_io r) = IO_WRITE)"

lemma writes_ok_simps [simp]:
  "writes_ok {#}"
  "writes_ok (add_mset r B) \<longleftrightarrow> (is_Req_writev r \<longrightarrow> io_type (req_io r) = IO_WRITE) \<and> writes_ok B"
  by (auto simp: writes_ok_def)

definition inv_st :: "nat \<Rightarrow> nat set \<Rightarrow> nat multiset \<Rightarrow> nat \<Rightarrow> ubi_state \<Rightarrow> bool" where
  "inv_st z oth X n s \<longleftrightarrow>
     conf_ok (ub s) \<and>
     fetch_st z oth X (ub s) (ch s) (fetch_slots s) \<and>
     read_ok n (ub s) (ch s) (reads s) (driver_ctx s) \<and>
     ios_ok (ub s) (ch_io (ch s)) \<and>
     md_st z (ub s) (driver_ctx s) (mset (base_reqs s)) \<and>
     writes_ok (mset (base_reqs s))"

abbreviation inv_gen :: "nat set \<Rightarrow> nat multiset \<Rightarrow> nat \<Rightarrow> ubi_state \<Rightarrow> bool" where
  "inv_gen \<equiv> inv_st 0"

abbreviation inv :: "ubi_state \<Rightarrow> bool" where
  "inv s \<equiv> inv_gen {} {#} 0 s"

text \<open>Without stale operations the operations are exactly those of the active slots.\<close>

lemma act_finite [simp]: "finite (act c)"
  by (simp add: act_def)

lemma subset_size_eq:
  assumes "A \<subseteq># B" "size B \<le> size A" shows "B = A"
proof -
  obtain C where "B = A + C" using assms(1) by (metis mset_subset_eq_exists_conv)
  with assms(2) show ?thesis by simp
qed

lemma fetch_ok_def:
  "fetch_ok oth X u c F \<longleftrightarrow>
     queue_ok (stripe_fetch_queue c) \<and> length (stripe_fetches c) = UBI_MAX_ACTIVE_STRIPE_FETCHES \<and>
     distinct (queued c) \<and> inj_on (slot_stripe c) (act c) \<and>
     set (queued c) \<inter> slot_stripe c ` act c = {} \<and>
     owned c \<inter> oth = {} \<and> inflight_set u = owned c \<union> oth \<and>
     owned c \<union> oth \<subseteq> {..<image_stripes u} \<and>
     (\<forall>k \<in> act c. op_type (stripe_fetches c ! k) = UBI_STRIPE_FETCH) \<and>
     F + X = mset_set (act c)"
proof -
  have "mset_set (act c) \<subseteq># F + X \<and> size (F + X) \<le> card (act c) + 0 \<longleftrightarrow> F + X = mset_set (act c)"
    using subset_size_eq [of "mset_set (act c)" "F + X"] by (metis add_0_right order_refl size_mset_set subset_mset.order_refl)
  moreover have "(\<forall>k \<in># F + X. slot_ok u c k) \<longleftrightarrow> (\<forall>k \<in> act c. op_type (stripe_fetches c ! k) = UBI_STRIPE_FETCH)"
    if "F + X = mset_set (act c)" "length (stripe_fetches c) = UBI_MAX_ACTIVE_STRIPE_FETCHES"
    unfolding that(1) using that(2) by (auto simp: slot_ok_def act_def)
  ultimately show ?thesis unfolding fetch_st_def by blast
qed

lemma inv_gen_def:
  "inv_gen oth X n s \<longleftrightarrow>
     conf_ok (ub s) \<and>
     fetch_ok oth X (ub s) (ch s) (fetch_slots s) \<and>
     read_ok n (ub s) (ch s) (reads s) (driver_ctx s) \<and>
     ios_ok (ub s) (ch_io (ch s)) \<and>
     md_ok (ub s) (driver_ctx s) (mset (base_reqs s)) \<and>
     writes_ok (mset (base_reqs s))"
  by (auto simp: inv_st_def md_st_def md_ok_def)

lemma fetch_st_mono: "fetch_st z oth X u c F \<Longrightarrow> z \<le> z' \<Longrightarrow> fetch_st z' oth X u c F"
  by (auto simp: fetch_st_def)

lemma inv_st_mono: "inv_st z oth X n s \<Longrightarrow> z \<le> z' \<Longrightarrow> inv_st z' oth X n s"
  using fetch_st_mono by (auto simp: inv_st_def md_st_def)

subsection \<open>Stripes of requests\<close>

lemma unat_block_stripe: "unat (block_stripe u x) = unat x div 2 ^ unat (stripe_shift u)"
  unfolding block_stripe_def
  using unsigned_less [of x, where ?'a = nat]
  by (simp only: unsigned_drop_bit_eq) (simp add: drop_bit_eq_div take_bit_nat_eq_self)

lemma stripe_of_bound:
  assumes "conf_ok u" "io_ok u b"
  shows "stripe_of u b < UBI_MAX_STRIPES"
proof -
  have "unat (num_blocks b) \<noteq> 0"
    using assms(2) by (simp add: io_ok_def unat_eq_zero)
  then have "unat (offset_blocks b) < UBI_MAX_STRIPES * 2 ^ unat (stripe_shift u)"
    using assms by (auto simp: io_ok_def conf_ok_def simp del: UBI_MAX_STRIPES_def)
  then show ?thesis
    by (simp add: stripe_of_def less_mult_imp_div_less)
qed

lemma stripe_of_index:
  assumes "conf_ok u" "io_ok u b"
  shows "unat (ucast (block_stripe u (offset_blocks b)) :: i32) = stripe_of u b"
    and "stripe_valid (ucast (block_stripe u (offset_blocks b)))"
proof -
  have b: "unat (block_stripe u (offset_blocks b)) = stripe_of u b"
    by (simp add: unat_block_stripe stripe_of_def)
  show "unat (ucast (block_stripe u (offset_blocks b)) :: i32) = stripe_of u b"
    using stripe_of_bound [OF assms] by (subst unat_ucast_small) (simp_all add: b)
  then show "stripe_valid (ucast (block_stripe u (offset_blocks b)))"
    using stripe_of_bound [OF assms] by (simp add: stripe_valid_def)
qed

lemma block_in_image:
  assumes "x < unat (image_block_count u)"
  shows "x div 2 ^ unat (stripe_shift u) < image_stripes u"
proof -
  let ?p = "2 ^ unat (stripe_shift u) :: nat"
  have "x + ?p \<le> unat (image_block_count u) + ?p - 1" using assms by simp
  then have "(x + ?p) div ?p \<le> image_stripes u" unfolding image_stripes_def by (rule div_le_mono)
  then show ?thesis by (subst (asm) div_add_self2) simp_all
qed

lemma stripe_of_image: "offset_blocks b < image_block_count u \<Longrightarrow> stripe_of u b < image_stripes u"
  by (simp add: stripe_of_def block_in_image word_less_nat_alt)

lemma get_status_io:
  assumes "conf_ok u" "io_ok u b"
  shows "ubi_get_stripe_status u (ucast (block_stripe u (offset_blocks b))) = Some (stripe_status u (stripe_of u b))"
  using stripe_of_index [OF assms] by (simp add: ubi_get_stripe_status_eq)

end
