(* ===== verification/Ubi_Fetch_Inv.thy ===== *)
theory Ubi_Fetch_Inv
  imports Ubi_Invariant
begin

section \<open>The invariant under stripe fetches, reads and flushes\<close>

text \<open>
  How the operations of \<^verbatim>\<open>bdev_ubi_stripe.c\<close> and \<^verbatim>\<open>bdev_ubi_flush.c\<close> and the small operations of
  \<^verbatim>\<open>bdev_ubi_io_channel.c\<close> move the parameters of \<^const>\<open>inv_st\<close>: each lemma says that the
  operation is defined (no access out of range, no null entry, no wrong cast) and what is
  invariant afterwards.
\<close>

subsection \<open>Frames\<close>

lemma chan_frame [simp]:
  "act (c\<lparr>active_reads := a\<rparr>) = act c" "act (c\<lparr>blocks_read := w\<rparr>) = act c"
  "act (c\<lparr>blocks_written := w\<rparr>) = act c" "act (c\<lparr>ch_stripes_fetched := w\<rparr>) = act c"
  "act (c\<lparr>has_reads := h\<rparr>) = act c" "act (c\<lparr>ch_io := bs\<rparr>) = act c"
  "act (c\<lparr>stripe_fetch_queue := q\<rparr>) = act c"
  "slot_stripe (c\<lparr>active_reads := a\<rparr>) = slot_stripe c" "slot_stripe (c\<lparr>blocks_read := w\<rparr>) = slot_stripe c"
  "slot_stripe (c\<lparr>blocks_written := w\<rparr>) = slot_stripe c"
  "slot_stripe (c\<lparr>ch_stripes_fetched := w\<rparr>) = slot_stripe c"
  "slot_stripe (c\<lparr>has_reads := h\<rparr>) = slot_stripe c" "slot_stripe (c\<lparr>ch_io := bs\<rparr>) = slot_stripe c"
  "slot_stripe (c\<lparr>stripe_fetch_queue := q\<rparr>) = slot_stripe c"
  "queued (c\<lparr>active_reads := a\<rparr>) = queued c" "queued (c\<lparr>blocks_read := w\<rparr>) = queued c"
  "queued (c\<lparr>blocks_written := w\<rparr>) = queued c" "queued (c\<lparr>ch_stripes_fetched := w\<rparr>) = queued c"
  "queued (c\<lparr>has_reads := h\<rparr>) = queued c" "queued (c\<lparr>ch_io := bs\<rparr>) = queued c"
  "queued (c\<lparr>stripe_fetches := fs\<rparr>) = queued c"
  by (simp_all add: act_def slot_stripe_def queued_def fun_eq_iff)

lemma fetch_ok_frame [simp]:
  "fetch_st z oth X u (c\<lparr>active_reads := a\<rparr>) F = fetch_st z oth X u c F"
  "fetch_st z oth X u (c\<lparr>blocks_read := w\<rparr>) F = fetch_st z oth X u c F"
  "fetch_st z oth X u (c\<lparr>blocks_written := w\<rparr>) F = fetch_st z oth X u c F"
  "fetch_st z oth X u (c\<lparr>ch_stripes_fetched := w\<rparr>) F = fetch_st z oth X u c F"
  "fetch_st z oth X u (c\<lparr>has_reads := h\<rparr>) F = fetch_st z oth X u c F"
  "fetch_st z oth X u (c\<lparr>ch_io := bs\<rparr>) F = fetch_st z oth X u c F"
  by (simp_all add: fetch_st_def slot_ok_def owned_def)

lemma read_ok_frame [simp]:
  "read_ok n u (c\<lparr>blocks_read := w\<rparr>) R ctx = read_ok n u c R ctx"
  "read_ok n u (c\<lparr>blocks_written := w\<rparr>) R ctx = read_ok n u c R ctx"
  "read_ok n u (c\<lparr>ch_stripes_fetched := w\<rparr>) R ctx = read_ok n u c R ctx"
  "read_ok n u (c\<lparr>has_reads := h\<rparr>) R ctx = read_ok n u c R ctx"
  "read_ok n u (c\<lparr>ch_io := bs\<rparr>) R ctx = read_ok n u c R ctx"
  "read_ok n u (c\<lparr>stripe_fetches := fs\<rparr>) R ctx = read_ok n u c R ctx"
  "read_ok n u (c\<lparr>stripe_fetch_queue := q\<rparr>) R ctx = read_ok n u c R ctx"
  by (simp_all add: read_ok_def)

lemma config_frame [simp]:
  "conf_ok (put_status i v u) = conf_ok u"
  "image_stripes (put_status i v u) = image_stripes u"
  "io_ok (put_status i v u) b = io_ok u b"
  "stripe_of (put_status i v u) b = stripe_of u b"
  "block_stripe (put_status i v u) x = block_stripe u x"
  "read_ok n (put_status i v u) c R ctx = read_ok n u c R ctx"
  by (simp_all add: conf_ok_def image_stripes_def io_ok_def stripe_of_def block_stripe_def read_ok_def)

lemma counter_frame [simp]:
  "conf_ok (u\<lparr>stripes_fetched := x\<rparr>) = conf_ok u" "conf_ok (u\<lparr>stripes_flushed := x\<rparr>) = conf_ok u"
  "io_ok (u\<lparr>stripes_fetched := x\<rparr>) b = io_ok u b" "io_ok (u\<lparr>stripes_flushed := x\<rparr>) b = io_ok u b"
  "read_ok n (u\<lparr>stripes_fetched := x\<rparr>) c R ctx = read_ok n u c R ctx"
  "read_ok n (u\<lparr>stripes_flushed := x\<rparr>) c R ctx = read_ok n u c R ctx"
  "ios_ok (u\<lparr>stripes_fetched := x\<rparr>) bs = ios_ok u bs" "ios_ok (u\<lparr>stripes_flushed := x\<rparr>) bs = ios_ok u bs"
  "fetch_st z oth X (u\<lparr>stripes_fetched := x\<rparr>) c F = fetch_st z oth X u c F"
  "fetch_st z oth X (u\<lparr>stripes_flushed := x\<rparr>) c F = fetch_st z oth X u c F"
  "fetched_set (u\<lparr>stripes_fetched := x\<rparr>) = fetched_set u" "fetched_set (u\<lparr>stripes_flushed := x\<rparr>) = fetched_set u"
  by (simp_all add: conf_ok_def image_stripes_def io_ok_def stripe_of_def block_stripe_def read_ok_def
      ios_ok_def not_forgotten_def fetch_st_def slot_ok_def decided_def inflight_set_def fetched_set_def)

lemma state_frame [simp]:
  "fetch_slots (s\<lparr>ub := u\<rparr>) = fetch_slots s" "fetch_slots (s\<lparr>ch := c\<rparr>) = fetch_slots s"
  "fetch_slots (s\<lparr>driver_ctx := d\<rparr>) = fetch_slots s" "fetch_slots (s\<lparr>completed := cs\<rparr>) = fetch_slots s"
  "fetch_slots (s\<lparr>clock := t\<rparr>) = fetch_slots s" "fetch_slots (s\<lparr>buf_wait := w\<rparr>) = fetch_slots s"
  "reads (s\<lparr>ub := u\<rparr>) = reads s" "reads (s\<lparr>ch := c\<rparr>) = reads s"
  "reads (s\<lparr>driver_ctx := d\<rparr>) = reads s" "reads (s\<lparr>completed := cs\<rparr>) = reads s"
  "reads (s\<lparr>clock := t\<rparr>) = reads s"
  by (simp_all add: fetch_slots_def reads_def ring_def)

lemma inv_complete [simp]: "inv_st z oth X n (spdk_bdev_io_complete b ok s) = inv_st z oth X n s"
  by (simp add: spdk_bdev_io_complete_def inv_st_def)

lemma inv_tick [simp]: "inv_st z oth X n (s\<lparr>clock := t\<rparr>) = inv_st z oth X n s"
  by (simp add: inv_st_def)

lemma io_uring_submit_frame:
  assumes "io_uring_submit env s = (ret, s')"
  shows "ring s' = ring s" "ub s' = ub s" "ch s' = ch s" "driver_ctx s' = driver_ctx s"
    "base_reqs s' = base_reqs s" "buf_wait s' = buf_wait s" "completed s' = completed s"
    "length (sq s') \<le> length (sq s)"
proof -
  have "mset (take k xs) + mset (drop k xs) = mset xs" for k and xs :: "sqe list"
    by (metis append_take_drop_id mset_append)
  then show "ring s' = ring s" "ub s' = ub s" "ch s' = ch s" "driver_ctx s' = driver_ctx s"
    "base_reqs s' = base_reqs s" "buf_wait s' = buf_wait s" "completed s' = completed s"
    "length (sq s') \<le> length (sq s)"
    using assms by (auto simp: io_uring_submit_def ring_def Let_def ac_simps split: if_splits)
qed

lemma inv_uring_submit:
  assumes "io_uring_submit env s = (ret, s')"
  shows "inv_st z oth X n s' = inv_st z oth X n s"
  using io_uring_submit_frame [OF assms] by (simp add: inv_st_def fetch_slots_def reads_def)

subsection \<open>Requests\<close>

lemma inv_base_submit:
  assumes "inv_st z oth X n s" and "base_submit env r s = (ret, s')"
    and "\<not> is_Req_readv r" "\<not> is_Req_write_stripe r"
    and "z = 0 \<Longrightarrow> is_Req_md_write r \<or> is_Req_md_flush r \<Longrightarrow>
           io_stripes_fetched (driver_ctx s (io_id (req_io r))) \<le> stripes_fetched (ub s)"
    and "is_Req_writev r \<Longrightarrow> io_type (req_io r) = IO_WRITE"
  shows "inv_st z oth X n s'"
  using assms
  by (auto simp: base_submit_def Let_def inv_st_def fetch_slots_def reads_def ring_def md_st_def md_ok_def
      split: if_splits)

lemma base_submit_frame:
  assumes "base_submit env r s = (ret, s')"
  shows "ub s' = ub s" "ch s' = ch s" "driver_ctx s' = driver_ctx s" "sq s' = sq s"
    "inflight s' = inflight s" "buf_wait s' = buf_wait s" "completed s' = completed s"
    "base_reqs s' = (if ret = 0 then base_reqs s @ [r] else base_reqs s)"
  using assms by (auto simp: base_submit_def Let_def)

lemma inv_complete_io:
  assumes "inv_st z oth X (Suc n) s" and "io_type b = IO_READ"
  shows "inv_st z oth X n (ubi_complete_io b ok s)"
proof -
  have "unat (active_reads (ch s) - 1) = size (reads s) + n"
    using assms(1) by (subst unat_sub) (simp_all add: inv_st_def read_ok_def word_le_nat_alt)
  with assms show ?thesis
    by (simp add: ubi_complete_io_def) (simp add: inv_st_def read_ok_def)
qed

lemma inv_complete_io_write:
  "io_type b \<noteq> IO_READ \<Longrightarrow> inv_st z oth X n (ubi_complete_io b ok s) = inv_st z oth X n s"
  by (simp add: ubi_complete_io_def)

lemma inv_read_request:
  assumes "inv_st z oth X (Suc n) s" and "base_submit env (Req_readv b st m) s = (0, s')"
    and "io_type b = IO_READ" "io_ok (ub s) b" "io_op_type (driver_ctx s (io_id b)) = UBI_BDEV_IO"
  shows "inv_st z oth X n s'"
  using assms
  by (auto simp: base_submit_def Let_def inv_st_def fetch_slots_def reads_def ring_def md_st_def md_ok_def read_ok_def
      split: if_splits)

lemma inv_image_read:
  assumes "inv_st z oth X (Suc n) s"
    and "io_type b = IO_READ" "io_ok (ub s) b" "io_op_type (driver_ctx s (io_id b)) = UBI_BDEV_IO"
  shows "inv_st z oth X n (s\<lparr>sq := sq s @ [Sqe_readv b off], ch := (ch s)\<lparr>has_reads := h\<rparr>\<rparr>)"
  using assms
  by (auto simp: inv_st_def fetch_slots_def reads_def ring_def read_ok_def)

lemma inv_get_buf:
  assumes I: "inv_st z oth X (Suc n) s"
    and b: "io_type b = IO_READ" "io_ok (ub s) b" "io_op_type (driver_ctx s (io_id b)) = UBI_BDEV_IO"
  shows "\<exists>s'. get_buf_for_read_cb env b success s = Some s' \<and> inv_st z oth X n s'"
proof (cases success)
  case False
  then show ?thesis using inv_complete_io [OF I b(1)] by (simp add: get_buf_for_read_cb_def)
next
  case True
  have conf: "conf_ok (ub s)" using I by (simp add: inv_st_def)
  note status = get_status_io [OF conf b(2)]
  obtain ret s1 where rd: "ubi_submit_read_request env b s = (ret, s1)"
    by (cases "ubi_submit_read_request env b s")
  then have sub: "base_submit env (Req_readv b (offset_blocks b + ucast (data_offset_blocks (ub s))) (num_blocks b)) s = (ret, s1)"
    by (simp add: ubi_submit_read_request_def Let_def)
  have "inv_st z oth X (Suc n) s1" if "ret \<noteq> 0"
    using that sub I by (auto simp: base_submit_def Let_def split: if_splits)
  then have read: "inv_st z oth X n (if ret \<noteq> 0 then ubi_complete_io b False s1 else s1)"
    using inv_complete_io b inv_read_request [OF I _ b] sub by auto
  have tick: "inv_st z oth X (Suc n) (tick s)" using I by simp
  have "inv_st z oth X n ((tick s)\<lparr>sq := sq (tick s) @ [Sqe_readv b off], ch := (ch (tick s))\<lparr>has_reads := h\<rparr>\<rparr>)" for off h
    by (rule inv_image_read [OF tick]) (use b in simp_all)
  then show ?thesis
    using True read inv_complete_io [OF tick b(1)]
    by (auto simp: get_buf_for_read_cb_def status rd Let_def)
qed


subsection \<open>Stripe fetches\<close>

lemma act_upd:
  "k < length (stripe_fetches c) \<Longrightarrow>
   act (c\<lparr>stripe_fetches := (stripe_fetches c)[k := x]\<rparr>) = (if active x then insert k (act c) else act c - {k})"
  by (auto simp: act_def nth_list_update split: if_splits)

lemma slot_stripe_upd:
  "k < length (stripe_fetches c) \<Longrightarrow>
   slot_stripe (c\<lparr>stripe_fetches := (stripe_fetches c)[k := x]\<rparr>) = (slot_stripe c)(k := unat (stripe_idx x))"
  by (auto simp: slot_stripe_def fun_eq_iff nth_list_update)

lemma fetch_st_slot:
  assumes "fetch_st z oth (add_mset k X) u c F"
  shows "slot_ok u c k" "k < length (stripe_fetches c)"
  using assms by (auto simp: fetch_st_def slot_ok_def)

lemma fetch_ok_active:
  assumes "fetch_ok oth (add_mset k X) u c F"
  shows "k \<in> act c" "k < length (stripe_fetches c)"
proof -
  have "F + add_mset k X = mset_set (act c)"
    using assms by (simp only: fetch_ok_def)
  then have "k \<in># mset_set (act c)"
    by (metis union_iff union_single_eq_member add_mset_add_single)
  then show "k \<in> act c" by simp
  then show "k < length (stripe_fetches c)" by (simp add: act_def)
qed

lemma fetch_ok_stripe:
  assumes "fetch_st z oth X u c F" "k \<in> act c"
  shows "slot_stripe c k \<in> inflight_set u" "slot_stripe c k < UBI_MAX_STRIPES"
    "stripe_status u (slot_stripe c k) = STRIPE_INFLIGHT"
  using assms by (auto simp: fetch_st_def owned_def inflight_set_def)

lemma fetch_st_stripe:
  assumes "fetch_st z oth (add_mset k X) u c F"
  shows "slot_stripe c k < UBI_MAX_STRIPES"
    and "stripe_status u (slot_stripe c k) \<noteq> STRIPE_NOT_FETCHED"
    and "z = 0 \<Longrightarrow> stripe_status u (slot_stripe c k) = STRIPE_INFLIGHT"
  using fetch_st_slot(1) [OF assms] fetch_ok_stripe [OF assms] fetch_ok_active [of oth k X u c F] assms
  by (auto simp: slot_ok_def decided_def)

lemma decided_put_status:
  "decided u j \<Longrightarrow> v = STRIPE_FAILED \<or> v = STRIPE_FETCHED \<Longrightarrow> decided (put_status i v u) j"
  "decided u j \<Longrightarrow> \<not> decided u i \<Longrightarrow> decided (put_status i v u) j"
  "i < UBI_MAX_STRIPES \<Longrightarrow> v = STRIPE_FAILED \<or> v = STRIPE_FETCHED \<Longrightarrow> decided (put_status i v u) i"
  by (auto simp: decided_def)

lemma subset_drop: "A \<subseteq># add_mset k B \<Longrightarrow> k \<notin># A \<Longrightarrow> A \<subseteq># B"
  by (metis add_mset_add_single diff_single_trivial subset_eq_diff_conv)

lemma fetch_ok_deactivate:
  assumes F: "fetch_st z oth (add_mset k X) u c F" and v: "v = STRIPE_FAILED \<or> v = STRIPE_FETCHED"
    and x: "x = (stripe_fetches c ! k)\<lparr>active := False\<rparr>"
  shows "fetch_st z oth X (put_status (slot_stripe c k) v u)
           (c\<lparr>stripe_fetches := (stripe_fetches c)[k := x]\<rparr>) F"
proof -
  let ?i = "slot_stripe c k"
  note k = fetch_st_slot [OF F] and i = fetch_st_stripe(1) [OF F]
  let ?c = "c\<lparr>stripe_fetches := (stripe_fetches c)[k := x]\<rparr>"
  let ?u = "put_status ?i v u"
  have act: "act ?c = act c - {k}" using k(2) x by (simp add: act_upd)
  have slot: "slot_stripe ?c = slot_stripe c"
    using k(2) x by (simp add: slot_stripe_upd) (simp add: slot_stripe_def fun_eq_iff)
  have inj: "inj_on (slot_stripe c) (act c)" and disj: "set (queued c) \<inter> slot_stripe c ` act c = {}"
    and oth: "owned c \<inter> oth = {}" and infl: "inflight_set u = owned c \<union> oth"
    using F by (simp_all add: fetch_st_def)
  have idle: "?i \<notin> owned c \<union> oth" if "k \<notin> act c"
    unfolding infl [symmetric] using that k(1) by (auto simp: slot_ok_def decided_def inflight_set_def)
  have img: "slot_stripe c ` (act c - {k}) = slot_stripe c ` act c - {?i}"
  proof (cases "k \<in> act c")
    case True
    then show ?thesis using inj by (auto simp: inj_on_def)
  next
    case False
    then show ?thesis using idle by (auto simp: owned_def)
  qed
  have own: "owned ?c = owned c - {?i}"
    unfolding owned_def act slot img using disj idle by (cases "k \<in> act c") (auto simp: queued_def owned_def)
  have "?i \<notin> oth"
    using oth idle by (cases "k \<in> act c") (auto simp: owned_def)
  then have infl': "inflight_set ?u = owned ?c \<union> oth"
    using v i infl own by (auto simp: put_status_sets)
  have "slot_ok ?u ?c j" if "j \<in># F + X" for j
  proof -
    have j: "slot_ok u c j" using that F by (auto simp: fetch_st_def)
    moreover have "op_type (stripe_fetches ?c ! j) = UBI_STRIPE_FETCH"
      using j k x by (simp add: slot_ok_def nth_list_update)
    moreover have "decided ?u (slot_stripe c j)" if "j = k \<or> decided u (slot_stripe c j)"
      using that decided_put_status(1) [OF _ v] decided_put_status(3) [OF i v] by blast
    ultimately show ?thesis
      unfolding slot_ok_def act slot by blast
  qed
  moreover have "mset_set (act c - {k}) \<subseteq># F + X \<and> size (F + X) \<le> card (act c - {k}) + z"
  proof (cases "k \<in> act c")
    case True
    then have "mset_set (act c) = add_mset k (mset_set (act c - {k}))" "card (act c) = Suc (card (act c - {k}))"
      using mset_set.remove [of "act c" k] card.remove [of "act c" k] by simp_all
    with F show ?thesis by (simp add: fetch_st_def)
  next
    case False
    then have "mset_set (act c) \<subseteq># F + X"
      by (intro subset_drop [of "mset_set (act c)" k "F + X"]) (use F in \<open>simp_all add: fetch_st_def\<close>)
    with False F show ?thesis by (simp add: fetch_st_def)
  qed
  moreover have "inj_on (slot_stripe c) (act c - {k})"
    using inj by (rule inj_on_subset) auto
  moreover have "owned ?c \<union> oth \<subseteq> {..<image_stripes u}"
    using F own by (auto simp: fetch_st_def)
  ultimately show ?thesis
    using F oth own infl' disj by (auto simp: fetch_st_def act slot)
qed

text \<open>An operation of an active slot that is left behind is one more stale operation.\<close>

lemma fetch_st_leave:
  "fetch_st z oth X u c F \<Longrightarrow> k \<in> act c \<Longrightarrow> k \<in># F \<Longrightarrow> fetch_st (Suc z) oth (add_mset k X) u c F"
  using subset_mset.order_trans [of "mset_set (act c)" "F + X" "add_mset k (F + X)"]
  by (auto simp: fetch_st_def slot_ok_def act_def)

lemma fetch_ok_activate:
  assumes F: "fetch_st z oth X u c F" and k: "k \<notin> act c" "k < length (stripe_fetches c)"
    and q: "queue_list (stripe_fetch_queue c) = idx # rest" "queue_ok q'" "queue_list q' = rest"
    and x: "active x" "stripe_idx x = idx" "op_type x = UBI_STRIPE_FETCH"
  shows "fetch_st z oth (add_mset k X) u
           (c\<lparr>stripe_fetch_queue := q', stripe_fetches := (stripe_fetches c)[k := x]\<rparr>) F"
proof -
  let ?c = "c\<lparr>stripe_fetch_queue := q', stripe_fetches := (stripe_fetches c)[k := x]\<rparr>"
  have act: "act ?c = insert k (act c)"
    using act_upd [of k "c\<lparr>stripe_fetch_queue := q'\<rparr>" x] k x by simp
  have slot: "slot_stripe ?c = (slot_stripe c)(k := unat idx)"
    using slot_stripe_upd [of k "c\<lparr>stripe_fetch_queue := q'\<rparr>" x] k x by simp
  have qd: "queued c = unat idx # queued ?c" using q by (simp add: queued_def)
  have img: "slot_stripe ?c ` act ?c = insert (unat idx) (slot_stripe c ` act c)"
    unfolding act slot using k(1) by auto
  have own: "owned ?c = owned c"
    unfolding owned_def img qd by simp
  have old: "inj_on (slot_stripe c) (act c)" "unat idx \<notin> slot_stripe c ` act c" "distinct (queued c)"
    "set (queued c) \<inter> slot_stripe c ` act c = {}"
    using F qd by (auto simp: fetch_st_def)
  have inj: "inj_on (slot_stripe ?c) (act ?c)"
    unfolding act slot using k(1) old(1,2) by (auto simp: inj_on_fun_updI fun_upd_image)
  have dist: "distinct (queued ?c)" "set (queued ?c) \<inter> slot_stripe ?c ` act ?c = {}"
    unfolding img using old(3,4) unfolding qd by auto
  have "slot_ok u ?c j" if "j \<in># F + add_mset k X" for j
    using that F k x by (auto simp: fetch_st_def slot_ok_def act slot nth_list_update)
  moreover have "mset_set (act ?c) \<subseteq># F + add_mset k X \<and> size (F + add_mset k X) \<le> card (act ?c) + z"
    unfolding act using F k(1) by (simp add: fetch_st_def)
  ultimately show ?thesis
    using F own inj dist q(2) by (simp add: fetch_st_def)
qed

lemma queued_bound:
  assumes "fetch_st z oth X u c F" "conf_ok u" "i < image_stripes u" "i \<notin> inflight_set u"
  shows "queue_len (stripe_fetch_queue c) < 32767"
proof -
  have "set (queued c) \<subseteq> {..<image_stripes u} - {i}"
    using assms by (auto simp: fetch_st_def owned_def)
  then have "card (set (queued c)) \<le> card ({..<image_stripes u} - {i})"
    by (rule card_mono [rotated]) simp
  moreover have "card (set (queued c)) = queue_len (stripe_fetch_queue c)"
    using assms(1) distinct_card [of "queued c"] by (simp add: fetch_st_def queued_def)
  ultimately show ?thesis
    using assms(2,3) unfolding conf_ok_def by simp linarith
qed

lemma fetch_ok_enqueue:
  assumes F: "fetch_st z oth X u c F" and i: "unat i < image_stripes u" "unat i < UBI_MAX_STRIPES"
    "stripe_status u (unat i) = STRIPE_NOT_FETCHED"
    and q: "queue_ok q'" "queue_list q' = queue_list (stripe_fetch_queue c) @ [i]"
  shows "fetch_st z oth X (put_status (unat i) STRIPE_INFLIGHT u) (c\<lparr>stripe_fetch_queue := q'\<rparr>) F"
proof -
  let ?c = "c\<lparr>stripe_fetch_queue := q'\<rparr>"
  have qd: "queued ?c = queued c @ [unat i]" using q by (simp add: queued_def)
  have own: "owned ?c = insert (unat i) (owned c)" by (simp add: owned_def qd)
  have "slot_ok (put_status (unat i) STRIPE_INFLIGHT u) ?c k" if "k \<in># F + X" for k
  proof -
    have "slot_ok u c k" using that F by (auto simp: fetch_st_def)
    then show ?thesis using i(3) by (auto simp: slot_ok_def decided_def)
  qed
  moreover have infl: "inflight_set u = owned c \<union> oth" using F by (simp add: fetch_st_def)
  moreover have "unat i \<notin> owned c \<union> oth"
    unfolding infl [symmetric] using i(3) by (simp add: inflight_set_def)
  ultimately show ?thesis
    using F i q(1) by (auto simp: fetch_st_def own qd put_status_sets) (auto simp: owned_def)
qed

lemma ios_ok_put_status:
  "ios_ok u bs \<Longrightarrow> v \<noteq> STRIPE_NOT_FETCHED \<Longrightarrow> ios_ok (put_status i v u) bs"
  by (auto simp: ios_ok_def not_forgotten_def)

lemma md_ok_put_status:
  assumes "md_ok u ctx B" "i < UBI_MAX_STRIPES" "stripe_status u i \<noteq> STRIPE_FETCHED" "v \<noteq> STRIPE_FETCHED"
  shows "md_ok (put_status i v u) ctx B"
proof -
  have "i \<notin> fetched_set u" using assms(3) by (simp add: fetched_set_def)
  with assms show ?thesis
    by (simp add: md_ok_def put_status_sets)
qed

lemma md_ok_fetched:
  assumes "md_ok u ctx B" "i < UBI_MAX_STRIPES" "stripe_status u i \<noteq> STRIPE_FETCHED"
  shows "md_ok ((put_status i STRIPE_FETCHED u)\<lparr>stripes_fetched := stripes_fetched u + 1\<rparr>) ctx B"
proof -
  have new: "i \<notin> fetched_set u" using assms(3) by (simp add: fetched_set_def)
  have "card (fetched_set u) \<le> UBI_MAX_STRIPES"
    by (rule card_stripe_set) (auto simp: fetched_set_def)
  then have cnt: "unat (stripes_fetched u + 1) = Suc (unat (stripes_fetched u))"
    using assms(1) by (intro unat_Suc_word [where n = 3000000]) (simp_all add: md_ok_def)
  then have mono: "x \<le> stripes_fetched u \<Longrightarrow> x \<le> stripes_fetched u + 1" for x
    by (simp add: word_le_nat_alt)
  from assms new cnt mono show ?thesis
    by (auto simp: md_ok_def put_status_sets)
qed

lemma md_st_put_status:
  assumes "md_st z u ctx B" "i < UBI_MAX_STRIPES" "z = 0 \<Longrightarrow> stripe_status u i \<noteq> STRIPE_FETCHED" "v \<noteq> STRIPE_FETCHED"
  shows "md_st z (put_status i v u) ctx B"
  using assms md_ok_put_status by (auto simp: md_st_def put_status_sets)

lemma md_st_fetched:
  assumes "md_st z u ctx B" "i < UBI_MAX_STRIPES" "z = 0 \<Longrightarrow> stripe_status u i \<noteq> STRIPE_FETCHED"
  shows "md_st z ((put_status i STRIPE_FETCHED u)\<lparr>stripes_fetched := stripes_fetched u + 1\<rparr>) ctx B"
  using assms md_ok_fetched by (auto simp: md_st_def put_status_sets)

lemma fail_eq:
  assumes "inv_st z oth (add_mset k X) n s"
  shows "ubi_fail_stripe_fetch k s =
    Some (upd_fetch k (\<lambda>sf. sf\<lparr>active := False\<rparr>)
       (s\<lparr>ub := put_status (slot_stripe (ch s) k) STRIPE_FAILED (ub s)\<rparr>))"
    and "write_stripe_io_completion k ok s =
    Some (upd_fetch k (\<lambda>sf. sf\<lparr>active := False\<rparr>)
       (s\<lparr>ub := (put_status (slot_stripe (ch s) k) STRIPE_FETCHED (ub s))
              \<lparr>stripes_fetched := stripes_fetched (ub s) + 1\<rparr>\<rparr>))"
proof -
  have F: "fetch_st z oth (add_mset k X) (ub s) (ch s) (fetch_slots s)"
    using assms by (simp add: inv_st_def)
  note k = fetch_st_slot(2) [OF F] and i = fetch_st_stripe(1) [OF F]
  then have "stripe_valid (stripe_idx (stripe_fetches (ch s) ! k))"
    by (simp add: stripe_valid_def slot_stripe_def)
  with k show "ubi_fail_stripe_fetch k s =
    Some (upd_fetch k (\<lambda>sf. sf\<lparr>active := False\<rparr>)
       (s\<lparr>ub := put_status (slot_stripe (ch s) k) STRIPE_FAILED (ub s)\<rparr>))"
    and "write_stripe_io_completion k ok s =
    Some (upd_fetch k (\<lambda>sf. sf\<lparr>active := False\<rparr>)
       (s\<lparr>ub := (put_status (slot_stripe (ch s) k) STRIPE_FETCHED (ub s))
              \<lparr>stripes_fetched := stripes_fetched (ub s) + 1\<rparr>\<rparr>))"
    by (simp_all add: ubi_fail_stripe_fetch_def write_stripe_io_completion_def
        ubi_set_stripe_status_eq slot_stripe_def)
qed

lemma inv_fail_fetch:
  assumes "inv_st z oth (add_mset k X) n s"
  shows "\<exists>s'. ubi_fail_stripe_fetch k s = Some s' \<and> inv_st z oth X n s'"
proof -
  have F: "fetch_st z oth (add_mset k X) (ub s) (ch s) (fetch_slots s)"
    using assms by (simp add: inv_st_def)
  note i = fetch_st_stripe [OF F]
  show ?thesis
    using assms i
    by (auto simp: fail_eq(1) [OF assms] inv_st_def intro: fetch_ok_deactivate ios_ok_put_status md_st_put_status)
qed

lemma inv_write_stripe_completion:
  assumes "inv_st z oth (add_mset k X) n s"
  shows "\<exists>s'. write_stripe_io_completion k ok s = Some s' \<and> inv_st z oth X n s'"
proof -
  have F: "fetch_st z oth (add_mset k X) (ub s) (ch s) (fetch_slots s)"
    using assms by (simp add: inv_st_def)
  note i = fetch_st_stripe [OF F]
  show ?thesis
    using assms i
    by (auto simp: fail_eq(2) [OF assms] inv_st_def intro: fetch_ok_deactivate ios_ok_put_status md_st_fetched)
qed

lemma inv_complete_fetch:
  assumes I: "inv_st z oth (add_mset k X) n s"
  shows "\<exists>ret s'. ubi_complete_fetch_stripe env k res s = Some (ret, s') \<and> inv_st z oth X n s'"
proof -
  have F: "fetch_st z oth (add_mset k X) (ub s) (ch s) (fetch_slots s)"
    using assms by (simp add: inv_st_def)
  note k = fetch_st_slot(2) [OF F]
  define r where "r = Req_write_stripe k (buf_aligned (stripe_fetches (ch s) ! k))
      (stripe_offset (ub s) (stripe_idx (stripe_fetches (ch s) ! k)) + 8388608) (stripe_nbytes (ub s))"
  obtain ret s1 where sub: "base_submit env r s = (ret, s1)" by (cases "base_submit env r s")
  have rej: "inv_st z oth (add_mset k X) n s1" if "ret \<noteq> 0"
    using that sub I by (auto simp: base_submit_def Let_def split: if_splits)
  have acc: "inv_st z oth X n s1" if "ret = 0"
    using that sub I
    by (auto simp: base_submit_def Let_def r_def inv_st_def fetch_slots_def reads_def ring_def md_st_def md_ok_def
        split: if_splits) (simp_all add: fetch_st_def)
  show ?thesis
    using k inv_fail_fetch [OF I] inv_fail_fetch [OF rej] acc sub
    by (auto simp: ubi_complete_fetch_stripe_def Let_def r_def)
qed

subsection \<open>Starting stripe fetches\<close>

lemma ring_room:
  assumes "inv_gen oth (add_mset k X) n s"
  shows "length (sq s) < UBI_URING_QUEUE_SIZE"
proof -
  have F: "fetch_slots s + add_mset k X = mset_set (act (ch s))" and len: "length (stripe_fetches (ch s)) = 8"
    and R: "size (reads s) + n \<le> 24"
    using assms by (simp_all add: inv_gen_def fetch_ok_def read_ok_def)
  have "card (act (ch s)) \<le> card {..<8::nat}"
    by (rule card_mono) (auto simp: act_def len)
  moreover have "size (fetch_slots s + add_mset k X) = card (act (ch s))"
    unfolding F by simp
  ultimately have "size (fetch_slots s) \<le> 7" by simp
  then have "size (ring s) \<le> 31"
    using R size_ring [of "ring s"] by (simp add: fetch_slots_def reads_def)
  then show ?thesis by (simp add: ring_def)
qed

lemma nth_update_field:
  "(\<And>x. f (g x) = f x) \<Longrightarrow> f (xs[k := g (xs ! k)] ! j) = f (xs ! j)"
  by (cases "k < length xs"; cases "j = k") (simp_all add: list_update_beyond)

lemma inv_buf_aligned:
  assumes "inv_st z oth X n s"
  shows "inv_st z oth X n (upd_fetch k (\<lambda>sf. sf\<lparr>buf_aligned := a\<rparr>) s)"
    and "act (ch (upd_fetch k (\<lambda>sf. sf\<lparr>buf_aligned := a\<rparr>) s)) = act (ch s)"
proof -
  let ?c = "(ch s)\<lparr>stripe_fetches := (stripe_fetches (ch s))[k := (stripe_fetches (ch s) ! k)\<lparr>buf_aligned := a\<rparr>]\<rparr>"
  have fld: "active (stripe_fetches ?c ! j) = active (stripe_fetches (ch s) ! j)"
    "stripe_idx (stripe_fetches ?c ! j) = stripe_idx (stripe_fetches (ch s) ! j)"
    "op_type (stripe_fetches ?c ! j) = op_type (stripe_fetches (ch s) ! j)" for j
    by (simp_all add: nth_update_field [where g = "\<lambda>sf. sf\<lparr>buf_aligned := a\<rparr>"])
  have same: "act ?c = act (ch s)" "slot_stripe ?c = slot_stripe (ch s)"
    unfolding act_def slot_stripe_def fld by simp_all
  then show "act (ch (upd_fetch k (\<lambda>sf. sf\<lparr>buf_aligned := a\<rparr>) s)) = act (ch s)" by simp
  have "fetch_st z oth X (ub s) ?c (fetch_slots s)"
    using assms unfolding inv_st_def fetch_st_def slot_ok_def owned_def same fld by simp
  with assms show "inv_st z oth X n (upd_fetch k (\<lambda>sf. sf\<lparr>buf_aligned := a\<rparr>) s)"
    by (simp add: inv_st_def)
qed

lemma io_uring_submit_ret:
  assumes "uring_ok env" "io_uring_submit env s = (ret, s')"
  shows "0 \<le> ret"
proof -
  have "ret = o_submit env (clock s) (length (sq s))"
    using assms(2) by (auto simp: io_uring_submit_def Let_def split: if_splits)
  with assms(1) show ?thesis by (simp add: uring_ok_def)
qed

lemma io_uring_submit_fails:
  "io_uring_submit env s = (ret, s') \<Longrightarrow> ret < 0 \<Longrightarrow> \<not> submits env"
  by (auto simp: io_uring_submit_def submits_def Let_def not_le split: if_splits)

text \<open>
  Starting a fetch.  It is defined when the ring has an entry left; when \<^verbatim>\<open>io_uring_submit\<close> fails,
  the slot is given up and its entry stays.
\<close>

abbreviation lapses :: "ext_oracle \<Rightarrow> nat \<Rightarrow> nat" where
  "lapses env n \<equiv> if submits env then 0 else n"

lemma fail_fetch_act:
  "ubi_fail_stripe_fetch k s = Some s' \<Longrightarrow> act (ch s') \<subseteq> act (ch s) \<and> sq s' = sq s"
  by (cases "k < length (stripe_fetches (ch s))")
    (auto simp: ubi_fail_stripe_fetch_def act_def bind_eq_Some_conv nth_list_update split: if_splits)

lemma inv_start_fetch:
  assumes I: "inv_st z oth (add_mset k X) n s" and k: "k \<in> act (ch s)"
    and got: "o_get_sqe env (clock s) (length (sq s))"
  shows "\<exists>s'. ubi_start_fetch_stripe env k s = Some s' \<and> inv_st (z + lapses env 1) oth X n s' \<and>
           act (ch s') \<subseteq> act (ch s) \<and> (submits env \<longrightarrow> act (ch s') = act (ch s)) \<and>
           length (sq s') \<le> Suc (length (sq s))"
proof -
  have F: "fetch_st z oth (add_mset k X) (ub s) (ch s) (fetch_slots s)"
    using I by (simp add: inv_st_def)
  note len = fetch_st_slot(2) [OF F]
  let ?sf = "stripe_fetches (ch s) ! k"
  let ?a = "align_buf (buf ?sf) (alignment_bytes (ub s))"
  let ?s1 = "upd_fetch k (\<lambda>sf. sf\<lparr>buf_aligned := ?a\<rparr>) (tick s)"
  let ?e = "Sqe_read k ?a (stripe_nbytes (ub s)) (stripe_offset (ub s) (stripe_idx ?sf))"
  let ?s2 = "?s1\<lparr>sq := sq ?s1 @ [?e]\<rparr>"
  obtain ret s3 where sub: "io_uring_submit env ?s2 = (ret, s3)"
    by (cases "io_uring_submit env ?s2")
  note fr = io_uring_submit_frame [OF sub]
  have I1: "inv_st z oth (add_mset k X) n ?s1"
    by (rule inv_buf_aligned) (use I in simp)
  then have "inv_st z oth X n ?s2"
    by (simp add: inv_st_def fetch_slots_def reads_def ring_def) (simp add: fetch_st_def)
  then have I3: "inv_st z oth X n s3"
    using inv_uring_submit [OF sub] by blast
  have act3: "act (ch s3) = act (ch s)"
    using fr(3) inv_buf_aligned(2) [of z oth "add_mset k X" n "tick s"] I by simp
  have len3: "length (sq s3) \<le> Suc (length (sq s))" using fr(8) by simp
  have "k \<in># fetch_slots s3"
    by (simp add: fetch_slots_def fr(1)) (simp add: ring_def)
  with I3 k act3 have "inv_st (Suc z) oth (add_mset k X) n s3"
    by (simp add: inv_st_def md_st_def fetch_st_leave)
  from inv_fail_fetch [OF this] obtain s4 where
    s4: "ubi_fail_stripe_fetch k s3 = Some s4" "inv_st (Suc z) oth X n s4" by blast
  note s4' = fail_fetch_act [OF s4(1)]
  show ?thesis
  proof (cases "ret < 0")
    case True
    with io_uring_submit_fails [OF sub] have "\<not> submits env" .
    with True show ?thesis
      using len got sub s4 s4' act3 len3 by (simp add: ubi_start_fetch_stripe_def Let_def)
  next
    case False
    then show ?thesis
      using len got sub act3 len3 inv_st_mono [OF I3] by (simp add: ubi_start_fetch_stripe_def Let_def)
  qed
qed

lemma inv_start_fetch_ok:
  assumes I: "inv_gen oth (add_mset k X) n s" and env: "uring_ok env"
  shows "\<exists>s'. ubi_start_fetch_stripe env k s = Some s' \<and> inv_gen oth X n s' \<and> act (ch s') = act (ch s)"
proof -
  have "fetch_ok oth (add_mset k X) (ub s) (ch s) (fetch_slots s)" using I by (simp add: inv_st_def)
  from inv_start_fetch [OF I fetch_ok_active(1) [OF this], of env] ring_room [OF I] env show ?thesis
    by (auto simp: uring_ok_iff uring_doc_def)
qed

lemma start_fetch_got:
  "ubi_start_fetch_stripe env k s = Some s' \<Longrightarrow> o_get_sqe env (clock s) (length (sq s))"
  by (auto simp: ubi_start_fetch_stripe_def Let_def bind_eq_Some_conv split: if_splits)

lemma inv_ch_stripes_fetched [simp]:
  "inv_st z oth X n (s\<lparr>ch := (ch s)\<lparr>ch_stripes_fetched := w\<rparr>\<rparr>) = inv_st z oth X n s"
  by (simp add: inv_st_def)

text \<open>
  The loop over the free slots, one round at a time: what it does to the invariant, and when it
  is defined.
\<close>

lemma start_fetches_Cons:
  assumes I: "inv_st z oth X n s" and ks: "distinct (k # ks)" "\<forall>k \<in> set (k # ks). k < 8 \<and> k \<notin> act (ch s)"
    and q: "head (stripe_fetch_queue (ch s)) \<noteq> tail (stripe_fetch_queue (ch s))"
  obtains s1 where
    "start_fetches env (k # ks) s = do { s2 \<leftarrow> ubi_start_fetch_stripe env k s1;
       start_fetches env ks (s2\<lparr>ch := (ch s2)\<lparr>ch_stripes_fetched := ch_stripes_fetched (ch s2) + 1\<rparr>\<rparr>) }"
    "inv_st z oth (add_mset k X) n s1" "act (ch s1) = insert k (act (ch s))" "sq s1 = sq s"
proof -
  let ?q = "stripe_fetch_queue (ch s)"
  have F: "fetch_st z oth X (ub s) (ch s) (fetch_slots s)"
    using I by (simp add: inv_st_def)
  then have q0: "queue_ok ?q" and len: "length (stripe_fetches (ch s)) = 8"
    by (simp_all add: fetch_st_def)
  obtain idx rest where ql: "queue_list ?q = idx # rest"
    using fq.empty_law [OF q0] q by (cases "queue_list ?q") (auto simp: stripe_queue_empty_def)
  then obtain q' where q': "dequeue_stripe ?q = Some (idx, q')" "queue_ok q'" "queue_list q' = rest"
    using fq.deq_law [OF q0] by blast
  let ?x = "(stripe_fetches (ch s) ! k)\<lparr>stripe_idx := idx, active := True, op_type := UBI_STRIPE_FETCH\<rparr>"
  let ?s1 = "s\<lparr>ch := (ch s)\<lparr>stripe_fetch_queue := q', stripe_fetches := (stripe_fetches (ch s))[k := ?x]\<rparr>\<rparr>"
  have "fetch_st z oth (add_mset k X) (ub s) (ch ?s1) (fetch_slots s)"
    using fetch_ok_activate [OF F _ _ ql q'(2,3), of k ?x] ks(2) len by simp
  then have "inv_st z oth (add_mset k X) n ?s1"
    using I by (simp add: inv_st_def)
  moreover have "act (ch ?s1) = insert k (act (ch s))"
    using act_upd [of k "(ch s)\<lparr>stripe_fetch_queue := q'\<rparr>" ?x] len ks(2) by simp
  ultimately show ?thesis
    by (intro that [of ?s1]) (use q q'(1) in \<open>simp_all add: Let_def\<close>)
qed

lemma inv_start_fetches:
  assumes "inv_st z oth X n s" "distinct ks" "\<forall>k \<in> set ks. k < 8 \<and> k \<notin> act (ch s)"
    and "start_fetches env ks s = Some s'"
  shows "inv_st (z + lapses env (length ks)) oth X n s'"
  using assms
proof (induction ks arbitrary: s z)
  case (Cons k ks)
  show ?case
  proof (cases "head (stripe_fetch_queue (ch s)) = tail (stripe_fetch_queue (ch s))")
    case True
    then show ?thesis using Cons.prems inv_st_mono by auto
  next
    case False
    obtain s1 where s1: "start_fetches env (k # ks) s = do { s2 \<leftarrow> ubi_start_fetch_stripe env k s1;
       start_fetches env ks (s2\<lparr>ch := (ch s2)\<lparr>ch_stripes_fetched := ch_stripes_fetched (ch s2) + 1\<rparr>\<rparr>) }"
      "inv_st z oth (add_mset k X) n s1" "act (ch s1) = insert k (act (ch s))" "sq s1 = sq s"
      by (rule start_fetches_Cons [OF Cons.prems(1-3) False, of env])
    then obtain s2 where s2: "ubi_start_fetch_stripe env k s1 = Some s2"
      "start_fetches env ks (s2\<lparr>ch := (ch s2)\<lparr>ch_stripes_fetched := ch_stripes_fetched (ch s2) + 1\<rparr>\<rparr>) = Some s'"
      using Cons.prems(4) by (auto simp: bind_eq_Some_conv)
    have "inv_st (z + lapses env 1) oth X n s2" "act (ch s2) \<subseteq> insert k (act (ch s))"
      using inv_start_fetch [OF s1(2) _ start_fetch_got [OF s2(1)]] s1(3) s2(1) by auto
    then have "inv_st (z + lapses env 1 + lapses env (length ks)) oth X n s'"
      using Cons.prems(2,3) s2(2) by (intro Cons.IH [OF _ _ _ s2(2)]) auto
    then show ?thesis by (cases "submits env") simp_all
  qed
qed auto

lemma start_fetches_defined:
  assumes "inv_st z oth X n s" "uring_doc env" "distinct ks" "\<forall>k \<in> set ks. k < 8 \<and> k \<notin> act (ch s)"
    and "length (sq s) + length ks \<le> UBI_URING_QUEUE_SIZE \<or> z = 0 \<and> submits env"
  shows "\<exists>s'. start_fetches env ks s = Some s'"
  using assms
proof (induction ks arbitrary: s z)
  case (Cons k ks)
  show ?case
  proof (cases "head (stripe_fetch_queue (ch s)) = tail (stripe_fetch_queue (ch s))")
    case False
    obtain s1 where s1: "start_fetches env (k # ks) s = do { s2 \<leftarrow> ubi_start_fetch_stripe env k s1;
       start_fetches env ks (s2\<lparr>ch := (ch s2)\<lparr>ch_stripes_fetched := ch_stripes_fetched (ch s2) + 1\<rparr>\<rparr>) }"
      "inv_st z oth (add_mset k X) n s1" "act (ch s1) = insert k (act (ch s))" "sq s1 = sq s"
      by (rule start_fetches_Cons [OF Cons.prems(1,3,4) False, of env])
    have "length (sq s1) < UBI_URING_QUEUE_SIZE"
      using Cons.prems(5) ring_room [of oth k X n s1] s1(2,4) by auto
    then have "o_get_sqe env (clock s1) (length (sq s1))"
      using Cons.prems(2) by (simp add: uring_doc_def)
    from inv_start_fetch [OF s1(2) _ this] obtain s2 where
      s2: "ubi_start_fetch_stripe env k s1 = Some s2" "inv_st (z + lapses env 1) oth X n s2"
      "act (ch s2) \<subseteq> insert k (act (ch s))" "length (sq s2) \<le> Suc (length (sq s))"
      using s1(3,4) by auto
    have "\<exists>s'. start_fetches env ks (s2\<lparr>ch := (ch s2)\<lparr>ch_stripes_fetched := ch_stripes_fetched (ch s2) + 1\<rparr>\<rparr>) = Some s'"
      by (rule Cons.IH [of "z + lapses env 1"]) (use Cons.prems(2-5) s2(2-4) in auto)
    then show ?thesis using s1(1) s2(1) by auto
  qed simp
qed simp

subsection \<open>Serving requests\<close>

lemma inv_set_ctx:
  assumes "inv_st z oth X n s" "io_op_type x = UBI_BDEV_IO"
    "z = 0 \<Longrightarrow> io_stripes_fetched x \<le> stripes_fetched (ub s) \<or> io_stripes_fetched x = io_stripes_fetched (driver_ctx s i)"
  shows "inv_st z oth X n (s\<lparr>driver_ctx := (driver_ctx s)(i := x)\<rparr>)"
  using assms by (auto simp: inv_st_def read_ok_def md_st_def md_ok_def)

lemma inv_flush_request:
  assumes "inv_st z oth X n s"
  shows "inv_st z oth X n (ubi_submit_flush_request env b s)"
proof -
  obtain ret s1 where sub: "base_submit env (Req_data_flush b
      (block_offset (driver_ctx s (io_id b)) + ucast (data_offset_blocks (ub s)))
      (block_count (driver_ctx s (io_id b)))) s = (ret, s1)"
    by (metis surj_pair)
  then have "inv_st z oth X n s1"
    by (rule inv_base_submit [OF assms]) simp_all
  with sub assms show ?thesis
    by (simp add: ubi_submit_flush_request_def Let_def)
qed

lemma inv_data_flush_completion:
  assumes I: "inv_st z oth X n s"
  shows "\<exists>s'. ubi_data_flush_completion env b success s = Some s' \<and> inv_st z oth X n s'"
proof -
  let ?x = "(driver_ctx s (io_id b))\<lparr>io_stripes_fetched := stripes_fetched (ub s)\<rparr>"
  let ?s1 = "s\<lparr>driver_ctx := (driver_ctx s)(io_id b := ?x)\<rparr>"
  have I1: "inv_st z oth X n ?s1"
    using I by (auto simp: inv_st_def read_ok_def md_st_def md_ok_def)
  obtain m where m: "md_blocks (ub s) = Some m"
    using I by (auto simp: md_blocks_def inv_st_def conf_ok_def)
  obtain ret s2 where sub: "base_submit env (Req_md_write b (metadata (ub s)) 0 m) ?s1 = (ret, s2)"
    by (metis surj_pair)
  then have "inv_st z oth X n s2"
    by (rule inv_base_submit [OF I1]) simp_all
  with sub I m show ?thesis
    by (simp add: ubi_data_flush_completion_def Let_def)
qed

lemma inv_metadata_write_completion:
  assumes I: "inv_st z oth X n s"
    and b: "z = 0 \<Longrightarrow> io_stripes_fetched (driver_ctx s (io_id b)) \<le> stripes_fetched (ub s)"
  shows "\<exists>s'. ubi_metadata_write_completion env b success s = Some s' \<and> inv_st z oth X n s'"
proof -
  obtain m where m: "md_blocks (ub s) = Some m"
    using I by (auto simp: md_blocks_def inv_st_def conf_ok_def)
  obtain ret s2 where sub: "base_submit env (Req_md_flush b 0 m) s = (ret, s2)"
    by (metis surj_pair)
  have "inv_st z oth X n s2"
    by (rule inv_base_submit [OF I sub]) (use b in simp_all)
  with sub I m show ?thesis
    by (simp add: ubi_metadata_write_completion_def)
qed

lemma inv_metadata_flush_completion:
  assumes I: "inv_st z oth X n s"
    and b: "z = 0 \<Longrightarrow> io_stripes_fetched (driver_ctx s (io_id b)) \<le> stripes_fetched (ub s)"
  shows "inv_st z oth X n (ubi_metadata_flush_completion b success s)"
proof -
  have "inv_st z oth X n (s\<lparr>ub := (ub s)\<lparr>stripes_flushed := io_stripes_fetched (driver_ctx s (io_id b))\<rparr>\<rparr>)"
    using I b by (simp add: inv_st_def md_st_def md_ok_def)
  with I show ?thesis
    by (simp add: ubi_metadata_flush_completion_def Let_def)
qed

end
