(* ===== verification/Ubi_Poll_Inv.thy ===== *)
theory Ubi_Poll_Inv
  imports Ubi_Fetch_Inv
begin

section \<open>The invariant under the poller, submissions and completions\<close>

text \<open>
  The loops of \<^verbatim>\<open>ubi_io_poll\<close> and \<^verbatim>\<open>ubi_complete_image_io\<close>, \<^verbatim>\<open>ubi_submit_request\<close> and the callbacks
  of the base bdev, each preserving the invariant.  All but the poller are defined wherever it
  holds; the poller needs entries of the ring for the fetches it starts.
\<close>

subsection \<open>Dispatching requests\<close>

lemma complete_frame [simp]:
  "ub (spdk_bdev_io_complete b ok s) = ub s" "ch (spdk_bdev_io_complete b ok s) = ch s"
  "inflight (spdk_bdev_io_complete b ok s) = inflight s" "sq (spdk_bdev_io_complete b ok s) = sq s"
  "driver_ctx (spdk_bdev_io_complete b ok s) = driver_ctx s"
  "base_reqs (spdk_bdev_io_complete b ok s) = base_reqs s"
  "buf_wait (spdk_bdev_io_complete b ok s) = buf_wait s"
  by (simp_all add: spdk_bdev_io_complete_def)

lemma complete_io_frame [simp]:
  "ub (ubi_complete_io b ok s) = ub s" "ch_io (ch (ubi_complete_io b ok s)) = ch_io (ch s)"
  "inflight (ubi_complete_io b ok s) = inflight s" "sq (ubi_complete_io b ok s) = sq s"
  "driver_ctx (ubi_complete_io b ok s) = driver_ctx s"
  "base_reqs (ubi_complete_io b ok s) = base_reqs s"
  "buf_wait (ubi_complete_io b ok s) = buf_wait s"
  "stripe_fetches (ch (ubi_complete_io b ok s)) = stripe_fetches (ch s)"
  "stripe_fetch_queue (ch (ubi_complete_io b ok s)) = stripe_fetch_queue (ch s)"
  by (simp_all add: ubi_complete_io_def)

lemma get_buf_frame:
  assumes "get_buf_for_read_cb env b success s = Some s'"
  shows "ub s' = ub s" "ch_io (ch s') = ch_io (ch s)" "inflight s' = inflight s"
  using assms
  by (auto simp: get_buf_for_read_cb_def ubi_submit_read_request_def base_submit_def Let_def
      bind_eq_Some_conv split: if_splits)

lemma flush_request_frame [simp]:
  "ub (ubi_submit_flush_request env b s) = ub s"
  "ch (ubi_submit_flush_request env b s) = ch s"
  "inflight (ubi_submit_flush_request env b s) = inflight s"
  by (auto simp: ubi_submit_flush_request_def base_submit_def Let_def)

lemma dispatch_frame:
  assumes "ubi_dispatch_io env b s = Some s'"
  shows "ub s' = ub s" "ch_io (ch s') = ch_io (ch s)"
  using assms get_buf_frame
  by (auto simp: ubi_dispatch_io_def ubi_submit_write_request_def base_submit_def Let_def
      split: spdk_bdev_io_type.splits option.splits if_splits dest!: get_buf_frame(1,2))

lemma inv_dispatch:
  assumes I: "inv_st z oth X 0 s" and b: "io_ok (ub s) b"
    and room: "io_type b = IO_READ \<Longrightarrow> active_reads (ch s) < UBI_MAX_CONCURRENT_READS"
  shows "\<exists>s'. ubi_dispatch_io env b s = Some s' \<and> inv_st z oth X 0 s'"
proof -
  let ?x = "(driver_ctx s (io_id b))\<lparr>block_offset := offset_blocks b, block_count := num_blocks b,
              io_op_type := UBI_BDEV_IO\<rparr>"
  let ?s1 = "s\<lparr>driver_ctx := (driver_ctx s)(io_id b := ?x)\<rparr>"
  have I1: "inv_st z oth X 0 ?s1"
    by (rule inv_set_ctx [OF I]) simp_all
  show ?thesis
  proof (cases "io_type b")
    case IO_READ
    let ?s2 = "?s1\<lparr>ch := (ch ?s1)\<lparr>active_reads := active_reads (ch s) + 1,
                       blocks_read := blocks_read (ch s) + num_blocks b\<rparr>\<rparr>"
    have "unat (active_reads (ch s)) < 24"
      using room IO_READ by (simp add: word_less_nat_alt)
    then have "unat (active_reads (ch s) + 1) = Suc (unat (active_reads (ch s)))"
      by (intro unat_Suc_word [where n = 24]) simp_all
    with I1 \<open>unat (active_reads (ch s)) < 24\<close> have I2: "inv_st z oth X (Suc 0) ?s2"
      by (simp add: inv_st_def read_ok_def)
    then have "inv_st z oth X 0 (tick (?s2\<lparr>buf_wait := buf_wait ?s2 @ [b]\<rparr>))"
      using IO_READ b by (auto simp: inv_st_def read_ok_def reads_def ring_def)
    moreover have "\<exists>s'. get_buf_for_read_cb env b success (tick ?s2) = Some s' \<and> inv_st z oth X 0 s'" for success
      using I2 IO_READ b by (intro inv_get_buf) simp_all
    ultimately show ?thesis
      using IO_READ by (auto simp: ubi_dispatch_io_def Let_def split: option.split)
  next
    case IO_WRITE
    let ?s2 = "?s1\<lparr>ch := (ch ?s1)\<lparr>blocks_written := blocks_written (ch s) + num_blocks b\<rparr>\<rparr>"
    obtain ret s3 where sub: "ubi_submit_write_request env b ?s2 = (ret, s3)"
      by (metis surj_pair)
    have I2: "inv_st z oth X 0 ?s2" using I1 by (simp add: inv_st_def)
    have "inv_st z oth X 0 s3"
      by (rule inv_base_submit [OF I2 sub [unfolded ubi_submit_write_request_def Let_def]])
        (use IO_WRITE in simp_all)
    then show ?thesis
      using IO_WRITE sub by (simp add: ubi_dispatch_io_def Let_def)
  qed (use I1 inv_flush_request [OF I1] in \<open>simp_all add: ubi_dispatch_io_def Let_def\<close>)
qed

lemma io_verdict_eq:
  assumes "conf_ok u" "io_ok u b"
  shows "io_verdict u b = Some
     (if io_type b \<noteq> IO_FLUSH \<and> offset_blocks b < image_block_count u then
        (case stripe_status u (stripe_of u b) of
           STRIPE_FAILED \<Rightarrow> Io_stripe_failed
         | STRIPE_INFLIGHT \<Rightarrow> Io_wait
         | STRIPE_FETCHED \<Rightarrow> Io_serve
         | STRIPE_NOT_FETCHED \<Rightarrow> if io_type b \<noteq> IO_READ \<or> copy_on_read u then Io_bug else Io_serve)
      else Io_serve)"
  by (auto simp: io_verdict_def get_status_io [OF assms] split: stripe_status.split)

lemma no_bug_verdict:
  assumes "conf_ok u" "io_ok u b" "not_forgotten u b"
  shows "io_verdict u b \<noteq> Some Io_bug"
proof -
  have "io_type b = IO_READ \<or> io_type b = IO_WRITE \<or> io_type b = IO_FLUSH"
    using assms(2) by (auto simp: io_ok_def ubi_io_type_supported_def split: spdk_bdev_io_type.splits)
  with assms show ?thesis
    by (auto simp: io_verdict_eq not_forgotten_def split: stripe_status.splits)
qed

lemma inv_pop_io:
  "inv_st z oth X n s \<Longrightarrow> ch_io (ch s) = b # bs \<Longrightarrow> inv_st z oth X n (s\<lparr>ch := (ch s)\<lparr>ch_io := bs\<rparr>\<rparr>)"
  by (simp add: inv_st_def ios_ok_def)

lemma inv_serve_ios:
  assumes "inv_st z oth X 0 s" "ch_io (ch s) = bs"
  shows "\<exists>s'. serve_ios env bs s = Some s' \<and> inv_st z oth X 0 s'"
  using assms
proof (induction bs arbitrary: s)
  case (Cons b bs)
  let ?s1 = "s\<lparr>ch := (ch s)\<lparr>ch_io := bs\<rparr>\<rparr>"
  have I1: "inv_st z oth X 0 ?s1" by (rule inv_pop_io [OF Cons.prems])
  have conf: "conf_ok (ub s)" and b: "io_ok (ub s) b"
    using Cons.prems by (simp_all add: inv_st_def ios_ok_def)
  then obtain v where v: "io_verdict (ub s) b = Some v"
    by (simp add: io_verdict_eq)
  show ?case
  proof (cases "io_type b = IO_READ \<and> active_reads (ch s) \<ge> UBI_MAX_CONCURRENT_READS")
    case True
    then show ?thesis using Cons.prems by auto
  next
    case False
    then have room: "active_reads (ch ?s1) < UBI_MAX_CONCURRENT_READS" if "io_type b = IO_READ"
      using that by auto
    have fail: "\<exists>s'. serve_ios env bs (spdk_bdev_io_complete b False ?s1) = Some s' \<and> inv_st z oth X 0 s'"
      using I1 by (intro Cons.IH) simp_all
    obtain s2 where s2: "ubi_dispatch_io env b ?s1 = Some s2" "inv_st z oth X 0 s2"
      using inv_dispatch [OF I1, of b env] b room by auto
    then have "\<exists>s'. serve_ios env bs s2 = Some s' \<and> inv_st z oth X 0 s'"
      using dispatch_frame(2) [OF s2(1)] by (intro Cons.IH) simp_all
    with fail s2 False v Cons.prems show ?thesis
      by (cases v) (auto simp: Let_def)
  qed
qed simp

subsection \<open>Reaping\<close>

lemma complete_fetch_inflight:
  assumes "ubi_complete_fetch_stripe env k res s = Some (ret, s')"
  shows "inflight s' = inflight s"
  using assms
  by (auto simp: ubi_complete_fetch_stripe_def ubi_fail_stripe_fetch_def base_submit_def Let_def
      bind_eq_Some_conv split: if_splits)

lemma inv_remove_sqe:
  assumes I: "inv_st z oth X n s" and e: "e \<in> set (inflight s)"
  shows "inv_st z oth (if is_Sqe_read e then add_mset (sqe_slot e) X else X)
           (if is_Sqe_read e then n else Suc n) (s\<lparr>inflight := remove1 e (inflight s)\<rparr>)"
proof -
  let ?s = "s\<lparr>inflight := remove1 e (inflight s)\<rparr>"
  have ring: "ring s = add_mset e (ring ?s)"
    using e by (simp add: ring_def mset_remove1)
  then have F: "fetch_slots s = (if is_Sqe_read e then add_mset (sqe_slot e) (fetch_slots ?s) else fetch_slots ?s)"
    and R: "reads s = (if is_Sqe_read e then reads ?s else add_mset (sqe_io e) (reads ?s))"
    by (cases e; simp add: fetch_slots_def reads_def)+
  show ?thesis
    using I by (auto simp: inv_st_def F R fetch_st_def read_ok_def)
qed

lemma inv_complete_cqes:
  assumes "inv_st z oth X n s" "mset (map fst cqes) \<subseteq># mset (inflight s)"
  shows "\<exists>ret' s'. ubi_complete_cqes env cqes ret s = Some (ret', s') \<and> inv_st z oth X n s'"
  using assms
proof (induction cqes arbitrary: s ret)
  case (Cons c cqes)
  obtain e res where c: "c = (e, res)" by (cases c)
  let ?s = "s\<lparr>inflight := remove1 e (inflight s)\<rparr>"
  have e: "e \<in> set (inflight s)"
    using Cons.prems(2) c by (simp add: insert_subset_eq_iff)
  have rest: "mset (map fst cqes) \<subseteq># mset (inflight ?s)"
    using Cons.prems(2) c e by (simp add: insert_subset_eq_iff mset_remove1)
  note I = inv_remove_sqe [OF Cons.prems(1) e]
  show ?case
  proof (cases e)
    case (Sqe_read k a m off)
    then have I1: "inv_st z oth (add_mset k X) n ?s" using I by simp
    then have F: "fetch_st z oth (add_mset k X) (ub ?s) (ch ?s) (fetch_slots ?s)"
      by (simp add: inv_st_def)
    note k = fetch_st_slot(2) [OF F]
    have op: "op_type (stripe_fetches (ch ?s) ! k) = UBI_STRIPE_FETCH"
      using fetch_st_slot(1) [OF F] by (simp add: slot_ok_def)
    obtain r2 s2 where s2: "ubi_complete_fetch_stripe env k res ?s = Some (r2, s2)" "inv_st z oth X n s2"
      using inv_complete_fetch [OF I1] by blast
    moreover have "\<exists>ret' s'. ubi_complete_cqes env cqes r2 s2 = Some (ret', s') \<and> inv_st z oth X n s'"
      using s2 rest complete_fetch_inflight [OF s2(1)] by (intro Cons.IH) simp_all
    ultimately show ?thesis
      using c Sqe_read k op by (simp add: Let_def)
  next
    case (Sqe_readv b off)
    then have I1: "inv_st z oth X (Suc n) ?s" using I by simp
    have "b \<in># reads s"
      using e Sqe_readv by (auto simp: reads_def ring_def ring_reads_def intro!: rev_image_eqI)
    then have b: "io_type b = IO_READ" "io_op_type (driver_ctx s (io_id b)) = UBI_BDEV_IO"
      using Cons.prems(1) by (auto simp: inv_st_def read_ok_def)
    obtain r2 s2 where s2: "ubi_complete_read_from_image b res ?s = (r2, s2)" by (metis surj_pair)
    then have s2': "inv_st z oth X n s2" "inflight s2 = inflight ?s"
      using inv_complete_io [OF I1 b(1)] by (auto simp: ubi_complete_read_from_image_def split: if_splits)
    then have "\<exists>ret' s'. ubi_complete_cqes env cqes r2 s2 = Some (ret', s') \<and> inv_st z oth X n s'"
      using rest by (intro Cons.IH) simp_all
    then show ?thesis
      using c Sqe_readv b s2 by (simp add: Let_def)
  qed
qed simp

subsection \<open>The poller\<close>

lemma free_slots:
  "distinct (free_stripe_fetches sfs)"
  "k \<in> set (free_stripe_fetches (stripe_fetches c)) \<longleftrightarrow> k < length (stripe_fetches c) \<and> k \<notin> act c"
  by (auto simp: free_stripe_fetches_def act_def)

lemma inv_submit_image_reads:
  assumes "inv_st z oth X n s"
  shows "inv_st z oth X n (submit_image_reads env s)"
proof -
  obtain ret s1 where sub: "io_uring_submit env s = (ret, s1)" by (metis surj_pair)
  then have I1: "inv_st z oth X n s1" using assms inv_uring_submit by blast
  then have "inv_st z oth X n (s1\<lparr>ch := (ch s1)\<lparr>has_reads := 0\<rparr>\<rparr>)" by (simp add: inv_st_def)
  with I1 sub assms show ?thesis by (simp add: submit_image_reads_def)
qed

text \<open>The poller up to the point where it starts fetches, and from there on.\<close>

lemma complete_cqes_sq:
  "ubi_complete_cqes env cqes ret s = Some (ret', s') \<Longrightarrow> sq s' = sq s"
proof (induction cqes arbitrary: ret s)
  case (Cons c cqes)
  have fetch: "ubi_complete_fetch_stripe env k res t = Some (r, t') \<Longrightarrow> sq t' = sq t" for k res t r t'
    by (auto simp: ubi_complete_fetch_stripe_def base_submit_def Let_def bind_eq_Some_conv
        dest!: fail_fetch_act split: if_splits)
  obtain e res where "c = (e, res)" by (cases c)
  with Cons show ?case
    by (cases e) (auto simp: Let_def bind_eq_Some_conv ubi_complete_read_from_image_def
        dest!: fetch split: if_splits prod.splits)
qed simp

lemma inv_poll_reap:
  assumes I: "inv_st z oth {#} 0 s"
    and batch: "\<And>cqes. batch = Inr cqes \<Longrightarrow> mset (map fst cqes) \<subseteq># mset (inflight s)"
  obtains ret s1 where "ubi_complete_image_io env batch s = Some (ret, s1)" "inv_st z oth {#} 0 s1"
    "sq s1 = sq s" "\<forall>k \<in> set (free_stripe_fetches (stripe_fetches (ch s1))). k < 8 \<and> k \<notin> act (ch s1)"
    "length (free_stripe_fetches (stripe_fetches (ch s1))) \<le> 8"
proof -
  obtain ret s1 where s1: "ubi_complete_image_io env batch s = Some (ret, s1)" "inv_st z oth {#} 0 s1" "sq s1 = sq s"
  proof (cases batch)
    case (Inl err)
    then show ?thesis using that I by (cases "err = - EAGAIN") (auto simp: ubi_complete_image_io_def)
  next
    case (Inr cqes)
    then show ?thesis
      using that inv_complete_cqes [OF I batch [OF Inr]] complete_cqes_sq by (force simp: ubi_complete_image_io_def)
  qed
  then have len: "length (stripe_fetches (ch s1)) = 8"
    by (simp add: inv_st_def fetch_st_def)
  have "length (free_stripe_fetches (stripe_fetches (ch s1))) \<le> 8"
    using length_filter_le [of _ "[0..<8]"] by (simp add: free_stripe_fetches_def len)
  with s1 len show ?thesis
    by (intro that [of ret s1]) (auto simp: free_slots(2))
qed

lemma inv_poll:
  assumes I: "inv_st z oth {#} 0 s"
    and batch: "\<And>cqes. batch = Inr cqes \<Longrightarrow> mset (map fst cqes) \<subseteq># mset (inflight s)"
    and run: "ubi_io_poll env batch s = Some (r, s')"
  shows "inv_st (z + lapses env 8) oth {#} 0 s'"
proof -
  obtain ret s1 where s1: "ubi_complete_image_io env batch s = Some (ret, s1)" "inv_st z oth {#} 0 s1"
    "sq s1 = sq s" "\<forall>k \<in> set (free_stripe_fetches (stripe_fetches (ch s1))). k < 8 \<and> k \<notin> act (ch s1)"
    "length (free_stripe_fetches (stripe_fetches (ch s1))) \<le> 8"
    using inv_poll_reap [OF I batch] by metis
  let ?ks = "free_stripe_fetches (stripe_fetches (ch s1))"
  consider "s' = s1" | s2 s3 where "start_fetches env ?ks s1 = Some s2" "serve_ios env (ch_io (ch s2)) s2 = Some s3"
      "s' = submit_image_reads env s3"
    using run s1(1) by (auto simp: ubi_io_poll_def Let_def bind_eq_Some_conv split: if_splits)
  then show ?thesis
  proof cases
    case 1
    then show ?thesis using inv_st_mono [OF s1(2)] by simp
  next
    case (2 s2 s3)
    have "inv_st (z + lapses env (length ?ks)) oth {#} 0 s2"
      by (rule inv_start_fetches [OF s1(2) free_slots(1) s1(4) 2(1)])
    then have "inv_st (z + lapses env 8) oth {#} 0 s2"
      by (rule inv_st_mono) (use s1(5) in simp)
    from inv_serve_ios [OF this refl, of env] 2(2) have "inv_st (z + lapses env 8) oth {#} 0 s3" by simp
    then show ?thesis using inv_submit_image_reads 2(3) by blast
  qed
qed

lemma poll_defined:
  assumes I: "inv_st z oth {#} 0 s" and env: "uring_doc env"
    and batch: "\<And>cqes. batch = Inr cqes \<Longrightarrow> mset (map fst cqes) \<subseteq># mset (inflight s)"
    and room: "length (sq s) + 8 \<le> UBI_URING_QUEUE_SIZE \<or> z = 0 \<and> submits env"
  shows "\<exists>r s'. ubi_io_poll env batch s = Some (r, s')"
proof -
  obtain ret s1 where s1: "ubi_complete_image_io env batch s = Some (ret, s1)" "inv_st z oth {#} 0 s1"
    "sq s1 = sq s" "\<forall>k \<in> set (free_stripe_fetches (stripe_fetches (ch s1))). k < 8 \<and> k \<notin> act (ch s1)"
    "length (free_stripe_fetches (stripe_fetches (ch s1))) \<le> 8"
    using inv_poll_reap [OF I batch] by metis
  let ?ks = "free_stripe_fetches (stripe_fetches (ch s1))"
  obtain s2 where s2: "start_fetches env ?ks s1 = Some s2"
    using start_fetches_defined [OF s1(2) env free_slots(1) s1(4)] room s1(3,5) by auto
  have "inv_st (z + lapses env (length ?ks)) oth {#} 0 s2"
    by (rule inv_start_fetches [OF s1(2) free_slots(1) s1(4) s2])
  from inv_serve_ios [OF this refl] obtain s3 where "serve_ios env (ch_io (ch s2)) s2 = Some s3" by blast
  then show ?thesis using s1(1) s2 by (simp add: ubi_io_poll_def Let_def)
qed

lemma inv_insert_io:
  "inv_st z oth X n s \<Longrightarrow> io_ok (ub s) b \<Longrightarrow> not_forgotten (ub s) b \<Longrightarrow> inv_st z oth X n (insert_io b s)"
  by (simp add: inv_st_def ios_ok_def insert_io_def)

lemma inv_submit_request:
  assumes I: "inv_st z oth X n s" and b: "io_ok (ub s) b"
  shows "\<exists>s'. ubi_submit_request b s = Some s' \<and> inv_st z oth X n s'"
proof -
  have conf: "conf_ok (ub s)" and F: "fetch_st z oth X (ub s) (ch s) (fetch_slots s)"
    using I by (simp_all add: inv_st_def)
  let ?i = "ucast (block_stripe (ub s) (offset_blocks b)) :: i32"
  note ix = stripe_of_index [OF conf b] and bound = stripe_of_bound [OF conf b]
  note status = get_status_io [OF conf b]
  show ?thesis
  proof (cases "(io_type b = IO_WRITE \<or> io_type b = IO_READ \<and> copy_on_read (ub s)) \<and>
      offset_blocks b < image_block_count (ub s) \<and>
      stripe_status (ub s) (stripe_of (ub s) b) = STRIPE_NOT_FETCHED")
    case True
    then have new: "stripe_of (ub s) b < image_stripes (ub s)" "stripe_of (ub s) b \<notin> inflight_set (ub s)"
      and none: "stripe_status (ub s) (stripe_of (ub s) b) = STRIPE_NOT_FETCHED"
      by (auto simp: stripe_of_image inflight_set_def)
    have "queue_ok (stripe_fetch_queue (ch s))" using F by (simp add: fetch_st_def)
    moreover have "length (queue_list (stripe_fetch_queue (ch s))) < 32767"
      using queued_bound [OF F conf new] by simp
    ultimately obtain q where q: "enqueue_stripe (stripe_fetch_queue (ch s)) ?i = Some q" "queue_ok q"
      "queue_list q = queue_list (stripe_fetch_queue (ch s)) @ [?i]"
      using fq.enq_law by blast
    let ?u = "put_status (stripe_of (ub s) b) STRIPE_INFLIGHT (ub s)"
    let ?s1 = "s\<lparr>ub := ?u, ch := (ch s)\<lparr>stripe_fetch_queue := q\<rparr>\<rparr>"
    have "fetch_st z oth X ?u ((ch s)\<lparr>stripe_fetch_queue := q\<rparr>) (fetch_slots s)"
      using fetch_ok_enqueue [OF F, of ?i q] new none q(2,3) bound by (simp add: ix)
    moreover have "md_st z ?u (driver_ctx s) (mset (base_reqs s))"
      using I none bound by (intro md_st_put_status) (simp_all add: inv_st_def)
    ultimately have I1: "inv_st z oth X n ?s1"
      using I by (simp add: inv_st_def ios_ok_put_status)
    have "inv_st z oth X n (insert_io b ?s1)"
      by (rule inv_insert_io [OF I1]) (use b in \<open>simp_all add: not_forgotten_def\<close>)
    with True status q(1) ix b show ?thesis
      by (auto simp: ubi_submit_request_def Let_def ubi_set_stripe_status_eq io_ok_def)
  next
    case False
    then have nf: "not_forgotten (ub s) b"
      by (auto simp: not_forgotten_def)
    from inv_insert_io [OF I b nf] False status show ?thesis
      using I by (auto simp: ubi_submit_request_def Let_def)
  qed
qed

lemma inv_remove_base:
  assumes I: "inv_st z oth X n s" and r: "r \<in> set (base_reqs s)"
  shows "inv_st z oth (if is_Req_write_stripe r then add_mset (req_slot r) X else X)
           (if is_Req_readv r then Suc n else n) (s\<lparr>base_reqs := remove1 r (base_reqs s)\<rparr>)"
proof -
  let ?s = "s\<lparr>base_reqs := remove1 r (base_reqs s)\<rparr>"
  have B: "mset (base_reqs s) = add_mset r (mset (base_reqs ?s))"
    using r by (simp add: mset_remove1)
  have F: "fetch_slots s = (if is_Req_write_stripe r then add_mset (req_slot r) (fetch_slots ?s) else fetch_slots ?s)"
    and R: "reads s = (if is_Req_readv r then add_mset (req_io r) (reads ?s) else reads ?s)"
    by (simp_all only: fetch_slots_def reads_def B) (simp_all add: ring_def)
  show ?thesis
    using I unfolding inv_st_def F R B by (auto simp: fetch_st_def read_ok_def md_st_def md_ok_def)
qed

lemma inv_base_completion:
  assumes I: "inv_st z oth {#} 0 s" and r: "r \<in> set (base_reqs s)"
  shows "\<exists>s'. base_completion env r ok (s\<lparr>base_reqs := remove1 r (base_reqs s)\<rparr>) = Some s' \<and> inv_st z oth {#} 0 s'"
proof -
  let ?s = "s\<lparr>base_reqs := remove1 r (base_reqs s)\<rparr>"
  note I1 = inv_remove_base [OF I r]
  have snap: "io_stripes_fetched (driver_ctx ?s (io_id (req_io r))) \<le> stripes_fetched (ub ?s)"
    if "is_Req_md_write r \<or> is_Req_md_flush r" "z = 0"
    using that I r by (auto simp: inv_st_def md_st_def md_ok_def)
  have rd: "io_type (req_io r) = IO_READ" if "is_Req_readv r"
    using that I r by (force simp: inv_st_def read_ok_def reads_def base_reads_def)
  show ?thesis
  proof (cases r)
    case (Req_writev b st m)
    then have "io_type b \<noteq> IO_READ"
      using I r by (auto simp: inv_st_def writes_ok_def)
    with Req_writev I1 show ?thesis
      by (simp add: base_completion_def ubi_io_completion_cb_def inv_complete_io_write)
  qed (use I1 rd snap in \<open>auto simp: base_completion_def ubi_io_completion_cb_def
      intro: inv_complete_io inv_write_stripe_completion inv_data_flush_completion
        inv_metadata_write_completion inv_metadata_flush_completion\<close>)
qed

end
