(* ===== verification/Ubi_Walk.thy ===== *)
theory Ubi_Walk
  imports Ubi_Poll_Inv
begin

section \<open>Walking through the poller\<close>

text \<open>
  One run of the poller is a sequence of small steps: an image read is reaped, a stripe fetch
  is started, a request is served or failed, the prepared reads are submitted.  A relation
  between states that is reflexive and transitive and holds for each of these steps, taken
  where the invariant holds, holds for the whole run.  The locale states this once; every
  theory that follows the state through the poller interprets it.
\<close>

subsection \<open>Steps of the poller\<close>

abbreviation reaped :: "sqe \<Rightarrow> ubi_state \<Rightarrow> ubi_state" where
  "reaped e s \<equiv> s\<lparr>inflight := remove1 e (inflight s)\<rparr>"

abbreviation popped :: "bdev_io list \<Rightarrow> ubi_state \<Rightarrow> ubi_state" where
  "popped bs s \<equiv> s\<lparr>ch := (ch s)\<lparr>ch_io := bs\<rparr>\<rparr>"

text \<open>A slot that has been given a stripe, before the image read is prepared.\<close>

abbreviation assigned :: "nat \<Rightarrow> i32 \<Rightarrow> fetch_queue \<Rightarrow> ubi_state \<Rightarrow> ubi_state" where
  "assigned k idx q s \<equiv> upd_fetch k (\<lambda>sf. sf\<lparr>stripe_idx := idx, active := True, op_type := UBI_STRIPE_FETCH\<rparr>)
     (s\<lparr>ch := (ch s)\<lparr>stripe_fetch_queue := q\<rparr>\<rparr>)"

abbreviation counted :: "ubi_state \<Rightarrow> ubi_state" where
  "counted s \<equiv> s\<lparr>ch := (ch s)\<lparr>ch_stripes_fetched := ch_stripes_fetched (ch s) + 1\<rparr>\<rparr>"

fun cqes_of :: "int + (sqe \<times> int) list \<Rightarrow> (sqe \<times> int) list" where
  "cqes_of (Inl err) = []"
| "cqes_of (Inr cqes) = cqes"

lemma assigned_inv:
  assumes I: "inv_gen oth X n s" and k: "k < 8" "k \<notin> act (ch s)"
    and q: "queue_list (stripe_fetch_queue (ch s)) = idx # rest" "queue_ok q" "queue_list q = rest"
  shows "inv_gen oth (add_mset k X) n (assigned k idx q s)"
    and "act (ch (assigned k idx q s)) = insert k (act (ch s))"
proof -
  have F: "fetch_ok oth X (ub s) (ch s) (fetch_slots s)" and len: "length (stripe_fetches (ch s)) = 8"
    using I by (simp_all add: inv_gen_def fetch_ok_def)
  let ?x = "(stripe_fetches (ch s) ! k)\<lparr>stripe_idx := idx, active := True, op_type := UBI_STRIPE_FETCH\<rparr>"
  show "inv_gen oth (add_mset k X) n (assigned k idx q s)"
    using fetch_ok_activate [OF F k(2) _ q, of ?x] k(1) len I by (simp add: inv_gen_def)
  show "act (ch (assigned k idx q s)) = insert k (act (ch s))"
    using act_upd [of k "(ch s)\<lparr>stripe_fetch_queue := q\<rparr>" ?x] len k(1) by simp
qed

subsection \<open>One round of each loop\<close>

lemma start_fetches_step:
  assumes I: "inv_gen oth X n s" and env: "uring_ok env" and k: "k < 8" "k \<notin> act (ch s)"
    and ne: "head (stripe_fetch_queue (ch s)) \<noteq> tail (stripe_fetch_queue (ch s))"
    and run: "start_fetches env (k # ks) s = Some s'"
  obtains idx rest q s1 where "queue_list (stripe_fetch_queue (ch s)) = idx # rest" "queue_ok q" "queue_list q = rest"
    "inv_gen oth (add_mset k X) n (assigned k idx q s)" "ubi_start_fetch_stripe env k (assigned k idx q s) = Some s1"
    "inv_gen oth X n (counted s1)" "act (ch (counted s1)) = insert k (act (ch s))"
    "start_fetches env ks (counted s1) = Some s'"
proof -
  let ?q = "stripe_fetch_queue (ch s)"
  have q: "queue_ok ?q" using I by (simp add: inv_gen_def fetch_ok_def)
  then obtain idx rest where ql: "queue_list ?q = idx # rest"
    using fq.empty_law [OF q] ne by (cases "queue_list ?q") (auto simp: stripe_queue_empty_def)
  then obtain q' where q': "dequeue_stripe ?q = Some (idx, q')" "queue_ok q'" "queue_list q' = rest"
    using fq.deq_law [OF q] by blast
  note I1 = assigned_inv [OF I k ql q'(2,3)]
  obtain s1 where s1: "ubi_start_fetch_stripe env k (assigned k idx q' s) = Some s1" "inv_gen oth X n s1"
    "act (ch s1) = insert k (act (ch s))"
    using inv_start_fetch_ok [OF I1(1) env] I1(2) by auto
  show ?thesis
  proof (rule that [OF ql q'(2,3) I1(1) s1(1)])
    show "inv_gen oth X n (counted s1)" "act (ch (counted s1)) = insert k (act (ch s))" using s1(2,3) by simp_all
    show "start_fetches env ks (counted s1) = Some s'" using run ne q'(1) s1(1) by (simp add: Let_def)
  qed
qed

lemma serve_ios_step:
  assumes I: "inv_st z oth X 0 s" and q: "ch_io (ch s) = b # bs" and run: "serve_ios env (b # bs) s = Some s'"
  obtains
    (stop) "io_type b = IO_READ \<and> active_reads (ch s) \<ge> UBI_MAX_CONCURRENT_READS \<or> io_verdict (ub s) b = Some Io_wait" "s' = s"
  | (serve) s1 where "io_type b = IO_READ \<longrightarrow> active_reads (ch s) < UBI_MAX_CONCURRENT_READS"
      "io_verdict (ub s) b = Some Io_serve" "ubi_dispatch_io env b (popped bs s) = Some s1"
      "inv_st z oth X 0 s1" "ch_io (ch s1) = bs" "serve_ios env bs s1 = Some s'"
  | (failed) "io_verdict (ub s) b = Some Io_stripe_failed"
      "serve_ios env bs (spdk_bdev_io_complete b False (popped bs s)) = Some s'"
proof (cases "io_type b = IO_READ \<and> active_reads (ch s) \<ge> UBI_MAX_CONCURRENT_READS")
  case True
  moreover have "s' = s" using run True by simp
  ultimately show ?thesis using stop by blast
next
  case False
  have I1: "inv_st z oth X 0 (popped bs s)" by (rule inv_pop_io [OF I q])
  have conf: "conf_ok (ub s)" and b: "io_ok (ub s) b" "not_forgotten (ub s) b"
    using I q by (simp_all add: inv_st_def ios_ok_def)
  obtain v where v: "io_verdict (ub s) b = Some v" using conf b by (simp add: io_verdict_eq)
  then consider "v = Io_serve" | "v = Io_wait" | "v = Io_stripe_failed"
    using no_bug_verdict [OF conf b] by (cases v) auto
  then show ?thesis
  proof cases
    case 1
    have room: "active_reads (ch s) < UBI_MAX_CONCURRENT_READS" if "io_type b = IO_READ" using False that by auto
    obtain s1 where s1: "ubi_dispatch_io env b (popped bs s) = Some s1" "inv_st z oth X 0 s1"
      using inv_dispatch [OF I1, of b env] b room by auto
    have "serve_ios env bs s1 = Some s'" using run False v 1 s1(1) by (auto split: if_splits)
    moreover have "ch_io (ch s1) = bs" using dispatch_frame(2) [OF s1(1)] by simp
    ultimately show ?thesis using serve v 1 s1 room by blast
  next
    case 2
    then have "s' = s" using run False v by (auto split: if_splits)
    then show ?thesis using stop v 2 by blast
  next
    case 3
    have "serve_ios env bs (spdk_bdev_io_complete b False (popped bs s)) = Some s'"
      using run False v 3 by (auto split: if_splits)
    then show ?thesis using failed v 3 by blast
  qed
qed

lemma head_io_ok: "inv_st z oth X 0 s \<Longrightarrow> ch_io (ch s) = b # bs \<Longrightarrow> io_ok (ub s) b"
  by (simp add: inv_st_def ios_ok_def)

subsection \<open>The principle\<close>

locale channel_walk =
  fixes le :: "ext_oracle \<Rightarrow> (sqe \<times> int) list \<Rightarrow> ubi_state \<Rightarrow> ubi_state \<Rightarrow> bool"
  assumes le_refl: "le env [] s s"
    and le_trans: "le env xs s s1 \<Longrightarrow> le env ys s1 s2 \<Longrightarrow> le env (xs @ ys) s s2"
    and le_fetched: "\<And>oth X n s k a m off res env ret s'.
      inv_gen oth X n s \<Longrightarrow> Sqe_read k a m off \<in> set (inflight s) \<Longrightarrow>
      inv_gen oth (add_mset k X) n (reaped (Sqe_read k a m off) s) \<Longrightarrow>
      ubi_complete_fetch_stripe env k res (reaped (Sqe_read k a m off) s) = Some (ret, s') \<Longrightarrow>
      le env [(Sqe_read k a m off, res)] s s'"
    and le_read: "\<And>oth X n s b off res env ret s'.
      inv_gen oth X n s \<Longrightarrow> Sqe_readv b off \<in> set (inflight s) \<Longrightarrow> io_type b = IO_READ \<Longrightarrow>
      ubi_complete_read_from_image b res (reaped (Sqe_readv b off) s) = (ret, s') \<Longrightarrow>
      le env [(Sqe_readv b off, res)] s s'"
    and le_start: "\<And>oth X n s k idx rest q env s'.
      inv_gen oth X n s \<Longrightarrow> uring_ok env \<Longrightarrow> k < 8 \<Longrightarrow> k \<notin> act (ch s) \<Longrightarrow>
      queue_list (stripe_fetch_queue (ch s)) = idx # rest \<Longrightarrow> queue_ok q \<Longrightarrow> queue_list q = rest \<Longrightarrow>
      inv_gen oth (add_mset k X) n (assigned k idx q s) \<Longrightarrow>
      ubi_start_fetch_stripe env k (assigned k idx q s) = Some s' \<Longrightarrow> le env [] s (counted s')"
    and le_serve: "\<And>oth X s b bs env s'.
      inv_gen oth X 0 s \<Longrightarrow> ch_io (ch s) = b # bs \<Longrightarrow> io_ok (ub s) b \<Longrightarrow>
      (io_type b = IO_READ \<Longrightarrow> active_reads (ch s) < UBI_MAX_CONCURRENT_READS) \<Longrightarrow>
      io_verdict (ub s) b = Some Io_serve \<Longrightarrow>
      inv_gen oth X 0 (popped bs s) \<Longrightarrow> ubi_dispatch_io env b (popped bs s) = Some s' \<Longrightarrow> le env [] s s'"
    and le_fail: "\<And>oth X s b bs env.
      inv_gen oth X 0 s \<Longrightarrow> ch_io (ch s) = b # bs \<Longrightarrow> io_ok (ub s) b \<Longrightarrow>
      io_verdict (ub s) b = Some Io_stripe_failed \<Longrightarrow>
      le env [] s (spdk_bdev_io_complete b False (popped bs s))"
    and le_submit: "\<And>oth X n s env. inv_gen oth X n s \<Longrightarrow> uring_ok env \<Longrightarrow> le env [] s (submit_image_reads env s)"
begin

lemma walk_cqes:
  assumes "inv_gen oth X n s" "mset (map fst cqes) \<subseteq># mset (inflight s)"
    and "ubi_complete_cqes env cqes ret s = Some (ret', s')"
  shows "le env cqes s s' \<and> inv_gen oth X n s'"
  using assms
proof (induction cqes arbitrary: s ret)
  case Nil
  then show ?case by (simp add: le_refl)
next
  case (Cons c cqes)
  obtain e res where c: "c = (e, res)" by (cases c)
  have e: "e \<in> set (inflight s)"
    using Cons.prems(2) c by (simp add: insert_subset_eq_iff)
  have rest: "mset (map fst cqes) \<subseteq># mset (inflight (reaped e s))"
    using Cons.prems(2) c e by (simp add: insert_subset_eq_iff mset_remove1)
  note I = inv_remove_sqe [OF Cons.prems(1) e]
  show ?case
  proof (cases e)
    case (Sqe_read k a m off)
    then have I1: "inv_gen oth (add_mset k X) n (reaped e s)" using I by simp
    then obtain r2 s2 where s2: "ubi_complete_fetch_stripe env k res (reaped e s) = Some (r2, s2)" "inv_gen oth X n s2"
      using inv_complete_fetch by blast
    then have "ubi_complete_cqes env cqes r2 s2 = Some (ret', s')"
      using Cons.prems(3) c Sqe_read by (auto simp: Let_def bind_eq_Some_conv split: if_splits)
    with s2 rest have IH: "le env cqes s2 s' \<and> inv_gen oth X n s'"
      using complete_fetch_inflight [OF s2(1)] by (intro Cons.IH) simp_all
    have "le env [c] s s2"
      using le_fetched [OF Cons.prems(1) e [unfolded Sqe_read] I1 [unfolded Sqe_read] s2(1) [unfolded Sqe_read]]
      by (simp add: c Sqe_read)
    with IH le_trans [of env "[c]" s s2 cqes s'] show ?thesis by simp
  next
    case (Sqe_readv b off)
    then have I1: "inv_gen oth X (Suc n) (reaped e s)" using I by simp
    have "b \<in># reads s"
      using e Sqe_readv by (auto simp: reads_def ring_def ring_reads_def intro!: rev_image_eqI)
    then have b: "io_type b = IO_READ" "io_op_type (driver_ctx s (io_id b)) = UBI_BDEV_IO"
      using Cons.prems(1) by (auto simp: inv_gen_def read_ok_def)
    obtain r2 s2 where s2: "ubi_complete_read_from_image b res (reaped e s) = (r2, s2)" by (metis surj_pair)
    then have s2': "inv_gen oth X n s2" "inflight s2 = inflight (reaped e s)"
      using inv_complete_io [OF I1 b(1)] by (auto simp: ubi_complete_read_from_image_def split: if_splits)
    have "ubi_complete_cqes env cqes r2 s2 = Some (ret', s')"
      using Cons.prems(3) c Sqe_readv b s2 by (simp add: Let_def)
    with s2' rest have IH: "le env cqes s2 s' \<and> inv_gen oth X n s'"
      by (intro Cons.IH) simp_all
    have "le env [c] s s2"
      using le_read [OF Cons.prems(1) e [unfolded Sqe_readv] b(1) s2 [unfolded Sqe_readv]] by (simp add: c Sqe_readv)
    with IH le_trans [of env "[c]" s s2 cqes s'] show ?thesis by simp
  qed
qed

lemma walk_start_fetches:
  assumes "inv_gen oth X n s" "uring_ok env" "distinct ks" "\<forall>k \<in> set ks. k < 8 \<and> k \<notin> act (ch s)"
    and "start_fetches env ks s = Some s'"
  shows "le env [] s s' \<and> inv_gen oth X n s'"
  using assms
proof (induction ks arbitrary: s)
  case Nil
  then show ?case by (simp add: le_refl)
next
  case (Cons k ks)
  show ?case
  proof (cases "head (stripe_fetch_queue (ch s)) = tail (stripe_fetch_queue (ch s))")
    case True
    then show ?thesis using Cons.prems le_refl by simp
  next
    case False
    have k: "k < 8" "k \<notin> act (ch s)" using Cons.prems(4) by simp_all
    from start_fetches_step [OF Cons.prems(1,2) k False Cons.prems(5)] show ?thesis
    proof cases
      case (1 idx rest q s1)
      then have "le env [] (counted s1) s' \<and> inv_gen oth X n s'"
        using Cons.prems(2-4) by (intro Cons.IH) auto
      with le_start [OF Cons.prems(1,2) k 1(1-5)] le_trans [of env "[]" s "counted s1" "[]" s'] show ?thesis by simp
    qed
  qed
qed

lemma walk_serve_ios:
  assumes "inv_gen oth X 0 s" "ch_io (ch s) = bs" "serve_ios env bs s = Some s'"
  shows "le env [] s s' \<and> inv_gen oth X 0 s'"
  using assms
proof (induction bs arbitrary: s)
  case Nil
  then show ?case by (simp add: le_refl)
next
  case (Cons b bs)
  note I1 = inv_pop_io [OF Cons.prems(1,2)] and b = head_io_ok [OF Cons.prems(1,2)]
  from Cons.prems show ?case
  proof (cases rule: serve_ios_step)
    case stop
    then show ?thesis using Cons.prems(1) le_refl by simp
  next
    case (serve s1)
    then have "le env [] s1 s' \<and> inv_gen oth X 0 s'" by (intro Cons.IH)
    with le_serve [OF Cons.prems(1,2) b _ serve(2) I1 serve(3)] serve(1) le_trans [of env "[]" s s1 "[]" s']
    show ?thesis by simp
  next
    case failed
    then have "le env [] (spdk_bdev_io_complete b False (popped bs s)) s' \<and> inv_gen oth X 0 s'"
      using I1 by (intro Cons.IH) simp_all
    with le_fail [OF Cons.prems(1,2) b failed(1)]
      le_trans [of env "[]" s "spdk_bdev_io_complete b False (popped bs s)" "[]" s'] show ?thesis by simp
  qed
qed

lemma walk_image_io:
  assumes "inv_gen oth X n s" "mset (map fst (cqes_of batch)) \<subseteq># mset (inflight s)"
    and "ubi_complete_image_io env batch s = Some (ret, s')"
  shows "le env (cqes_of batch) s s' \<and> inv_gen oth X n s'"
proof (cases batch)
  case (Inl err)
  then show ?thesis using assms le_refl by (auto simp: ubi_complete_image_io_def split: if_splits)
next
  case (Inr cqes)
  then show ?thesis using walk_cqes [OF assms(1)] assms(2,3) by (simp add: ubi_complete_image_io_def)
qed

lemma walk_poll:
  assumes "inv_gen oth {#} 0 s" "uring_ok env" "mset (map fst (cqes_of batch)) \<subseteq># mset (inflight s)"
    and poll: "ubi_io_poll env batch s = Some (r, s')"
  shows "le env (cqes_of batch) s s'"
proof -
  obtain ret s1 where s1: "ubi_complete_image_io env batch s = Some (ret, s1)"
    using poll by (auto simp: ubi_io_poll_def Let_def bind_eq_Some_conv)
  note w1 = walk_image_io [OF assms(1,3) s1]
  show ?thesis
  proof (cases "ch_io (ch s) = [] \<and> stripe_queue_empty (stripe_fetch_queue (ch s))")
    case True
    then show ?thesis using poll s1 w1 by (simp add: ubi_io_poll_def split: if_splits)
  next
    case False
    then obtain s2 s3 where s2: "start_fetches env (free_stripe_fetches (stripe_fetches (ch s1))) s1 = Some s2"
      and s3: "serve_ios env (ch_io (ch s2)) s2 = Some s3" and s': "s' = submit_image_reads env s3"
      using poll s1 by (auto simp: ubi_io_poll_def bind_eq_Some_conv)
    have "length (stripe_fetches (ch s1)) = 8"
      using w1 by (simp add: inv_gen_def fetch_ok_def)
    then have w2: "le env [] s1 s2 \<and> inv_gen oth {#} 0 s2"
      using walk_start_fetches [OF _ assms(2) free_slots(1) _ s2] w1 by (auto simp: free_slots(2))
    then have w3: "le env [] s2 s3 \<and> inv_gen oth {#} 0 s3"
      using walk_serve_ios [OF _ refl s3] by blast
    then have "le env [] s3 s'" using le_submit assms(2) s' by blast
    with w1 w2 w3 show ?thesis
      using le_trans [of env "cqes_of batch" s s1 "[]" s2] le_trans [of env "cqes_of batch" s s2 "[]" s3]
        le_trans [of env "cqes_of batch" s s3 "[]" s'] by simp
  qed
qed

end

subsection \<open>Steps that make progress\<close>

text \<open>
  A second relation that holds for every fetch that is started and every request that leaves
  the queue, and that absorbs the first one, holds for a whole run of the poller in which
  one of these happens.
\<close>

locale channel_progress = channel_walk +
  fixes lt :: "ubi_state \<Rightarrow> ubi_state \<Rightarrow> bool"
  assumes lt_le: "lt s s1 \<Longrightarrow> le env [] s1 s2 \<Longrightarrow> lt s s2"
    and lt_start: "\<And>oth X n s k idx rest q env s'.
      inv_gen oth X n s \<Longrightarrow> uring_ok env \<Longrightarrow> k < 8 \<Longrightarrow> k \<notin> act (ch s) \<Longrightarrow>
      queue_list (stripe_fetch_queue (ch s)) = idx # rest \<Longrightarrow> queue_ok q \<Longrightarrow> queue_list q = rest \<Longrightarrow>
      inv_gen oth (add_mset k X) n (assigned k idx q s) \<Longrightarrow>
      ubi_start_fetch_stripe env k (assigned k idx q s) = Some s' \<Longrightarrow> lt s (counted s')"
    and lt_serve: "\<And>oth X s b bs env s'.
      inv_gen oth X 0 s \<Longrightarrow> ch_io (ch s) = b # bs \<Longrightarrow> io_ok (ub s) b \<Longrightarrow>
      ubi_dispatch_io env b (popped bs s) = Some s' \<Longrightarrow> lt s s'"
    and lt_fail: "\<And>s b bs. ch_io (ch s) = b # bs \<Longrightarrow> lt s (spdk_bdev_io_complete b False (popped bs s))"
begin

lemma progress_start:
  assumes I: "inv_gen oth X n s" and env: "uring_ok env" and ks: "distinct ks" "\<forall>k \<in> set ks. k < 8 \<and> k \<notin> act (ch s)" "ks \<noteq> []"
    and ne: "\<not> stripe_queue_empty (stripe_fetch_queue (ch s))" and run: "start_fetches env ks s = Some s'"
  shows "lt s s'"
proof -
  obtain k ks' where k: "ks = k # ks'" using ks(3) by (cases ks) auto
  then have kk: "k < 8" "k \<notin> act (ch s)" using ks(2) by simp_all
  have "head (stripe_fetch_queue (ch s)) \<noteq> tail (stripe_fetch_queue (ch s))" using ne by (simp add: stripe_queue_empty_def)
  from start_fetches_step [OF I env kk this run [unfolded k]] show ?thesis
  proof cases
    case (1 idx rest q s1)
    then have "le env [] (counted s1) s'"
      using walk_start_fetches [of oth X n "counted s1" env ks' s'] env ks(1,2) k by auto
    with lt_start [OF I env kk 1(1-5)] show ?thesis by (rule lt_le)
  qed
qed

lemma progress_serve:
  assumes I: "inv_gen oth X 0 s" and q: "ch_io (ch s) = b # bs" and run: "serve_ios env (ch_io (ch s)) s = Some s'"
    and go: "active_reads (ch s) < UBI_MAX_CONCURRENT_READS" "io_verdict (ub s) b \<noteq> Some Io_wait"
  shows "lt s s'"
  using I q run [unfolded q]
proof (cases rule: serve_ios_step)
  case stop
  then show ?thesis using go by auto
next
  case (serve s1)
  then have "le env [] s1 s'" using walk_serve_ios [of oth X s1 bs env s'] by simp
  with lt_serve [OF I q head_io_ok [OF I q] serve(3)] show ?thesis by (rule lt_le)
next
  case failed
  have "le env [] (spdk_bdev_io_complete b False (popped bs s)) s'"
    using walk_serve_ios [OF _ _ failed(2)] inv_pop_io [OF I q] by simp
  with lt_fail [OF q] show ?thesis by (rule lt_le)
qed

text \<open>
  With every slot free and fewer reads active than the limit, a poll makes progress as soon as
  a stripe is queued or the first request does not wait for a stripe.
\<close>

lemma progress_poll:
  assumes I: "inv_gen oth {#} 0 s" and env: "uring_ok env" and free: "act (ch s) = {}"
    and busy: "\<not> stripe_queue_empty (stripe_fetch_queue (ch s)) \<or>
      (\<exists>b bs. ch_io (ch s) = b # bs \<and> active_reads (ch s) < UBI_MAX_CONCURRENT_READS \<and> io_verdict (ub s) b \<noteq> Some Io_wait)"
    and poll: "ubi_io_poll env (Inr []) s = Some (r, s')"
  shows "lt s s'"
proof -
  have len: "length (stripe_fetches (ch s)) = 8" using I by (simp add: inv_gen_def fetch_ok_def)
  let ?ks = "free_stripe_fetches (stripe_fetches (ch s))"
  have ks: "distinct ?ks" "\<forall>k \<in> set ?ks. k < 8 \<and> k \<notin> act (ch s)" "?ks \<noteq> []"
    using free_slots free len by (auto simp: act_def free_stripe_fetches_def filter_empty_conv)
  have nq: "\<not> (ch_io (ch s) = [] \<and> stripe_queue_empty (stripe_fetch_queue (ch s)))" using busy by auto
  then obtain s2 s3 where s2: "start_fetches env ?ks s = Some s2"
    and s3: "serve_ios env (ch_io (ch s2)) s2 = Some s3" and s': "s' = submit_image_reads env s3"
    using poll by (auto simp: ubi_io_poll_def ubi_complete_image_io_def bind_eq_Some_conv)
  have w2: "le env [] s s2 \<and> inv_gen oth {#} 0 s2" by (rule walk_start_fetches [OF I env ks(1,2) s2])
  then have w3: "le env [] s2 s3 \<and> inv_gen oth {#} 0 s3" using walk_serve_ios [OF _ refl s3] by blast
  then have w4: "le env [] s3 s'" using le_submit env s' by blast
  show ?thesis
  proof (cases "stripe_queue_empty (stripe_fetch_queue (ch s))")
    case True
    then have eq: "s2 = s" using s2 ks(3) by (cases ?ks) (auto simp: stripe_queue_empty_def)
    from True busy obtain b bs where "ch_io (ch s) = b # bs" "active_reads (ch s) < UBI_MAX_CONCURRENT_READS"
      "io_verdict (ub s) b \<noteq> Some Io_wait" by blast
    then have "lt s s3" using progress_serve [OF I _ s3 [unfolded eq]] by blast
    then show ?thesis using w4 by (rule lt_le)
  next
    case False
    have "lt s s2" by (rule progress_start [OF I env ks False s2])
    then have "lt s s3" using w3 lt_le by blast
    then show ?thesis using w4 by (rule lt_le)
  qed
qed

end

end
