(* ===== verification/Ubi_Evolve.thy ===== *)
theory Ubi_Evolve
  imports Ubi_Walk
begin

section \<open>How a bdev evolves\<close>

text \<open>
  What the handlers do to the status of a stripe (\<^verbatim>\<open>enum stripe_status\<close> in \<^verbatim>\<open>bdev_ubi_internal.h\<close>)
  orders the four values: not fetched, in flight, then failed or fetched.  Every event moves every
  stripe upwards in this order, never changes the configuration, and only adds headers and counts
  up, as long as no \<^verbatim>\<open>io_uring_submit\<close> fails.  After a failure only the weaker order below is kept:
  a stripe that has been decided may still change between failed and fetched.
\<close>

subsection \<open>The order of stripe statuses\<close>

instantiation stripe_status :: order
begin

definition less_eq_stripe_status :: "stripe_status \<Rightarrow> stripe_status \<Rightarrow> bool" where
  "a \<le> b \<longleftrightarrow> a = b \<or> a = STRIPE_NOT_FETCHED \<or>
     a = STRIPE_INFLIGHT \<and> (b = STRIPE_FAILED \<or> b = STRIPE_FETCHED)"

definition less_stripe_status :: "stripe_status \<Rightarrow> stripe_status \<Rightarrow> bool" where
  "a < b \<longleftrightarrow> a \<le> b \<and> a \<noteq> (b :: stripe_status)"

instance
  by standard (auto simp: less_eq_stripe_status_def less_stripe_status_def)

end

lemma status_order [simp]:
  "STRIPE_NOT_FETCHED \<le> a"
  "a \<le> STRIPE_NOT_FETCHED \<longleftrightarrow> a = STRIPE_NOT_FETCHED"
  "STRIPE_FETCHED \<le> a \<longleftrightarrow> a = STRIPE_FETCHED"
  "STRIPE_FAILED \<le> a \<longleftrightarrow> a = STRIPE_FAILED"
  "STRIPE_INFLIGHT \<le> a \<longleftrightarrow> a \<noteq> STRIPE_NOT_FETCHED"
  by (cases a; simp add: less_eq_stripe_status_def)+

subsection \<open>Evolution\<close>

text \<open>The part of a bdev that no I/O may change.\<close>

definition config :: "ubi_bdev \<Rightarrow> ubi_bdev" where
  "config u = u\<lparr>stripe_status := \<lambda>_. STRIPE_NOT_FETCHED, stripes_fetched := 0, stripes_flushed := 0,
     metadata := (metadata u)\<lparr>stripe_headers := \<lambda>_ _. 0\<rparr>\<rparr>"

definition evolves :: "ubi_bdev \<Rightarrow> ubi_bdev \<Rightarrow> bool" where
  "evolves u u' \<longleftrightarrow>
     config u' = config u \<and> (\<forall>i. stripe_status u i \<le> stripe_status u' i) \<and>
     header_set (metadata u) \<subseteq> header_set (metadata u') \<and>
     stripes_fetched u \<le> stripes_fetched u' \<and> stripes_flushed u \<le> stripes_flushed u'"

lemma evolves_refl [simp, intro]: "evolves u u"
  by (simp add: evolves_def)

lemma evolves_trans [trans]: "evolves u v \<Longrightarrow> evolves v w \<Longrightarrow> evolves u w"
  unfolding evolves_def by (auto intro: order_trans)

lemma same_config:
  assumes same: "config u' = config u"
  shows "bdev u' = bdev u" "stripe_shift u' = stripe_shift u" "image_block_count u' = image_block_count u"
    "copy_on_read u' = copy_on_read u" "no_sync u' = no_sync u" "stripe_size_kb u' = stripe_size_kb u"
    "data_offset_blocks u' = data_offset_blocks u" "alignment_bytes u' = alignment_bytes u"
    "stripe_block_count u' = stripe_block_count u" "base_bdev_info u' = base_bdev_info u"
  using arg_cong [OF same, of bdev]
    arg_cong [OF same, of stripe_shift]
    arg_cong [OF same, of image_block_count]
    arg_cong [OF same, of copy_on_read]
    arg_cong [OF same, of no_sync]
    arg_cong [OF same, of stripe_size_kb]
    arg_cong [OF same, of data_offset_blocks]
    arg_cong [OF same, of alignment_bytes]
    arg_cong [OF same, of stripe_block_count]
    arg_cong [OF same, of base_bdev_info]
  by (simp_all add: config_def)

lemmas evolves_config = same_config [OF conjunct1 [OF iffD1 [OF evolves_def]]]

text \<open>The weaker order: failed and fetched are not distinguished.\<close>

fun status_rank :: "stripe_status \<Rightarrow> nat" where
  "status_rank STRIPE_NOT_FETCHED = 0"
| "status_rank STRIPE_INFLIGHT = 1"
| "status_rank STRIPE_FAILED = 2"
| "status_rank STRIPE_FETCHED = 2"

definition advances :: "ubi_bdev \<Rightarrow> ubi_bdev \<Rightarrow> bool" where
  "advances u u' \<longleftrightarrow>
     config u' = config u \<and> (\<forall>i. status_rank (stripe_status u i) \<le> status_rank (stripe_status u' i)) \<and>
     header_set (metadata u) \<subseteq> header_set (metadata u')"

lemmas advances_config = same_config [OF conjunct1 [OF iffD1 [OF advances_def]]]

lemma advances_refl [simp, intro]: "advances u u"
  by (simp add: advances_def)

lemma advances_trans [trans]: "advances u v \<Longrightarrow> advances v w \<Longrightarrow> advances u w"
  unfolding advances_def by (auto intro: order_trans)

lemma status_rank_mono: "a \<le> b \<Longrightarrow> status_rank a \<le> status_rank b"
  by (cases a; cases b) (simp_all add: less_eq_stripe_status_def)

lemma evolves_advances: "evolves u u' \<Longrightarrow> advances u u'"
  by (simp add: evolves_def advances_def status_rank_mono)

lemma status_rank_decided: "2 \<le> status_rank a \<longleftrightarrow> a = STRIPE_FAILED \<or> a = STRIPE_FETCHED"
  "0 < status_rank a \<longleftrightarrow> a \<noteq> STRIPE_NOT_FETCHED"
  by (cases a; simp)+

lemma advances_decided: "advances u u' \<Longrightarrow> decided u i \<Longrightarrow> decided u' i"
  unfolding decided_def status_rank_decided(1) [symmetric] advances_def by (meson order_trans)

lemma advances_not_fetched:
  "advances u u' \<Longrightarrow> stripe_status u' i = STRIPE_NOT_FETCHED \<Longrightarrow> stripe_status u i = STRIPE_NOT_FETCHED"
  unfolding advances_def by (metis le_zero_eq not_gr_zero status_rank.simps(1) status_rank_decided(2))

lemma advances_put_status:
  assumes "v = STRIPE_FAILED \<or> v = STRIPE_FETCHED"
  shows "advances u (put_status i v u)"
proof -
  have "status_rank a \<le> status_rank v" for a using assms by (cases a) auto
  then show ?thesis by (auto simp: advances_def config_def put_status_def header_set_def Let_def split: if_splits)
qed

lemma advances_counters [simp]:
  "advances u (u'\<lparr>stripes_fetched := x\<rparr>) \<longleftrightarrow> advances u u'" "advances u (u'\<lparr>stripes_flushed := x\<rparr>) \<longleftrightarrow> advances u u'"
  by (simp_all add: advances_def config_def)

lemma evolves_put_status:
  assumes "stripe_status u i \<le> v"
  shows "evolves u (put_status i v u)"
  using assms by (auto simp: evolves_def config_def put_status_def header_set_def Let_def split: if_splits)

lemma evolves_counters:
  "stripes_fetched u \<le> x \<Longrightarrow> evolves u (u\<lparr>stripes_fetched := x\<rparr>)"
  "stripes_flushed u \<le> x \<Longrightarrow> evolves u (u\<lparr>stripes_flushed := x\<rparr>)"
  by (simp_all add: evolves_def config_def)

subsection \<open>Every operation\<close>

lemma fail_evolves:
  assumes I: "inv_gen oth (add_mset k X) n s" and "ubi_fail_stripe_fetch k s = Some s'"
  shows "evolves (ub s) (ub s')"
proof -
  have F: "fetch_ok oth (add_mset k X) (ub s) (ch s) (fetch_slots s)"
    using I by (simp add: inv_gen_def)
  from fetch_ok_stripe(3) [OF F fetch_ok_active(1) [OF F]] assms(2) show ?thesis
    by (auto simp: fail_eq(1) [OF I] intro!: evolves_put_status)
qed

lemma write_stripe_evolves:
  assumes I: "inv_gen oth (add_mset k X) n s" and "write_stripe_io_completion k ok s = Some s'"
  shows "evolves (ub s) (ub s')"
proof -
  have F: "fetch_ok oth (add_mset k X) (ub s) (ch s) (fetch_slots s)"
    using I by (simp add: inv_gen_def)
  note i = fetch_ok_stripe [OF F fetch_ok_active(1) [OF F]]
  have "card (fetched_set (ub s)) \<le> UBI_MAX_STRIPES"
    by (rule card_stripe_set) (auto simp: fetched_set_def)
  then have "unat (stripes_fetched (ub s) + 1) = Suc (unat (stripes_fetched (ub s)))"
    using I by (intro unat_Suc_word [where n = 3000000]) (simp_all add: inv_gen_def md_ok_def)
  then have le: "stripes_fetched (ub s) \<le> stripes_fetched (ub s) + 1"
    by (simp add: word_le_nat_alt)
  let ?u = "put_status (slot_stripe (ch s) k) STRIPE_FETCHED (ub s)"
  have "evolves (ub s) ?u"
    using i(3) by (simp add: evolves_put_status)
  also have "evolves ?u (?u\<lparr>stripes_fetched := stripes_fetched (ub s) + 1\<rparr>)"
    using le by (intro evolves_counters(1)) (simp only: put_status_frame)
  finally have "evolves (ub s) (?u\<lparr>stripes_fetched := stripes_fetched (ub s) + 1\<rparr>)" .
  moreover have "ub s' = ?u\<lparr>stripes_fetched := stripes_fetched (ub s) + 1\<rparr>"
    using assms(2) unfolding fail_eq(2) [OF I] by auto
  ultimately show ?thesis by simp
qed

lemma complete_fetch_evolves:
  assumes I: "inv_gen oth (add_mset k X) n s" and "ubi_complete_fetch_stripe env k res s = Some (ret, s')"
  shows "evolves (ub s) (ub s')"
proof -
  have tick: "inv_gen oth (add_mset k X) n (tick s)" using I by simp
  show ?thesis
    using assms(2) fail_evolves [OF I] fail_evolves [OF tick]
    by (auto simp: ubi_complete_fetch_stripe_def base_submit_def Let_def bind_eq_Some_conv split: if_splits)
qed

lemma start_fetch_frame:
  assumes start: "ubi_start_fetch_stripe env k s = Some s'" and env: "uring_ok env"
  shows "ub s' = ub s" "completed s' = completed s" "ch_io (ch s') = ch_io (ch s)"
    "buf_wait s' = buf_wait s" "base_reqs s' = base_reqs s" "ring_reads (ring s') = ring_reads (ring s)"
proof -
  obtain sf where sf: "nth_opt (stripe_fetches (ch s)) k = Some sf" and got: "o_get_sqe env (clock s) (length (sq s))"
    using start by (auto simp: ubi_start_fetch_stripe_def Let_def bind_eq_Some_conv split: if_splits)
  let ?a = "align_buf (buf sf) (alignment_bytes (ub s))"
  let ?s1 = "upd_fetch k (\<lambda>sf. sf\<lparr>buf_aligned := ?a\<rparr>) (tick s)"
  let ?s2 = "?s1\<lparr>sq := sq ?s1 @ [Sqe_read k ?a (stripe_nbytes (ub s)) (stripe_offset (ub s) (stripe_idx sf))]\<rparr>"
  obtain ret s3 where sub: "io_uring_submit env ?s2 = (ret, s3)" by (metis surj_pair)
  have "s' = s3"
    using start sf got sub io_uring_submit_ret [OF env sub]
    by (simp add: ubi_start_fetch_stripe_def Let_def)
  then show "ub s' = ub s" "completed s' = completed s" "ch_io (ch s') = ch_io (ch s)"
    "buf_wait s' = buf_wait s" "base_reqs s' = base_reqs s" "ring_reads (ring s') = ring_reads (ring s)"
    using io_uring_submit_frame [OF sub] by (simp_all add: ring_def)
qed

lemma submit_image_reads_frame [simp]: "ub (submit_image_reads env s) = ub s"
  using io_uring_submit_frame(2) by (auto simp: submit_image_reads_def split: prod.split)

text \<open>The poller: only a fetch that fails touches the bdev.\<close>

interpretation evo: channel_walk "\<lambda>env cqes s s'. evolves (ub s) (ub s')"
proof
  fix oth X n s k a m off res env ret s'
  assume "inv_gen oth (add_mset k X) n (reaped (Sqe_read k a m off) s)"
    and "ubi_complete_fetch_stripe env k res (reaped (Sqe_read k a m off) s) = Some (ret, s')"
  from complete_fetch_evolves [OF this] show "evolves (ub s) (ub s')" by simp
qed (auto simp: ubi_complete_read_from_image_def start_fetch_frame dispatch_frame(1) split: if_splits
    intro: evolves_trans)

lemma poll_evolves:
  assumes "inv_gen oth {#} 0 s" and "uring_ok env" and "mset (map fst (cqes_of batch)) \<subseteq># mset (inflight s)"
    and "ubi_io_poll env batch s = Some (r, s')"
  shows "evolves (ub s) (ub s')"
  using evo.walk_poll [OF assms] .

lemma insert_io_ub [simp]: "ub (insert_io b s) = ub s"
  by (simp add: insert_io_def)

lemma submit_request_evolves:
  assumes "ubi_submit_request b s = Some s'"
  shows "evolves (ub s) (ub s')"
proof (cases "ub s' = ub s")
  case False
  then obtain i u where "ubi_get_stripe_status (ub s) i = Some STRIPE_NOT_FETCHED"
    "ubi_set_stripe_status (ub s) i STRIPE_INFLIGHT = Some u" "ub s' = u"
    using assms by (auto simp: ubi_submit_request_def Let_def bind_eq_Some_conv split: if_splits)
  then show ?thesis
    by (auto simp: ubi_get_stripe_status_eq ubi_set_stripe_status_eq split: if_splits intro!: evolves_put_status)
qed simp

lemma flush_completion_frame:
  "ubi_data_flush_completion env b ok s = Some s' \<Longrightarrow> ub s' = ub s"
  "ubi_metadata_write_completion env b ok s = Some s' \<Longrightarrow> ub s' = ub s"
  by (auto simp: ubi_data_flush_completion_def ubi_metadata_write_completion_def base_submit_def Let_def
      bind_eq_Some_conv split: if_splits)

lemma metadata_flush_evolves: "evolves (ub s) (ub (ubi_metadata_flush_completion b ok s))"
  by (simp add: ubi_metadata_flush_completion_def Let_def evolves_counters)

lemma base_completion_evolves:
  assumes I: "inv_gen oth {#} 0 s" and r: "r \<in> set (base_reqs s)"
    and run: "base_completion env r ok (s\<lparr>base_reqs := remove1 r (base_reqs s)\<rparr>) = Some s'"
  shows "evolves (ub s) (ub s')"
proof (cases r)
  case (Req_write_stripe k a off m)
  then have "inv_gen oth (add_mset k {#}) 0 (s\<lparr>base_reqs := remove1 r (base_reqs s)\<rparr>)"
    using inv_remove_base [OF I r] by simp
  with Req_write_stripe run show ?thesis
    using write_stripe_evolves by (force simp: base_completion_def)
next
  case (Req_md_flush b st m)
  then show ?thesis
    using run metadata_flush_evolves [of "s\<lparr>base_reqs := remove1 r (base_reqs s)\<rparr>"]
    by (auto simp: base_completion_def)
qed (use run in \<open>auto simp: base_completion_def ubi_io_completion_cb_def dest!: flush_completion_frame\<close>)

subsection \<open>Every operation, whether or not a submission fails\<close>

text \<open>No invariant is needed here: a status is only ever set to in flight, failed or fetched.\<close>

lemma fail_advances: "ubi_fail_stripe_fetch k s = Some s' \<Longrightarrow> advances (ub s) (ub s')"
  by (auto simp: ubi_fail_stripe_fetch_def bind_eq_Some_conv ubi_set_stripe_status_eq split: if_splits
      intro!: advances_put_status)

lemma write_stripe_advances: "write_stripe_io_completion k ok s = Some s' \<Longrightarrow> advances (ub s) (ub s')"
  by (auto simp: write_stripe_io_completion_def bind_eq_Some_conv ubi_set_stripe_status_eq Let_def split: if_splits
      intro!: advances_put_status)

lemma complete_fetch_advances: "ubi_complete_fetch_stripe env k res s = Some (ret, s') \<Longrightarrow> advances (ub s) (ub s')"
  by (auto simp: ubi_complete_fetch_stripe_def base_submit_def Let_def bind_eq_Some_conv split: if_splits
      dest!: fail_advances)

lemma complete_cqes_advances: "ubi_complete_cqes env cqes ret s = Some (ret', s') \<Longrightarrow> advances (ub s) (ub s')"
proof (induction cqes arbitrary: ret s)
  case (Cons c cqes)
  obtain e res where c: "c = (e, res)" by (cases c)
  let ?s = "s\<lparr>inflight := remove1 e (inflight s)\<rparr>"
  obtain r2 s2 where "ubi_complete_cqes env cqes r2 s2 = Some (ret', s')" "advances (ub ?s) (ub s2)"
  proof (cases e)
    case (Sqe_read k a m off)
    then show ?thesis
      using Cons.prems c that complete_fetch_advances [of env k res ?s]
      by (auto simp: Let_def bind_eq_Some_conv split: if_splits)
  next
    case (Sqe_readv b off)
    then show ?thesis
      using Cons.prems c that [of _ "snd (ubi_complete_read_from_image b res ?s)"]
      by (auto simp: Let_def bind_eq_Some_conv ubi_complete_read_from_image_def split: if_splits prod.splits)
  qed
  with Cons.IH show ?case using advances_trans by fastforce
qed simp

lemma start_fetch_advances:
  assumes "ubi_start_fetch_stripe env k s = Some s'"
  shows "advances (ub s) (ub s')"
proof -
  obtain s1 ret s3 where sub: "io_uring_submit env s1 = (ret, s3)" "ub s1 = ub s"
    and s': "s' = s3 \<or> ubi_fail_stripe_fetch k s3 = Some s'"
    using assms by (force simp: ubi_start_fetch_stripe_def Let_def bind_eq_Some_conv split: if_splits prod.splits)
  then show ?thesis using io_uring_submit_frame(2) [OF sub(1)] fail_advances [of k s3 s'] by auto
qed

lemma start_fetches_advances: "start_fetches env ks s = Some s' \<Longrightarrow> advances (ub s) (ub s')"
proof (induction ks arbitrary: s)
  case (Cons k ks)
  show ?case
  proof (cases "head (stripe_fetch_queue (ch s)) = tail (stripe_fetch_queue (ch s))")
    case False
    then obtain idx q s2 where s2: "ubi_start_fetch_stripe env k (assigned k idx q s) = Some s2"
      "start_fetches env ks (counted s2) = Some s'"
      using Cons.prems by (auto simp: Let_def bind_eq_Some_conv split: prod.splits)
    have "advances (ub s) (ub s2)" using start_fetch_advances [OF s2(1)] by simp
    also have "advances (ub s2) (ub s')" using Cons.IH [OF s2(2)] by simp
    finally show ?thesis .
  qed (use Cons.prems in simp)
qed simp

lemma serve_ios_frame: "serve_ios env bs s = Some s' \<Longrightarrow> ub s' = ub s"
proof (induction bs arbitrary: s)
  case (Cons b bs)
  have disp: "ub t' = ub s" if "ubi_dispatch_io env b (popped bs s) = Some t'" for t'
    using dispatch_frame(1) [OF that] by simp
  show ?case
  proof (cases "io_type b = IO_READ \<and> active_reads (ch s) \<ge> UBI_MAX_CONCURRENT_READS")
    case True
    then show ?thesis using Cons.prems by simp
  next
    case False
    then obtain v where v: "io_verdict (ub s) b = Some v" 
      using Cons.prems by (auto simp: bind_eq_Some_conv split: if_splits)
    have fail: "ub s' = ub s" if "serve_ios env bs (spdk_bdev_io_complete b False (popped bs s)) = Some s'"
      using Cons.IH [OF that] by simp
    have serve: "ub s' = ub s" if "ubi_dispatch_io env b (popped bs s) \<bind> serve_ios env bs = Some s'"
    proof -
      from that obtain t where t: "ubi_dispatch_io env b (popped bs s) = Some t" "serve_ios env bs t = Some s'"
        by (auto simp: bind_eq_Some_conv)
      show ?thesis using Cons.IH [OF t(2)] disp [OF t(1)] by simp
    qed
    show ?thesis
    proof (cases v)
      case Io_serve
      with Cons.prems False v have "ubi_dispatch_io env b (popped bs s) \<bind> serve_ios env bs = Some s'"
        by (auto split: if_splits)
      then show ?thesis by (rule serve)
    qed (use Cons.prems False v fail in \<open>auto split: if_splits\<close>)
  qed
qed simp

lemma poll_advances:
  assumes "ubi_io_poll env batch s = Some (r, s')"
  shows "advances (ub s) (ub s')"
proof -
  obtain ret s1 where s1: "ubi_complete_image_io env batch s = Some (ret, s1)"
    using assms by (auto simp: ubi_io_poll_def Let_def bind_eq_Some_conv)
  then have "advances (ub s) (ub s1)"
    using complete_cqes_advances by (cases batch) (auto simp: ubi_complete_image_io_def split: if_splits)
  moreover have "advances (ub s1) (ub s')"
    using assms s1 start_fetches_advances serve_ios_frame
    by (fastforce simp: ubi_io_poll_def Let_def bind_eq_Some_conv split: if_splits)
  ultimately show ?thesis by (rule advances_trans)
qed

lemma base_completion_advances:
  assumes "base_completion env r ok s = Some s'"
  shows "advances (ub s) (ub s')"
  using assms metadata_flush_evolves [THEN evolves_advances] write_stripe_advances
  by (cases r) (auto simp: base_completion_def ubi_io_completion_cb_def dest!: flush_completion_frame)

lemma ev_exec_advances:
  assumes "ev_exec e s = Some s'"
  shows "advances (ub s) (ub s')"
proof (cases e)
  case (Ev_submit b)
  then show ?thesis using assms submit_request_evolves evolves_advances by auto
next
  case (Ev_poll env batch)
  then show ?thesis using assms poll_advances by auto
next
  case (Ev_buf env b success)
  then show ?thesis using assms get_buf_frame(1) [of env b success] by fastforce
next
  case (Ev_base env r success)
  then show ?thesis using assms base_completion_advances [of env r success] by fastforce
qed

end
