(* ===== verification/Ubi_Reach.thy ===== *)
theory Ubi_Reach
  imports Ubi_Evolve
begin

section \<open>Runs of one channel and of many\<close>

text \<open>
  The events of one channel as a step relation, and of a bdev with any number of channels as
  the interleaving of their events on the shared bdev.  A handler runs to its end before
  another starts: on one SPDK thread this is how events are run; channels on different
  threads share the status table without a lock; what may then happen is shown in \<open>Ubi_Race\<close>.
\<close>

subsection \<open>Systems with an invariant\<close>

text \<open>
  What both systems have in common: a guarded step function that is defined and preserves an
  invariant wherever its guard holds, and a preorder along which it moves.
\<close>

locale guarded_system =
  fixes enabled :: "'e \<Rightarrow> 's \<Rightarrow> bool"
    and exec :: "'e \<Rightarrow> 's \<Rightarrow> 's option"
    and good :: "'s \<Rightarrow> bool"
  assumes exec_good: "good s \<Longrightarrow> enabled e s \<Longrightarrow> \<exists>s'. exec e s = Some s' \<and> good s'"
begin

fun run :: "'e list \<Rightarrow> 's \<Rightarrow> 's option" where
  "run [] s = Some s"
| "run (e # es) s = (case exec e s of None \<Rightarrow> None | Some s' \<Rightarrow> run es s')"

fun legal :: "'e list \<Rightarrow> 's \<Rightarrow> bool" where
  "legal [] s \<longleftrightarrow> True"
| "legal (e # es) s \<longleftrightarrow> enabled e s \<and> (\<forall>s'. exec e s = Some s' \<longrightarrow> legal es s')"

lemma run_good: "good s \<Longrightarrow> legal es s \<Longrightarrow> \<exists>s'. run es s = Some s' \<and> good s'"
proof (induction es arbitrary: s)
  case (Cons e es)
  then obtain s1 where "exec e s = Some s1" "good s1" using exec_good by force
  with Cons show ?case by auto
qed simp

definition step :: "'s \<Rightarrow> 's \<Rightarrow> bool" where
  "step s s' \<longleftrightarrow> (\<exists>e. enabled e s \<and> exec e s = Some s')"

lemma steps_good: "step\<^sup>*\<^sup>* s s' \<Longrightarrow> good s \<Longrightarrow> good s'"
proof (induction rule: rtranclp_induct)
  case (step x y)
  then obtain e where "enabled e x" "exec e x = Some y" by (auto simp: step_def)
  with exec_good step show ?case by fastforce
qed

end

locale monotone_system = guarded_system enabled exec good
  for enabled :: "'e \<Rightarrow> 's \<Rightarrow> bool" and exec :: "'e \<Rightarrow> 's \<Rightarrow> 's option" and good :: "'s \<Rightarrow> bool" +
  fixes le :: "'s \<Rightarrow> 's \<Rightarrow> bool"
  assumes le_refl: "le s s"
    and le_trans: "le a b \<Longrightarrow> le b c \<Longrightarrow> le a c"
    and exec_le: "good s \<Longrightarrow> enabled e s \<Longrightarrow> exec e s = Some s' \<Longrightarrow> le s s'"
begin

lemma steps_le: "step\<^sup>*\<^sup>* s s' \<Longrightarrow> good s \<Longrightarrow> le s s'"
proof (induction rule: rtranclp_induct)
  case base
  then show ?case by (simp add: le_refl)
next
  case (step x y)
  then obtain e where "enabled e x" "exec e x = Some y" by (auto simp: step_def)
  then have "le x y" using exec_le steps_good [OF step(1)] step.prems by blast
  with step show ?case using le_trans by blast
qed

end

subsection \<open>One channel\<close>

inductive ubi_step :: "ubi_state \<Rightarrow> ubi_event \<Rightarrow> ubi_state \<Rightarrow> bool" where
  submit: "io_ok (ub s) b \<Longrightarrow> ubi_submit_request b s = Some s' \<Longrightarrow> ubi_step s (Ev_submit b) s'"
| poll: "uring_ok env \<Longrightarrow>
    (case batch of Inl err \<Rightarrow> err < 0
     | Inr cqes \<Rightarrow> length cqes \<le> 64 \<and> mset (map fst cqes) \<subseteq># mset (inflight s)) \<Longrightarrow>
    ubi_io_poll env batch s = Some (r, s') \<Longrightarrow> ubi_step s (Ev_poll env batch) s'"
| buf: "uring_ok env \<Longrightarrow> b \<in> set (buf_wait s) \<Longrightarrow>
    get_buf_for_read_cb env b success (s\<lparr>buf_wait := remove1 b (buf_wait s)\<rparr>) = Some s' \<Longrightarrow>
    ubi_step s (Ev_buf env b success) s'"
| base: "uring_ok env \<Longrightarrow> r \<in> set (base_reqs s) \<Longrightarrow>
    base_completion env r success (s\<lparr>base_reqs := remove1 r (base_reqs s)\<rparr>) = Some s' \<Longrightarrow>
    ubi_step s (Ev_base env r success) s'"

inductive_cases ubi_step_submitE: "ubi_step s (Ev_submit b) s'"
inductive_cases ubi_step_pollE: "ubi_step s (Ev_poll env batch) s'"
inductive_cases ubi_step_bufE: "ubi_step s (Ev_buf env b success) s'"
inductive_cases ubi_step_baseE: "ubi_step s (Ev_base env r success) s'"

text \<open>The states a channel can be in, from a state \<open>s0\<close>.\<close>

inductive ubi_reachable :: "ubi_state \<Rightarrow> ubi_state \<Rightarrow> bool" for s0 where
  start: "ubi_reachable s0 s0"
| step: "ubi_reachable s0 s \<Longrightarrow> ubi_step s e s' \<Longrightarrow> ubi_reachable s0 s'"

abbreviation ev_allowed :: "ubi_event \<Rightarrow> ubi_state \<Rightarrow> bool" where
  "ev_allowed e s \<equiv> ev_enabled e s \<and> ev_ok e"

lemma ubi_step_iff: "ubi_step s e s' \<longleftrightarrow> ev_allowed e s \<and> ev_exec e s = Some s'"
  by (cases e) (auto simp: ev_ok_def elim!: ubi_step.cases intro: ubi_step.intros)

lemma inv_buf_event:
  assumes I: "inv_st z oth X n s" and b: "b \<in> set (buf_wait s)"
  shows "\<exists>s'. get_buf_for_read_cb env b ok (s\<lparr>buf_wait := remove1 b (buf_wait s)\<rparr>) = Some s' \<and> inv_st z oth X n s'"
proof -
  let ?s = "s\<lparr>buf_wait := remove1 b (buf_wait s)\<rparr>"
  have R: "reads s = add_mset b (reads ?s)"
    using b by (simp add: reads_def ring_def mset_remove1)
  then have "inv_st z oth X (Suc n) ?s"
    using I by (auto simp: inv_st_def read_ok_def)
  moreover have "io_type b = IO_READ" "io_ok (ub s) b" "io_op_type (driver_ctx s (io_id b)) = UBI_BDEV_IO"
    using I R by (simp_all add: inv_st_def read_ok_def)
  ultimately show ?thesis using inv_get_buf by simp
qed

text \<open>
  Every event keeps the invariant; one whose submissions fail leaves at most as many stale
  operations behind as there are slots.  An event is defined when the ring has room for a fetch
  in every slot, or when no submission has failed so far.
\<close>

abbreviation ev_lapses :: "ubi_event \<Rightarrow> nat" where
  "ev_lapses e \<equiv> if ev_submits e then 0 else 8"

lemma ev_exec_inv:
  assumes I: "inv_st z oth {#} 0 s" and en: "ev_enabled e s" and run: "ev_exec e s = Some s'"
  shows "inv_st (z + ev_lapses e) oth {#} 0 s'"
proof (cases e)
  case (Ev_poll env batch)
  then obtain r where r: "ubi_io_poll env batch s = Some (r, s')" using run by auto
  have "mset (map fst cqes) \<subseteq># mset (inflight s)" if "batch = Inr cqes" for cqes using en Ev_poll that by simp
  from inv_poll [OF I this r] Ev_poll show ?thesis by (simp add: ev_submits_def)
next
  case (Ev_submit b)
  then have "inv_st z oth {#} 0 s'" using inv_submit_request [OF I, of b] en run by simp
  then show ?thesis by (rule inv_st_mono) simp
next
  case (Ev_buf env b success)
  then have "inv_st z oth {#} 0 s'" using inv_buf_event [OF I, of b env success] en run by simp
  then show ?thesis by (rule inv_st_mono) simp
next
  case (Ev_base env r success)
  then have "inv_st z oth {#} 0 s'" using inv_base_completion [OF I, of r env success] en run by simp
  then show ?thesis by (rule inv_st_mono) simp
qed

lemma ev_exec_defined:
  assumes I: "inv_st z oth {#} 0 s" and en: "ev_enabled e s" "ev_doc e"
    and room: "length (sq s) + 8 \<le> UBI_URING_QUEUE_SIZE \<or> z = 0 \<and> ev_submits e"
  shows "\<exists>s'. ev_exec e s = Some s'"
proof (cases e)
  case (Ev_poll env batch)
  have "mset (map fst cqes) \<subseteq># mset (inflight s)" if "batch = Inr cqes" for cqes using en Ev_poll that by simp
  from poll_defined [where env = env and batch = batch, OF I _ this] en(2) room Ev_poll show ?thesis by (auto simp: ev_submits_def ev_doc_def)
next
  case (Ev_submit b)
  then show ?thesis using inv_submit_request [OF I, of b] en by auto
next
  case (Ev_buf env b success)
  then show ?thesis using inv_buf_event [OF I, of b env success] en by auto
next
  case (Ev_base env r success)
  then show ?thesis using inv_base_completion [OF I, of r env success] en by auto
qed

lemma ev_exec_good:
  assumes "inv_gen oth {#} 0 s" "ev_allowed e s"
  shows "\<exists>s'. ev_exec e s = Some s' \<and> inv_gen oth {#} 0 s'"
  using ev_exec_defined [OF assms(1), of e] ev_exec_inv [OF assms(1), of e] assms(2) by (auto simp: ev_ok_iff)

lemma ev_exec_evolves:
  assumes "inv_gen oth {#} 0 s" "ev_allowed e s" "ev_exec e s = Some s'"
  shows "evolves (ub s) (ub s')"
proof (cases e)
  case (Ev_poll env batch)
  with assms obtain r where "ubi_io_poll env batch s = Some (r, s')" by auto
  with assms Ev_poll show ?thesis
    by (intro poll_evolves [of oth s env batch]) (auto simp: ev_ok_def split: sum.splits)
qed (use assms submit_request_evolves base_completion_evolves get_buf_frame(1) in \<open>fastforce+\<close>)

interpretation chan: monotone_system "ev_allowed" ev_exec "inv_gen oth {#} 0" "\<lambda>s s'. evolves (ub s) (ub s')"
  for oth
  by unfold_locales (auto intro: evolves_trans ev_exec_evolves simp: ev_exec_good)

lemma ubi_reachable_steps: "ubi_reachable s0 s \<longleftrightarrow> chan.step\<^sup>*\<^sup>* s0 s"
proof
  show "ubi_reachable s0 s \<Longrightarrow> chan.step\<^sup>*\<^sup>* s0 s"
    by (induction rule: ubi_reachable.induct)
      (auto simp: ubi_step_iff chan.step_def intro: rtranclp.rtrancl_into_rtrancl)
  show "chan.step\<^sup>*\<^sup>* s0 s \<Longrightarrow> ubi_reachable s0 s"
    by (induction rule: rtranclp_induct)
      (auto simp: ubi_step_iff chan.step_def intro: ubi_reachable.intros)
qed

lemma reachable_inv: "ubi_reachable s0 s \<Longrightarrow> inv_gen oth {#} 0 s0 \<Longrightarrow> inv_gen oth {#} 0 s"
  using chan.steps_good ubi_reachable_steps by blast

lemma reachable_evolves: "ubi_reachable s0 s \<Longrightarrow> inv_gen oth {#} 0 s0 \<Longrightarrow> evolves (ub s0) (ub s)"
  using chan.steps_le ubi_reachable_steps by blast

text \<open>
  Runs in which a submission may fail.  Such a run keeps the invariant with a bound on the stale
  operations; one in which none fails is a run as above.
\<close>

inductive io_run :: "ubi_state \<Rightarrow> ubi_event list \<Rightarrow> ubi_state \<Rightarrow> bool" for s0 where
  nil: "io_run s0 [] s0"
| snoc: "io_run s0 es s \<Longrightarrow> ev_enabled e s \<Longrightarrow> ev_doc e \<Longrightarrow> ev_exec e s = Some s' \<Longrightarrow> io_run s0 (es @ [e]) s'"

definition failing :: "ubi_event list \<Rightarrow> nat" where
  "failing es = length (filter (\<lambda>e. \<not> ev_submits e) es)"

lemma failing_simps [simp]: "failing [] = 0" "failing (es @ [e]) = failing es + (if ev_submits e then 0 else 1)"
  by (simp_all add: failing_def)

lemma failing_none: "failing es = 0 \<longleftrightarrow> (\<forall>e \<in> set es. ev_submits e)"
  by (auto simp: failing_def filter_empty_conv)

lemma io_run_inv: "io_run s0 es s \<Longrightarrow> inv_gen oth {#} 0 s0 \<Longrightarrow> inv_st (8 * failing es) oth {#} 0 s"
proof (induction rule: io_run.induct)
  case (snoc es s e s')
  then show ?case using ev_exec_inv [of "8 * failing es" oth s e s'] by auto
qed simp

lemma io_run_advances: "io_run s0 es s \<Longrightarrow> advances (ub s0) (ub s)"
  by (induction rule: io_run.induct) (auto intro: advances_trans ev_exec_advances)

lemma io_run_reachable: "io_run s0 es s \<Longrightarrow> \<forall>e \<in> set es. ev_submits e \<Longrightarrow> ubi_reachable s0 s"
  by (induction rule: io_run.induct) (auto intro: ubi_reachable.intros simp: ubi_step_iff ev_ok_iff)

lemma reachable_io_run: "ubi_reachable s0 s \<Longrightarrow> \<exists>es. io_run s0 es s \<and> (\<forall>e \<in> set es. ev_submits e)"
proof (induction rule: ubi_reachable.induct)
  case start
  show ?case by (rule exI [of _ "[]"]) (simp add: io_run.nil)
next
  case (step s e s')
  then obtain es where "io_run s0 es s" "\<forall>e \<in> set es. ev_submits e" by blast
  with step show ?case by (intro exI [of _ "es @ [e]"]) (auto simp: ubi_step_iff ev_ok_iff intro: io_run.snoc)
qed

lemma io_run_append: "io_run s1 es' s2 \<Longrightarrow> io_run s0 es s1 \<Longrightarrow> io_run s0 (es @ es') s2"
proof (induction rule: io_run.induct)
  case (snoc es' s e s')
  then show ?case using io_run.snoc [of s0 "es @ es'" s e s'] by simp
qed simp

subsection \<open>Many channels\<close>

text \<open>
  Each channel has its own queue, slots, ring and requests (\<open>ubi_state\<close> without its bdev); the
  bdev is one.  An event of channel \<open>i\<close> runs on the shared bdev and channel \<open>i\<close>'s part.
\<close>

record ubi_sys =
  sys_ub :: ubi_bdev
  sys_chans :: "ubi_state list"

definition sys_chan :: "ubi_sys \<Rightarrow> nat \<Rightarrow> ubi_state" where
  "sys_chan S i = (sys_chans S ! i)\<lparr>ub := sys_ub S\<rparr>"

fun sys_exec :: "nat \<times> ubi_event \<Rightarrow> ubi_sys \<Rightarrow> ubi_sys option" where
  "sys_exec (i, e) S =
     (if i < length (sys_chans S) then
        map_option (\<lambda>s'. S\<lparr>sys_ub := ub s', sys_chans := (sys_chans S)[i := s']\<rparr>) (ev_exec e (sys_chan S i))
      else None)"

fun sys_allowed :: "nat \<times> ubi_event \<Rightarrow> ubi_sys \<Rightarrow> bool" where
  "sys_allowed (i, e) S \<longleftrightarrow> i < length (sys_chans S) \<and> ev_allowed e (sys_chan S i)"

text \<open>The stripes the channels other than \<open>i\<close> have queued or in a fetch slot.\<close>

definition sys_others :: "ubi_sys \<Rightarrow> nat \<Rightarrow> nat set" where
  "sys_others S i = (\<Union>j \<in> {..<length (sys_chans S)} - {i}. owned (ch (sys_chans S ! j)))"

definition sys_owned :: "ubi_sys \<Rightarrow> nat set" where
  "sys_owned S = (\<Union>j < length (sys_chans S). owned (ch (sys_chans S ! j)))"

text \<open>
  The part of the invariant that is about the bdev alone.  After a failed submission the counters
  are no longer those of the table, and a header may stand for a stripe that failed later.
\<close>

definition bdev_ok :: "ubi_bdev \<Rightarrow> bool" where
  "bdev_ok u \<longleftrightarrow> conf_ok u \<and> fetched_set u = header_set (metadata u) \<and>
     unat (stripes_fetched u) = card (fetched_set u) \<and> stripes_flushed u \<le> stripes_fetched u \<and>
     inflight_set u \<subseteq> {..<image_stripes u}"

definition bdev_st :: "nat \<Rightarrow> ubi_bdev \<Rightarrow> bool" where
  "bdev_st z u \<longleftrightarrow> conf_ok u \<and> fetched_set u \<subseteq> header_set (metadata u) \<and>
     inflight_set u \<subseteq> {..<image_stripes u} \<and> (z = 0 \<longrightarrow> bdev_ok u)"

definition sys_st :: "nat \<Rightarrow> ubi_sys \<Rightarrow> bool" where
  "sys_st z S \<longleftrightarrow>
     bdev_st z (sys_ub S) \<and> inflight_set (sys_ub S) = sys_owned S \<and>
     (\<forall>i < length (sys_chans S). inv_st z (sys_others S i) {#} 0 (sys_chan S i))"

abbreviation sys_inv :: "ubi_sys \<Rightarrow> bool" where
  "sys_inv \<equiv> sys_st 0"

lemma bdev_st_ok: "bdev_st 0 u = bdev_ok u" "bdev_ok u \<Longrightarrow> bdev_st z u"
  by (auto simp: bdev_st_def bdev_ok_def)

lemma sys_inv_def:
  "sys_inv S \<longleftrightarrow>
     bdev_ok (sys_ub S) \<and> inflight_set (sys_ub S) = sys_owned S \<and>
     (\<forall>i < length (sys_chans S). inv_gen (sys_others S i) {#} 0 (sys_chan S i))"
  by (simp add: sys_st_def bdev_st_ok)

lemma sys_invD: "sys_st z S \<Longrightarrow> i < length (sys_chans S) \<Longrightarrow> inv_st z (sys_others S i) {#} 0 (sys_chan S i)"
  by (simp add: sys_st_def)

lemma sys_owned_split: "i < length (sys_chans S) \<Longrightarrow> sys_owned S = owned (ch (sys_chans S ! i)) \<union> sys_others S i"
  by (auto simp: sys_owned_def sys_others_def)

lemma inv_bdev_st:
  "inv_st z oth X n s \<Longrightarrow> bdev_st z (ub s)" "inv_st z oth X n s \<Longrightarrow> inflight_set (ub s) = owned (ch s) \<union> oth"
  by (auto simp: bdev_st_def bdev_ok_def inv_st_def md_st_def md_ok_def fetch_st_def)

lemma inv_bdev_ok:
  "inv_gen oth X n s \<Longrightarrow> bdev_ok (ub s)" "inv_gen oth X n s \<Longrightarrow> inflight_set (ub s) = owned (ch s) \<union> oth"
  using inv_bdev_st [of 0] by (simp_all add: bdev_st_ok)

lemma evolves_not_fetched:
  "evolves u u' \<Longrightarrow> stripe_status u' i = STRIPE_NOT_FETCHED \<Longrightarrow> stripe_status u i = STRIPE_NOT_FETCHED"
  by (metis evolves_def status_order(2))

text \<open>What a channel keeps while another channel moves the bdev.\<close>

lemma inv_other_channel:
  assumes I: "inv_st z oth {#} 0 s" and adv: "advances (ub s) u'" and ev: "z = 0 \<Longrightarrow> evolves (ub s) u'"
    and md: "md_st z u' ctx B"
    and infl: "inflight_set u' = owned (ch s) \<union> oth'" "owned (ch s) \<inter> oth' = {}"
    and bound: "oth' \<subseteq> {..<image_stripes u'}"
  shows "inv_st z oth' {#} 0 (s\<lparr>ub := u'\<rparr>)"
proof -
  note conf = advances_config [OF adv]
  have ios: "io_ok u' b = io_ok (ub s) b" for b
    by (simp add: io_ok_def block_stripe_def conf)
  have img: "image_stripes u' = image_stripes (ub s)"
    by (simp add: image_stripes_def conf)
  have nf: "not_forgotten (ub s) b \<Longrightarrow> not_forgotten u' b" for b
    using advances_not_fetched [OF adv] by (auto simp: not_forgotten_def stripe_of_def conf)
  have cnt: "stripes_fetched (ub s) \<le> stripes_fetched u'" if "z = 0"
    using ev [OF that] by (simp add: evolves_def)
  have slot: "slot_ok (ub s) (ch s) k \<Longrightarrow> slot_ok u' (ch s) k" for k
    using advances_decided [OF adv] by (auto simp: slot_ok_def)
  have "conf_ok u'" using I by (simp add: inv_st_def conf_ok_def img conf)
  moreover have "fetch_st z oth' {#} u' (ch s) (fetch_slots s)"
    using I infl bound slot by (simp add: inv_st_def fetch_st_def img)
  moreover have "read_ok 0 u' (ch s) (reads s) (driver_ctx s)"
    using I by (simp add: inv_st_def read_ok_def ios)
  moreover have "ios_ok u' (ch_io (ch s))"
    using I nf by (simp add: inv_st_def ios_ok_def ios)
  moreover have "md_st z u' (driver_ctx s) (mset (base_reqs s))"
    using I md cnt by (auto simp: inv_st_def md_st_def md_ok_def intro: order_trans)
  ultimately show ?thesis
    using I by (simp add: inv_st_def)
qed

lemma sys_st_mono: "sys_st z S \<Longrightarrow> z \<le> z' \<Longrightarrow> sys_st z' S"
  using inv_st_mono by (auto simp: sys_st_def bdev_st_def)

text \<open>An event of one channel: the others see the bdev it leaves.\<close>

lemma sys_exec_inv:
  assumes I0: "sys_st z0 S" and i: "i < length (sys_chans S)" and z: "z0 \<le> z"
    and s': "ev_exec e (sys_chan S i) = Some s'" "inv_st z (sys_others S i) {#} 0 s'"
    and up: "z = 0 \<Longrightarrow> evolves (sys_ub S) (ub s')"
  shows "sys_st z (S\<lparr>sys_ub := ub s', sys_chans := (sys_chans S)[i := s']\<rparr>)"
proof -
  note I = sys_st_mono [OF I0 z] and adv = ev_exec_advances [OF s'(1)]
  define S' where "S' = S\<lparr>sys_ub := ub s', sys_chans := (sys_chans S)[i := s']\<rparr>"
  have chan: "sys_chan S' j = (if j = i then s' else (sys_chan S j)\<lparr>ub := ub s'\<rparr>)" if "j < length (sys_chans S)" for j
    using that i by (simp add: S'_def sys_chan_def)
  have own: "owned (ch (sys_chans S' ! j)) = (if j = i then owned (ch s') else owned (ch (sys_chans S ! j)))"
    if "j < length (sys_chans S)" for j
    using that i by (simp add: S'_def)
  have len [simp]: "length (sys_chans S') = length (sys_chans S)" by (simp add: S'_def)
  have oth_i: "sys_others S' i = sys_others S i"
    unfolding sys_others_def by (auto simp: own)
  have "inv_st z (sys_others S' j) {#} 0 (sys_chan S' j)" if j: "j < length (sys_chans S)" for j
  proof (cases "j = i")
    case True
    then show ?thesis using s'(2) i oth_i by (simp add: chan)
  next
    case False
    note Ij = sys_invD [OF I j]
    have sub: "owned (ch (sys_chans S ! j)) \<subseteq> sys_others S i"
      using j False by (auto simp: sys_others_def)
    have oth_j: "sys_others S' j = owned (ch s') \<union> (\<Union>k \<in> {..<length (sys_chans S)} - {i, j}. owned (ch (sys_chans S ! k)))"
      unfolding sys_others_def using False i by (auto simp: own split: if_splits)
    have oth_i2: "sys_others S i = owned (ch (sys_chans S ! j)) \<union> (\<Union>k \<in> {..<length (sys_chans S)} - {i, j}. owned (ch (sys_chans S ! k)))"
      unfolding sys_others_def using False j by auto
    have F: "inflight_set (ub s') = owned (ch s') \<union> sys_others S i" "owned (ch s') \<inter> sys_others S i = {}"
        "owned (ch s') \<union> sys_others S i \<subseteq> {..<image_stripes (ub s')}"
      and md: "md_st z (ub s') (driver_ctx s') (mset (base_reqs s'))"
      using s'(2) by (simp_all add: inv_st_def fetch_st_def)
    have Fj: "owned (ch (sys_chans S ! j)) \<inter> sys_others S j = {}"
      using Ij by (simp add: inv_st_def fetch_st_def sys_chan_def)
    have rest: "(\<Union>k \<in> {..<length (sys_chans S)} - {i, j}. owned (ch (sys_chans S ! k))) \<subseteq> sys_others S j"
      by (auto simp: sys_others_def)
    have "inv_st z (sys_others S' j) {#} 0 ((sys_chan S j)\<lparr>ub := ub s'\<rparr>)"
    proof (rule inv_other_channel [OF Ij _ _ md])
      show "advances (ub (sys_chan S j)) (ub s')" using adv by (simp add: sys_chan_def)
      show "evolves (ub (sys_chan S j)) (ub s')" if "z = 0" using up [OF that] by (simp add: sys_chan_def)
      show "inflight_set (ub s') = owned (ch (sys_chan S j)) \<union> sys_others S' j"
        using F(1) oth_i2 oth_j by (auto simp: sys_chan_def)
      show "owned (ch (sys_chan S j)) \<inter> sys_others S' j = {}"
        using F(2) Fj sub rest oth_j by (auto simp: sys_chan_def)
      show "sys_others S' j \<subseteq> {..<image_stripes (ub s')}"
        using F(3) oth_i2 oth_j by auto
    qed
    then show ?thesis using False j by (simp add: chan)
  qed
  moreover have "inflight_set (sys_ub S') = sys_owned S'"
    using inv_bdev_st(2) [OF s'(2)] i by (simp add: S'_def sys_owned_split oth_i [unfolded S'_def])
  ultimately show ?thesis
    using inv_bdev_st(1) [OF s'(2)] unfolding S'_def [symmetric] by (simp add: sys_st_def S'_def)
qed

lemma sys_exec_st:
  assumes I: "sys_st z S" and i: "i < length (sys_chans S)" and en: "ev_enabled e (sys_chan S i)" "ev_doc e"
    and run: "sys_exec (i, e) S = Some S'"
  shows "sys_st (z + ev_lapses e) S'"
proof -
  obtain s' where s': "ev_exec e (sys_chan S i) = Some s'" "S' = S\<lparr>sys_ub := ub s', sys_chans := (sys_chans S)[i := s']\<rparr>"
    using run i by auto
  have "evolves (sys_ub S) (ub s')" if "z + ev_lapses e = 0"
  proof -
    have "z = 0" "ev_submits e" using that by (auto split: if_splits)
    then show ?thesis
      using ev_exec_evolves [of "sys_others S i" "sys_chan S i" e s'] sys_invD [OF I i] en s'(1)
      by (simp add: ev_ok_iff sys_chan_def)
  qed
  then show ?thesis
    unfolding s'(2) by (intro sys_exec_inv [OF I i _ s'(1) ev_exec_inv [OF sys_invD [OF I i] en(1) s'(1)]]) simp_all
qed

lemma sys_exec_good:
  assumes I: "sys_inv S" and al: "sys_allowed (i, e) S"
  shows "\<exists>S'. sys_exec (i, e) S = Some S' \<and> sys_inv S' \<and> evolves (sys_ub S) (sys_ub S')"
proof -
  have i: "i < length (sys_chans S)" and ev: "ev_allowed e (sys_chan S i)" using al by simp_all
  note Ii = sys_invD [OF I i]
  obtain s' where s': "ev_exec e (sys_chan S i) = Some s'" "inv_gen (sys_others S i) {#} 0 s'"
    using ev_exec_good [OF Ii ev] by blast
  have up: "evolves (sys_ub S) (ub s')" using ev_exec_evolves [OF Ii ev s'(1)] by (simp add: sys_chan_def)
  show ?thesis using sys_exec_inv [OF I i _ s' up] s'(1) i up by simp
qed

interpretation sys: monotone_system sys_allowed sys_exec sys_inv "\<lambda>S S'. evolves (sys_ub S) (sys_ub S')"
proof unfold_locales
  fix S e assume "sys_inv S" "sys_allowed e S"
  then show "\<exists>S'. sys_exec e S = Some S' \<and> sys_inv S'" using sys_exec_good by (cases e) blast
next
  fix S e S' assume "sys_inv S" "sys_allowed e S" "sys_exec e S = Some S'"
  then show "evolves (sys_ub S) (sys_ub S')" using sys_exec_good by (cases e) fastforce
qed (auto intro: evolves_trans)

end
