(* ===== verification/Ubi_Channel.thy ===== *)
theory Ubi_Channel
  imports Ubi_Reach
begin

section \<open>Creating and destroying I/O channels (\<^verbatim>\<open>bdev_ubi_io_channel.c\<close>)\<close>

text \<open>
  The two callbacks SPDK runs when a thread gets its first and drops its last reference to a
  channel.  What a channel holds outside its own memory is a multiset of resources; giving
  back a resource that is not held is undefined.  What the calls into SPDK, liburing and the
  kernel return is a \<open>chan_env\<close>; the test switches of the file are a record of their own.
\<close>

subsection \<open>Test switches\<close>

record test_control =
  g_fail_register_poller :: bool
  g_fail_create_base_ch :: bool
  g_fail_image_file_open :: bool
  g_fail_uring_queue_init :: bool
  g_fail_create_channel_for_metadata_read :: bool
  g_fail_calloc_ubi_bdev :: bool

definition no_faults :: test_control where
  "no_faults = \<lparr>g_fail_register_poller = False, g_fail_create_base_ch = False,
     g_fail_image_file_open = False, g_fail_uring_queue_init = False,
     g_fail_create_channel_for_metadata_read = False, g_fail_calloc_ubi_bdev = False\<rparr>"

definition ubi_io_channel_fail_register_poller :: "bool \<Rightarrow> test_control \<Rightarrow> test_control" where
  "ubi_io_channel_fail_register_poller fail t = t\<lparr>g_fail_register_poller := fail\<rparr>"

definition ubi_io_channel_fail_create_base_ch :: "bool \<Rightarrow> test_control \<Rightarrow> test_control" where
  "ubi_io_channel_fail_create_base_ch fail t = t\<lparr>g_fail_create_base_ch := fail\<rparr>"

definition ubi_io_channel_fail_image_file_open :: "bool \<Rightarrow> test_control \<Rightarrow> test_control" where
  "ubi_io_channel_fail_image_file_open fail t = t\<lparr>g_fail_image_file_open := fail\<rparr>"

definition ubi_io_channel_fail_uring_queue_init :: "bool \<Rightarrow> test_control \<Rightarrow> test_control" where
  "ubi_io_channel_fail_uring_queue_init fail t = t\<lparr>g_fail_uring_queue_init := fail\<rparr>"

subsection \<open>Resources\<close>

datatype resource =
    R_poller
  | R_base_channel
  | R_image_fd int
  | R_uring
  | R_ubi_bdev
  | R_name
  | R_desc
  | R_claim
  | R_io_device
  | R_context

definition release :: "resource \<Rightarrow> resource multiset \<Rightarrow> resource multiset option" where
  "release r held = (if r \<in># held then Some (held - {#r#}) else None)"

lemma release_add [simp]: "release r (add_mset r held) = Some held"
  by (simp add: release_def)

lemma release_add_other [simp]:
  "r \<noteq> r' \<Longrightarrow> release r (add_mset r' held) = map_option (add_mset r') (release r held)"
  by (simp add: release_def)

subsection \<open>The callbacks\<close>

record chan_env =
  e_poller :: bool
  e_base_channel :: bool
  e_open :: "string \<Rightarrow> bool \<Rightarrow> int"
  e_uring :: int

text \<open>The loop that resets the slots.\<close>

definition reset_fetches :: "stripe_fetch list \<Rightarrow> stripe_fetch list" where
  "reset_fetches sfs = map (\<lambda>sf. sf\<lparr>active := False\<rparr>) sfs"

definition ubi_create_channel_cb ::
    "test_control \<Rightarrow> chan_env \<Rightarrow> ubi_bdev \<Rightarrow> ubi_io_channel \<Rightarrow> resource multiset \<Rightarrow>
     (int \<times> ubi_io_channel \<times> resource multiset) option" where
  "ubi_create_channel_cb t env u c held = do {
     let c = c\<lparr>ch_io := []\<rparr>;
     let c = c\<lparr>poller := \<not> g_fail_register_poller t \<and> e_poller env\<rparr>;
     if \<not> poller c then Some (- ENOMEM, c, held)
     else do {
       let held = add_mset R_poller held;
       let c = c\<lparr>base_channel := \<not> g_fail_create_base_ch t \<and> e_base_channel env\<rparr>;
       if \<not> base_channel c then do {
         held \<leftarrow> release R_poller held;
         Some (- ENOMEM, c\<lparr>poller := False\<rparr>, held)
       } else do {
         let held = add_mset R_base_channel held;
         let c = c\<lparr>stripe_fetch_queue := (stripe_fetch_queue c)\<lparr>head := 0, tail := 0\<rparr>\<rparr>;
         let c = c\<lparr>stripe_fetches := reset_fetches (stripe_fetches c)\<rparr>;
         let c = c\<lparr>image_file_fd := if g_fail_image_file_open t then - 1
                                   else e_open env (image_path u) (directio u)\<rparr>;
         if image_file_fd c < 0 then do {
           held \<leftarrow> release R_poller held;
           held \<leftarrow> release R_base_channel held;
           Some (- EINVAL, c\<lparr>poller := False\<rparr>, held)
         } else do {
           let held = add_mset (R_image_fd (image_file_fd c)) held;
           let rc = (if g_fail_uring_queue_init t then - 1 else e_uring env);
           if rc \<noteq> 0 then do {
             held \<leftarrow> release R_poller held;
             held \<leftarrow> release R_base_channel held;
             held \<leftarrow> release (R_image_fd (image_file_fd c)) held;
             Some (- EINVAL, c\<lparr>poller := False\<rparr>, held)
           } else Some (0, c, add_mset R_uring held)
         }
       }
     }
   }"

definition ubi_destroy_channel_cb ::
    "ubi_io_channel \<Rightarrow> resource multiset \<Rightarrow> (ubi_io_channel \<times> resource multiset) option" where
  "ubi_destroy_channel_cb c held = do {
     held \<leftarrow> release R_poller held;
     let c = c\<lparr>poller := False\<rparr>;
     held \<leftarrow> release (R_image_fd (image_file_fd c)) held;
     held \<leftarrow> release R_uring held;
     held \<leftarrow> release R_base_channel held;
     Some (c, held)
   }"

text \<open>What a channel holds while it is open.\<close>

definition chan_resources :: "ubi_io_channel \<Rightarrow> resource multiset" where
  "chan_resources c = {#R_poller, R_base_channel, R_image_fd (image_file_fd c), R_uring#}"

subsection \<open>Outcomes\<close>

text \<open>Whether each of the four acquisitions of a channel succeeds.\<close>

definition channel_opens :: "test_control \<Rightarrow> chan_env \<Rightarrow> ubi_bdev \<Rightarrow> bool" where
  "channel_opens t env u \<longleftrightarrow>
     \<not> g_fail_register_poller t \<and> e_poller env \<and> \<not> g_fail_create_base_ch t \<and> e_base_channel env \<and>
     \<not> g_fail_image_file_open t \<and> 0 \<le> e_open env (image_path u) (directio u) \<and>
     \<not> g_fail_uring_queue_init t \<and> e_uring env = 0"

lemma create_channel_cases:
  "\<exists>rc c' held'. ubi_create_channel_cb t env u c held = Some (rc, c', held') \<and>
     (if channel_opens t env u
      then rc = 0 \<and> held' = held + chan_resources c' \<and>
           c' = c\<lparr>ch_io := [], poller := True, base_channel := True,
                  stripe_fetch_queue := (stripe_fetch_queue c)\<lparr>head := 0, tail := 0\<rparr>,
                  stripe_fetches := reset_fetches (stripe_fetches c),
                  image_file_fd := e_open env (image_path u) (directio u)\<rparr>
      else rc < 0 \<and> held' = held)"
  by (auto simp: ubi_create_channel_cb_def channel_opens_def chan_resources_def Let_def)

lemma destroy_channel:
  "ubi_destroy_channel_cb c (held + chan_resources c) = Some (c\<lparr>poller := False\<rparr>, held)"
  by (simp add: ubi_destroy_channel_cb_def chan_resources_def)

subsection \<open>A fresh channel satisfies the invariant\<close>

text \<open>
  SPDK hands out zeroed memory for a channel; the addresses of the bounce buffers are where
  the memory happens to be.
\<close>

definition zero_ctx :: ubi_bdev_io where
  "zero_ctx = \<lparr>io_op_type = UBI_BDEV_IO, block_offset = 0, block_count = 0, io_stripes_fetched = 0\<rparr>"

definition zero_channel :: "(nat \<Rightarrow> u64) \<Rightarrow> ubi_io_channel" where
  "zero_channel bufs = \<lparr>poller = False, base_channel = False, blocks_read = 0, blocks_written = 0,
     ch_stripes_fetched = 0, active_reads = 0,
     stripe_fetches = map (\<lambda>k. \<lparr>op_type = UBI_BDEV_IO, active = False, stripe_idx = 0,
                                 buf = bufs k, buf_aligned = 0\<rparr>) [0..<UBI_MAX_ACTIVE_STRIPE_FETCHES],
     stripe_fetch_queue = \<lparr>entries = \<lambda>_. 0, head = 0, tail = 0\<rparr>,
     image_file_fd = 0, has_reads = 0, ch_io = []\<rparr>"

definition fresh_state :: "ubi_bdev \<Rightarrow> ubi_io_channel \<Rightarrow> ubi_state" where
  "fresh_state u c = \<lparr>ub = u, ch = c, driver_ctx = \<lambda>_. zero_ctx, sq = [], inflight = [], base_reqs = [],
     buf_wait = [], completed = [], clock = 0\<rparr>"

lemma fresh_channel_owns_nothing:
  assumes "ubi_create_channel_cb t env u (zero_channel bufs) held = Some (0, c, held')"
  shows "act c = {}" "queued c = []" "queue_ok (stripe_fetch_queue c)" "length (stripe_fetches c) = 8"
    "active_reads c = 0" "ch_io c = []" "owned c = {}"
proof -
  have "channel_opens t env u"
    using assms create_channel_cases [of t env u "zero_channel bufs" held] by (auto split: if_splits)
  then have "c = (zero_channel bufs)\<lparr>ch_io := [], poller := True, base_channel := True,
                  stripe_fetch_queue := (stripe_fetch_queue (zero_channel bufs))\<lparr>head := 0, tail := 0\<rparr>,
                  stripe_fetches := reset_fetches (stripe_fetches (zero_channel bufs)),
                  image_file_fd := e_open env (image_path u) (directio u)\<rparr>"
    using assms create_channel_cases [of t env u "zero_channel bufs" held] by auto
  then show "act c = {}" "queued c = []" "queue_ok (stripe_fetch_queue c)" "length (stripe_fetches c) = 8"
    "active_reads c = 0" "ch_io c = []" "owned c = {}"
    by (auto simp: zero_channel_def act_def queued_def queue_list_def queue_len_def queue_ok_def
        reset_fetches_def owned_def)
qed

lemma fresh_channel_st:
  assumes u: "bdev_st z u"
    and c: "ubi_create_channel_cb t env u (zero_channel bufs) held = Some (0, c, held')"
  shows "inv_st z (inflight_set u) {#} 0 (fresh_state u c)"
  using u fresh_channel_owns_nothing [OF c]
  by (simp add: inv_st_def bdev_st_def bdev_ok_def fresh_state_def fetch_st_def read_ok_def ios_ok_def md_st_def md_ok_def
      fetch_slots_def reads_def ring_def)

lemma fresh_channel_inv:
  assumes "bdev_ok u"
    and "ubi_create_channel_cb t env u (zero_channel bufs) held = Some (0, c, held')"
  shows "inv_gen (inflight_set u) {#} 0 (fresh_state u c)"
  by (rule fresh_channel_st [OF _ assms(2)]) (use assms(1) in \<open>simp add: bdev_st_ok\<close>)

text \<open>A channel that is added to a running system.\<close>

definition sys_add_channel :: "ubi_io_channel \<Rightarrow> ubi_sys \<Rightarrow> ubi_sys" where
  "sys_add_channel c S = S\<lparr>sys_chans := sys_chans S @ [fresh_state (sys_ub S) c]\<rparr>"

lemma sys_add_channel_inv:
  assumes I: "sys_st z S"
    and c: "ubi_create_channel_cb t env (sys_ub S) (zero_channel bufs) held = Some (0, c, held')"
  shows "sys_st z (sys_add_channel c S)"
proof -
  let ?S = "sys_add_channel c S" and ?n = "length (sys_chans S)"
  have own: "owned (ch (sys_chans ?S ! j)) = (if j < ?n then owned (ch (sys_chans S ! j)) else {})" if "j \<le> ?n" for j
    using that fresh_channel_owns_nothing(7) [OF c]
    by (auto simp: sys_add_channel_def nth_append fresh_state_def)
  have len [simp]: "length (sys_chans ?S) = Suc ?n" "sys_ub ?S = sys_ub S" by (simp_all add: sys_add_channel_def)
  have owned: "sys_owned ?S = sys_owned S"
    by (simp add: sys_owned_def lessThan_Suc own)
  have "inv_st z (sys_others ?S i) {#} 0 (sys_chan ?S i)" if i: "i < Suc ?n" for i
  proof (cases "i < ?n")
    case True
    then have "sys_chan ?S i = sys_chan S i" by (simp add: sys_chan_def sys_add_channel_def nth_append)
    moreover have "sys_others ?S i = sys_others S i"
      using True by (simp add: sys_others_def lessThan_Suc insert_Diff_if own)
    ultimately show ?thesis using sys_invD [OF I True] by simp
  next
    case False
    with i have "i = ?n" by simp
    then have "sys_chan ?S i = fresh_state (sys_ub S) c"
      by (simp add: sys_chan_def sys_add_channel_def fresh_state_def)
    moreover have "sys_others ?S i = inflight_set (sys_ub S)"
      using I \<open>i = ?n\<close> by (simp add: sys_others_def lessThan_Suc insert_Diff_if own sys_st_def sys_owned_def)
    ultimately show ?thesis using fresh_channel_st [OF _ c] I by (simp add: sys_st_def)
  qed
  then show ?thesis using I owned by (simp add: sys_st_def)
qed

end
