(* ===== verification/Ubi_Start.thy ===== *)
theory Ubi_Start
  imports Ubi_Channel
begin

section \<open>Runs of a fresh channel, and a concrete one\<close>

text \<open>
  Where the runs of the properties start: a channel the module has just created on a bdev it
  has just loaded.  The concrete bdev, channel, oracle and request below are the inputs at
  which the properties are applied.
\<close>

subsection \<open>Runs that start with a fresh channel\<close>

definition channel_start :: "ubi_state \<Rightarrow> bool" where
  "channel_start s0 \<longleftrightarrow> (\<exists>u t env bufs held c held'.
     bdev_ok u \<and> inflight_set u = {} \<and>
     ubi_create_channel_cb t env u (zero_channel bufs) held = Some (0, c, held') \<and> s0 = fresh_state u c)"

lemma channel_start_inv: "channel_start s0 \<Longrightarrow> inv s0"
  using fresh_channel_inv by (fastforce simp: channel_start_def)

lemma reachable_start_inv: "channel_start s0 \<Longrightarrow> ubi_reachable s0 s \<Longrightarrow> inv s"
  using reachable_inv channel_start_inv by blast

subsection \<open>Systems that start without a channel\<close>

inductive sys_reachable :: "ubi_bdev \<Rightarrow> ubi_sys \<Rightarrow> bool" for u where
  start: "sys_reachable u \<lparr>sys_ub = u, sys_chans = []\<rparr>"
| channel: "sys_reachable u S \<Longrightarrow>
    ubi_create_channel_cb t env (sys_ub S) (zero_channel bufs) held = Some (0, c, held') \<Longrightarrow>
    sys_reachable u (sys_add_channel c S)"
| event: "sys_reachable u S \<Longrightarrow> sys_allowed ie S \<Longrightarrow> sys_exec ie S = Some S' \<Longrightarrow> sys_reachable u S'"

lemma sys_reachable_inv:
  assumes "sys_reachable u S" "bdev_ok u" "inflight_set u = {}"
  shows "sys_inv S"
  using assms
proof (induction rule: sys_reachable.induct)
  case start
  then show ?case by (simp add: sys_inv_def sys_owned_def)
next
  case (channel S t env bufs held c held')
  then show ?case using sys_add_channel_inv by blast
next
  case (event S ie S')
  then show ?case using sys.exec_good by fastforce
qed

text \<open>
  Runs of a system in which submissions may fail.  Channels are opened and handle events in any
  order, one handler at a time.
\<close>

fun sys_may :: "nat \<times> ubi_event \<Rightarrow> ubi_sys \<Rightarrow> bool" where
  "sys_may (i, e) S \<longleftrightarrow> i < length (sys_chans S) \<and> ev_enabled e (sys_chan S i) \<and> ev_doc e"

inductive sys_io :: "ubi_bdev \<Rightarrow> (nat \<times> ubi_event) list \<Rightarrow> ubi_sys \<Rightarrow> bool" for u where
  start: "sys_io u [] \<lparr>sys_ub = u, sys_chans = []\<rparr>"
| channel: "sys_io u es S \<Longrightarrow>
    ubi_create_channel_cb t env (sys_ub S) (zero_channel bufs) held = Some (0, c, held') \<Longrightarrow>
    sys_io u es (sys_add_channel c S)"
| event: "sys_io u es S \<Longrightarrow> sys_may ie S \<Longrightarrow> sys_exec ie S = Some S' \<Longrightarrow> sys_io u (es @ [ie]) S'"

lemma sys_may_allowed: "sys_may ie S \<Longrightarrow> ev_submits (snd ie) \<Longrightarrow> sys_allowed ie S"
  by (cases ie) (simp add: ev_ok_iff)

lemma sys_allowed_may: "sys_allowed ie S \<Longrightarrow> sys_may ie S \<and> ev_submits (snd ie)"
  by (cases ie) (simp add: ev_ok_iff)

subsection \<open>A concrete channel\<close>

definition demo_chan_env :: chan_env where
  "demo_chan_env = \<lparr>e_poller = True, e_base_channel = True, e_open = \<lambda>_ _. 5, e_uring = 0\<rparr>"

definition demo_channel :: ubi_io_channel where
  "demo_channel = (zero_channel (\<lambda>k. 4660))\<lparr>poller := True, base_channel := True, image_file_fd := 5\<rparr>"

definition demo_state :: ubi_state where
  "demo_state = fresh_state demo_ubi demo_channel"

definition demo_env :: ext_oracle where
  "demo_env = \<lparr>o_get_sqe = \<lambda>_ n. n < 32, o_submit = \<lambda>_ n. int n, o_base = \<lambda>_ _. 0, o_buf = \<lambda>_. Some True\<rparr>"

definition demo_write :: bdev_io where
  "demo_write = \<lparr>io_id = 1, io_type = IO_WRITE, offset_blocks = 256, num_blocks = 8\<rparr>"

lemma demo_create:
  "ubi_create_channel_cb no_faults demo_chan_env demo_ubi (zero_channel (\<lambda>k. 4660)) {#} =
     Some (0, demo_channel, chan_resources demo_channel)"
  by (simp add: ubi_create_channel_cb_def no_faults_def demo_chan_env_def demo_channel_def zero_channel_def
      reset_fetches_def chan_resources_def Let_def)

lemma demo_bdev_ok: "bdev_ok demo_ubi" "inflight_set demo_ubi = {}"
  by (simp_all add: bdev_ok_def conf_ok_def image_stripes_def fetched_set_def header_set_def inflight_set_def
      demo_simps demo_metadata_def)

lemma demo_start: "channel_start demo_state"
  using demo_create demo_bdev_ok unfolding channel_start_def demo_state_def by blast

lemma demo_uring_ok: "uring_ok demo_env"
  by (simp add: uring_ok_def demo_env_def)

lemma demo_write_ok: "io_ok demo_ubi demo_write"
  by (simp add: io_ok_def demo_simps demo_write_def ubi_io_type_supported_def
      block_stripe_def)

definition demo_submitted :: ubi_state where
  "demo_submitted = insert_io demo_write (demo_state\<lparr>
      ub := put_status 2 STRIPE_INFLIGHT demo_ubi,
      ch := demo_channel\<lparr>stripe_fetch_queue := \<lparr>entries = (\<lambda>_. 0)(0 := 2), head = 0, tail = 1\<rparr>\<rparr>\<rparr>)"

lemma demo_submit: "ubi_submit_request demo_write demo_state = Some demo_submitted"
  by (simp add: ubi_submit_request_def demo_submitted_def demo_state_def fresh_state_def demo_write_def demo_simps block_stripe_def Let_def status_simps demo_channel_def zero_channel_def enqueue_stripe_def)

lemma demo_reachable: "ubi_reachable demo_state demo_submitted"
  by (rule ubi_reachable.step [OF ubi_reachable.start ubi_step.submit [OF _ demo_submit]])
    (use demo_write_ok in \<open>simp add: demo_state_def fresh_state_def\<close>)

text \<open>Two channels on the concrete bdev.\<close>

definition demo_sys :: ubi_sys where
  "demo_sys = sys_add_channel demo_channel (sys_add_channel demo_channel \<lparr>sys_ub = demo_ubi, sys_chans = []\<rparr>)"

lemma demo_sys_reachable: "sys_reachable demo_ubi demo_sys"
proof -
  have add: "sys_reachable demo_ubi (sys_add_channel demo_channel S)"
    if "sys_reachable demo_ubi S" "sys_ub S = demo_ubi" for S
    using sys_reachable.channel [OF that(1)] demo_create that(2) by metis
  show ?thesis
    unfolding demo_sys_def
    by (intro add sys_reachable.start) (simp_all add: sys_add_channel_def)
qed

end
