(* ===== verification/Ubi_Conserve.thy ===== *)
theory Ubi_Conserve
  imports Ubi_Start
begin

section \<open>Where requests are\<close>

text \<open>
  \<^const>\<open>all_ios\<close> collects the requests a channel knows of: queued, waiting for a buffer, in
  io\_uring, at the base bdev, completed.  Each lemma says what an operation does to this
  multiset; together they say that no request is duplicated or made up, and which two paths
  lose one.
\<close>

subsection \<open>Moves\<close>

lemma all_ios_frame [simp]:
  "all_ios (s\<lparr>ub := u\<rparr>) = all_ios s" "all_ios (s\<lparr>driver_ctx := d\<rparr>) = all_ios s"
  "all_ios (s\<lparr>clock := t\<rparr>) = all_ios s"
  by (simp_all add: all_ios_def ring_def)

lemma all_ios_ch [simp]: "ch_io c = ch_io (ch s) \<Longrightarrow> all_ios (s\<lparr>ch := c\<rparr>) = all_ios s"
  by (simp add: all_ios_def ring_def)

lemma all_ios_complete [simp]: "all_ios (spdk_bdev_io_complete b ok s) = add_mset b (all_ios s)"
  by (simp add: spdk_bdev_io_complete_def all_ios_def ring_def)

lemma all_ios_complete_io [simp]: "all_ios (ubi_complete_io b ok s) = add_mset b (all_ios s)"
  by (simp add: ubi_complete_io_def)

lemma all_ios_base_submit:
  assumes "base_submit env r s = (ret, s')"
  shows "all_ios s' = (if ret = 0 \<and> \<not> is_Req_write_stripe r then add_mset (req_io r) (all_ios s) else all_ios s)"
  using assms by (auto simp: base_submit_def Let_def all_ios_def ring_def)

lemma all_ios_pop: "ch_io (ch s) = b # bs \<Longrightarrow> add_mset b (all_ios (s\<lparr>ch := (ch s)\<lparr>ch_io := bs\<rparr>\<rparr>)) = all_ios s"
  by (simp add: all_ios_def ring_def)

subsection \<open>Operations\<close>

lemma all_ios_get_buf:
  assumes "get_buf_for_read_cb env b ok s = Some s'"
  shows "all_ios s' = add_mset b (all_ios s)"
proof -
  obtain ret s1 where rd: "ubi_submit_read_request env b s = (ret, s1)"
    by (cases "ubi_submit_read_request env b s")
  then have "all_ios s1 = (if ret = 0 then add_mset b (all_ios s) else all_ios s)"
    by (auto simp: ubi_submit_read_request_def Let_def dest: all_ios_base_submit)
  with assms rd show ?thesis
    by (auto simp: get_buf_for_read_cb_def Let_def bind_eq_Some_conv split: if_splits)
      (simp_all add: all_ios_def ring_def)
qed

lemma all_ios_flush_request [simp]:
  "all_ios (ubi_submit_flush_request env b s) = add_mset b (all_ios s)"
proof -
  obtain ret s1 where sub: "base_submit env (Req_data_flush b
      (block_offset (driver_ctx s (io_id b)) + ucast (data_offset_blocks (ub s)))
      (block_count (driver_ctx s (io_id b)))) s = (ret, s1)"
    by (metis surj_pair)
  from all_ios_base_submit [OF this] sub show ?thesis
    by (simp add: ubi_submit_flush_request_def Let_def)
qed

text \<open>Whether the base bdev takes every write that is submitted to it.\<close>

definition accepts_writes :: "ext_oracle \<Rightarrow> bool" where
  "accepts_writes env \<longleftrightarrow> (\<forall>t r. is_Req_writev r \<longrightarrow> o_base env t r = 0)"

lemma all_ios_dispatch:
  assumes "ubi_dispatch_io env b s = Some s'"
  shows "all_ios s' \<subseteq># add_mset b (all_ios s)" "accepts_writes env \<Longrightarrow> all_ios s' = add_mset b (all_ios s)"
proof -
  let ?s1 = "upd_ctx b (\<lambda>ubi_io. ubi_io\<lparr>block_offset := offset_blocks b, block_count := num_blocks b,
                                      io_op_type := UBI_BDEV_IO\<rparr>) s"
  let ?s2 = "?s1\<lparr>ch := (ch ?s1)\<lparr>blocks_written := blocks_written (ch ?s1) + num_blocks b\<rparr>\<rparr>"
  obtain ret s3 where wr: "ubi_submit_write_request env b ?s2 = (ret, s3)" by (metis surj_pair)
  then have w: "all_ios s3 = (if ret = 0 then add_mset b (all_ios s) else all_ios s)"
    by (auto simp: ubi_submit_write_request_def Let_def dest: all_ios_base_submit)
  have ret: "ret = 0" if "accepts_writes env"
    using that wr by (auto simp: accepts_writes_def ubi_submit_write_request_def base_submit_def Let_def)
  have "all_ios s' = add_mset b (all_ios s) \<or> io_type b = IO_WRITE \<and> s' = s3"
    using assms wr
    by (auto simp: ubi_dispatch_io_def Let_def split: spdk_bdev_io_type.splits option.splits dest!: all_ios_get_buf)
      (simp add: all_ios_def ring_def)
  with w ret show "all_ios s' \<subseteq># add_mset b (all_ios s)" "accepts_writes env \<Longrightarrow> all_ios s' = add_mset b (all_ios s)"
    by auto
qed

lemma all_ios_complete_fetch:
  assumes "ubi_complete_fetch_stripe env k res s = Some (ret, s')"
  shows "all_ios s' = all_ios s"
  using assms
  by (auto simp: ubi_complete_fetch_stripe_def ubi_fail_stripe_fetch_def base_submit_def Let_def
      bind_eq_Some_conv all_ios_def ring_def split: if_splits)

lemma all_ios_reaped:
  assumes "e \<in> set (inflight s)"
  shows "all_ios s = (if is_Sqe_read e then all_ios (reaped e s) else add_mset (sqe_io e) (all_ios (reaped e s)))"
proof -
  have "ring s = add_mset e (ring (reaped e s))" using assms by (simp add: ring_def mset_remove1)
  then show ?thesis by (cases e) (simp_all add: all_ios_def)
qed

lemma all_ios_start_fetch:
  "ubi_start_fetch_stripe env k s = Some s' \<Longrightarrow> uring_ok env \<Longrightarrow> all_ios s' = all_ios s"
  by (simp add: all_ios_def start_fetch_frame)

lemma all_ios_submit_image_reads [simp]: "all_ios (submit_image_reads env s) = all_ios s"
proof -
  obtain ret s1 where sub: "io_uring_submit env s = (ret, s1)" by (metis surj_pair)
  from io_uring_submit_frame [OF this] have "all_ios s1 = all_ios s" by (simp add: all_ios_def)
  with sub show ?thesis by (simp add: submit_image_reads_def)
qed

interpretation ios: channel_walk
  "\<lambda>env cqes s s'. all_ios s' \<subseteq># all_ios s \<and> (accepts_writes env \<longrightarrow> all_ios s' = all_ios s)"
proof
  fix oth X s b bs env s'
  assume "ch_io (ch s) = b # bs" and d: "ubi_dispatch_io env b (popped bs s) = Some s'"
  then show "all_ios s' \<subseteq># all_ios s \<and> (accepts_writes env \<longrightarrow> all_ios s' = all_ios s)"
    using all_ios_dispatch [OF d] all_ios_pop by simp
next
  fix oth X n s k idx rest q env s'
  assume "ubi_start_fetch_stripe env k (assigned k idx q s) = Some s'" and "uring_ok env"
  from all_ios_start_fetch [OF this]
  show "all_ios (counted s') \<subseteq># all_ios s \<and> (accepts_writes env \<longrightarrow> all_ios (counted s') = all_ios s)" by simp
qed (auto simp: all_ios_pop all_ios_reaped ubi_complete_read_from_image_def dest: all_ios_complete_fetch
    split: if_splits intro: subset_mset.order_trans)

lemma all_ios_insert [simp]: "all_ios (insert_io b s) = add_mset b (all_ios s)"
  by (simp add: insert_io_def all_ios_def ring_def)

lemma all_ios_ub_ch [simp]: "ch_io c = ch_io (ch s) \<Longrightarrow> all_ios (s\<lparr>ub := u, ch := c\<rparr>) = all_ios s"
  by (simp add: all_ios_def ring_def)

lemma all_ios_submit_request:
  "ubi_submit_request b s = Some s' \<Longrightarrow> all_ios s' = add_mset b (all_ios s)"
  by (auto simp: ubi_submit_request_def Let_def bind_eq_Some_conv split: if_splits)

lemma all_ios_remove_base:
  assumes "r \<in> set (base_reqs s)"
  shows "all_ios s = (if is_Req_write_stripe r then all_ios (s\<lparr>base_reqs := remove1 r (base_reqs s)\<rparr>)
     else add_mset (req_io r) (all_ios (s\<lparr>base_reqs := remove1 r (base_reqs s)\<rparr>)))"
proof -
  have "mset (base_reqs s) = add_mset r (mset (remove1 r (base_reqs s)))"
    using assms by (simp add: mset_remove1)
  then show ?thesis
    unfolding all_ios_def by (simp add: ring_def del: mset_remove1)
qed

lemma all_ios_flush_stages:
  "ubi_data_flush_completion env b True s = Some s' \<Longrightarrow> all_ios s' = add_mset b (all_ios s)"
  "ubi_data_flush_completion env b False s = Some s' \<Longrightarrow> all_ios s' = all_ios s"
  "ubi_metadata_write_completion env b ok s = Some s' \<Longrightarrow> all_ios s' = add_mset b (all_ios s)"
  by (auto simp: ubi_data_flush_completion_def ubi_metadata_write_completion_def base_submit_def
      bind_eq_Some_conv Let_def split: if_splits) (simp_all add: all_ios_def ring_def)

lemma all_ios_metadata_flush [simp]:
  "all_ios (ubi_metadata_flush_completion b ok s) = add_mset b (all_ios s)"
  by (simp add: ubi_metadata_flush_completion_def Let_def)

lemma all_ios_write_stripe: "write_stripe_io_completion k ok s = Some s' \<Longrightarrow> all_ios s' = all_ios s"
  by (auto simp: write_stripe_io_completion_def bind_eq_Some_conv Let_def)

lemma all_ios_base_completion:
  assumes "r \<in> set (base_reqs s)"
    and "base_completion env r ok (s\<lparr>base_reqs := remove1 r (base_reqs s)\<rparr>) = Some s'"
  shows "if is_Req_data_flush r \<and> \<not> ok then all_ios s = add_mset (req_io r) (all_ios s') else all_ios s' = all_ios s"
  using assms(2) all_ios_remove_base [OF assms(1)]
  by (cases r; cases ok)
    (auto simp: base_completion_def ubi_io_completion_cb_def dest!: all_ios_flush_stages all_ios_write_stripe)

subsection \<open>Events\<close>

fun submitted :: "ubi_event \<Rightarrow> bdev_io multiset" where
  "submitted (Ev_submit b) = {#b#}"
| "submitted e = {#}"

text \<open>The two kinds of events that may lose a request.\<close>

fun may_lose :: "ubi_event \<Rightarrow> bool" where
  "may_lose (Ev_poll env batch) \<longleftrightarrow> \<not> accepts_writes env"
| "may_lose (Ev_base env r ok) \<longleftrightarrow> is_Req_data_flush r \<and> \<not> ok"
| "may_lose e \<longleftrightarrow> False"

lemma all_ios_event:
  assumes "inv_gen oth {#} 0 s" "ev_allowed e s" "ev_exec e s = Some s'"
  shows "all_ios s' \<subseteq># all_ios s + submitted e" "\<not> may_lose e \<Longrightarrow> all_ios s' = all_ios s + submitted e"
proof -
  have "all_ios s' \<subseteq># all_ios s + submitted e \<and> (\<not> may_lose e \<longrightarrow> all_ios s' = all_ios s + submitted e)"
  proof (cases e)
    case (Ev_submit b)
    then show ?thesis using assms(3) all_ios_submit_request by simp
  next
    case (Ev_poll env batch)
    then obtain r where "ubi_io_poll env batch s = Some (r, s')" using assms(3) by auto
    moreover have "uring_ok env" "mset (map fst (cqes_of batch)) \<subseteq># mset (inflight s)"
      using assms(2) Ev_poll by (auto simp: ev_ok_def split: sum.splits)
    ultimately show ?thesis using ios.walk_poll [OF assms(1)] Ev_poll by simp
  next
    case (Ev_buf env b ok)
    then have "b \<in> set (buf_wait s)" using assms(2) by simp
    then have "all_ios s = add_mset b (all_ios (s\<lparr>buf_wait := remove1 b (buf_wait s)\<rparr>))"
      by (simp add: all_ios_def ring_def mset_remove1)
    then show ?thesis using assms(3) Ev_buf all_ios_get_buf by simp
  next
    case (Ev_base env r ok)
    then show ?thesis using assms all_ios_base_completion [of r s env ok s'] by (auto split: if_splits)
  qed
  then show "all_ios s' \<subseteq># all_ios s + submitted e" "\<not> may_lose e \<Longrightarrow> all_ios s' = all_ios s + submitted e"
    by blast+
qed

text \<open>A run as the list of its events.\<close>

inductive ubi_run :: "ubi_state \<Rightarrow> ubi_event list \<Rightarrow> ubi_state \<Rightarrow> bool" where
  nil: "ubi_run s [] s"
| cons: "ubi_step s e s1 \<Longrightarrow> ubi_run s1 es s' \<Longrightarrow> ubi_run s (e # es) s'"

inductive_simps ubi_run_nil [simp]: "ubi_run s [] s'"
inductive_simps ubi_run_cons: "ubi_run s (e # es) s'"

lemma run_reachable:
  assumes "ubi_run s es s'" "ubi_reachable s0 s"
  shows "ubi_reachable s0 s'"
  using assms by (induction rule: ubi_run.induct) (auto intro: ubi_reachable.step)

lemma run_inv: "ubi_run s es s' \<Longrightarrow> inv_gen oth {#} 0 s \<Longrightarrow> inv_gen oth {#} 0 s'"
  using run_reachable [OF _ ubi_reachable.start] reachable_inv by blast

lemma all_ios_run:
  assumes "ubi_run s es s'" "inv_gen oth {#} 0 s"
  shows "all_ios s' \<subseteq># all_ios s + sum_list (map submitted es) \<and>
    ((\<forall>e \<in> set es. \<not> may_lose e) \<longrightarrow> all_ios s' = all_ios s + sum_list (map submitted es))"
  using assms
proof (induction rule: ubi_run.induct)
  case (cons s e s1 es s')
  then have step: "ev_allowed e s" "ev_exec e s = Some s1" by (simp_all add: ubi_step_iff)
  note one = all_ios_event [OF cons.prems this]
  have IH: "all_ios s' \<subseteq># all_ios s1 + sum_list (map submitted es) \<and>
    ((\<forall>e \<in> set es. \<not> may_lose e) \<longrightarrow> all_ios s' = all_ios s1 + sum_list (map submitted es))"
    using cons.IH ev_exec_good [OF cons.prems step(1)] step(2) by simp
  then have "all_ios s' \<subseteq># all_ios s + submitted e + sum_list (map submitted es)"
    using one(1) by (meson subset_mset.add_right_mono subset_mset.order_trans)
  with IH one(2) show ?case by (auto simp: add.assoc)
qed simp

subsection \<open>Properties\<close>

text \<open>The requests a channel still has to complete.\<close>

definition pending :: "ubi_state \<Rightarrow> bdev_io multiset" where
  "pending s = mset (ch_io (ch s)) + mset (buf_wait s) + ring_reads (ring s) + base_ios (mset (base_reqs s))"

lemma all_ios_pending: "all_ios s = pending s + mset (map fst (completed s))"
  by (simp add: all_ios_def pending_def)

lemma channel_start_ios: "channel_start s0 \<Longrightarrow> all_ios s0 = {#}"
  by (auto simp: channel_start_def all_ios_def fresh_state_def ring_def dest!: fresh_channel_owns_nothing(6))

lemma ubi_run_snoc: "ubi_run s es s1 \<Longrightarrow> ubi_step s1 e s' \<Longrightarrow> ubi_run s (es @ [e]) s'"
  by (induction rule: ubi_run.induct) (auto intro: ubi_run.intros)

lemma reachable_run: "ubi_reachable s0 s \<Longrightarrow> \<exists>es. ubi_run s0 es s"
  by (induction rule: ubi_reachable.induct) (blast intro: ubi_run.nil ubi_run_snoc)+

lemma lost_for_good:
  assumes "inv s" "b \<notin># all_ios s" "ubi_run s es s'" "b \<notin># sum_list (map submitted es)"
  shows "b \<notin> fst ` set (completed s')"
proof -
  have "b \<notin># all_ios s'"
    using all_ios_run [OF assms(3,1)] assms(2,4) by (meson mset_subset_eqD union_iff)
  then show ?thesis by (auto simp: all_ios_pending)
qed

text \<open>
  No request is answered twice and none is made up: along every run of a fresh channel
  the requests that were answered and those still pending are among those submitted.  No
  request is lost either, unless the base bdev refuses a write or fails the data flush of a
  flush request: without such an event every submitted request has been answered or is
  pending, exactly once.
\<close>

theorem requests_conserved:
  assumes "channel_start s0" and "ubi_run s0 es s"
  shows "mset (map fst (completed s)) + pending s \<subseteq># sum_list (map submitted es) \<and>
    ((\<forall>e \<in> set es. \<not> may_lose e) \<longrightarrow>
       mset (map fst (completed s)) + pending s = sum_list (map submitted es))"
  using all_ios_run [OF assms(2) channel_start_inv [OF assms(1)]] channel_start_ios [OF assms(1)]
  by (simp add: all_ios_pending add.commute)

theorem requests_conserved_witness:
  "mset (map fst (completed demo_submitted)) + pending demo_submitted = {#demo_write#}"
proof -
  have "ubi_run demo_state [Ev_submit demo_write] demo_submitted"
    by (rule ubi_run.cons [OF ubi_step.submit [OF _ demo_submit] ubi_run.nil])
      (use demo_write_ok in \<open>simp add: demo_state_def fresh_state_def\<close>)
  from requests_conserved [OF demo_start this] show ?thesis by simp
qed

text \<open>
  C36: a flush whose data flush fails on the base bdev is never answered.  The callback logs
  the failure and returns: the request is neither completed nor pending any more, and no
  further run of the channel ever completes it.
\<close>

theorem failed_data_flush_is_lost:
  assumes "channel_start s0" and "ubi_reachable s0 s" and "Req_data_flush b x n \<in> set (base_reqs s)"
    and "count (all_ios s) b = 1" and "uring_ok env"
  shows "\<exists>s'. ev_exec (Ev_base env (Req_data_flush b x n) False) s = Some s' \<and> completed s' = completed s \<and>
     b \<notin># pending s' \<and>
     (\<forall>es s''. ubi_run s' es s'' \<longrightarrow> b \<notin># sum_list (map submitted es) \<longrightarrow> b \<notin> fst ` set (completed s''))"
proof -
  let ?s = "s\<lparr>base_reqs := remove1 (Req_data_flush b x n) (base_reqs s)\<rparr>"
  have ex: "ev_exec (Ev_base env (Req_data_flush b x n) False) s = Some ?s"
    by (simp add: base_completion_def ubi_data_flush_completion_def)
  have "all_ios s = add_mset b (all_ios ?s)"
    using all_ios_remove_base [OF assms(3)] by simp
  then have no: "b \<notin># all_ios ?s" using assms(4) by (simp add: count_eq_zero_iff [symmetric])
  then have "b \<notin># pending ?s" by (simp add: all_ios_pending)
  moreover have "inv ?s"
    using ev_exec_good [OF reachable_start_inv [OF assms(1,2)], of "Ev_base env (Req_data_flush b x n) False"] ex assms(3,5)
    by (simp add: ev_ok_def)
  ultimately show ?thesis using ex no lost_for_good by auto
qed

definition demo_flush :: bdev_io where
  "demo_flush = \<lparr>io_id = 2, io_type = IO_FLUSH, offset_blocks = 0, num_blocks = 2048\<rparr>"

definition demo_flushing :: ubi_state where
  "demo_flushing = (upd_ctx demo_flush (\<lambda>ubi_io. ubi_io\<lparr>block_count := 2048, io_op_type := UBI_BDEV_IO\<rparr>) demo_state)
     \<lparr>base_reqs := [Req_data_flush demo_flush 16384 2048], clock := 1\<rparr>"

lemma demo_flushing_reachable: "ubi_reachable demo_state demo_flushing"
proof -
  let ?s = "insert_io demo_flush demo_state"
  have ok: "io_ok (ub demo_state) demo_flush"
    by (simp add: io_ok_def demo_state_def fresh_state_def demo_simps demo_flush_def
        ubi_io_type_supported_def)
  have sub: "ubi_submit_request demo_flush demo_state = Some ?s"
    by (simp add: ubi_submit_request_def demo_flush_def)
  have "start_fetches env ks ?s = Some ?s" for env ks
    by (cases ks) (simp_all add: insert_io_def demo_state_def fresh_state_def demo_channel_def zero_channel_def)
  then have "ubi_io_poll demo_env (Inr []) ?s = Some (SPDK_POLLER_BUSY, demo_flushing)"
    by (simp add: ubi_io_poll_def ubi_complete_image_io_def insert_io_def demo_state_def fresh_state_def demo_channel_def
        zero_channel_def io_verdict_def demo_flush_def ubi_dispatch_io_def ubi_submit_flush_request_def base_submit_def
        demo_env_def demo_ubi_def demo_ubi0_def submit_image_reads_def demo_flushing_def zero_ctx_def)
  then have "ubi_step ?s (Ev_poll demo_env (Inr [])) demo_flushing"
    by (simp add: ubi_step_iff ev_ok_def demo_uring_ok)
  then show ?thesis
    using ubi_reachable.step [OF ubi_reachable.step [OF ubi_reachable.start ubi_step.submit [OF ok sub]]] by blast
qed

theorem failed_data_flush_is_lost_witness:
  "\<exists>s'. ev_exec (Ev_base demo_env (Req_data_flush demo_flush 16384 2048) False) demo_flushing = Some s' \<and>
     completed s' = [] \<and> demo_flush \<notin># pending s'"
proof -
  have "Req_data_flush demo_flush 16384 2048 \<in> set (base_reqs demo_flushing)" "count (all_ios demo_flushing) demo_flush = 1"
    "completed demo_flushing = []"
    by (simp_all add: demo_flushing_def all_ios_def ring_def demo_state_def fresh_state_def demo_channel_def zero_channel_def)
  with failed_data_flush_is_lost [OF demo_start demo_flushing_reachable _ _ demo_uring_ok] show ?thesis by fastforce
qed

text \<open>
  C37: a write the base bdev refuses to accept is never answered.  The poller ignores the
  result of \<^verbatim>\<open>ubi_submit_write_request\<close>: the request has left the queue, is neither completed
  nor handed on, and no further run completes it.
\<close>

theorem rejected_write_is_lost:
  assumes "inv s" and "io_ok (ub s) b" and "io_type b = IO_WRITE" and "\<And>t r. is_Req_writev r \<Longrightarrow> o_base env t r \<noteq> 0" and "b \<notin># all_ios s"
  shows "\<exists>s'. ubi_dispatch_io env b s = Some s' \<and> completed s' = completed s \<and> pending s' = pending s \<and>
     (\<forall>es s''. ubi_run s' es s'' \<longrightarrow> b \<notin># sum_list (map submitted es) \<longrightarrow> b \<notin> fst ` set (completed s''))"
proof -
  obtain s' where s': "ubi_dispatch_io env b s = Some s'"
    using assms(3) by (simp add: ubi_dispatch_io_def)
  have fr: "ch_io (ch s') = ch_io (ch s)" "buf_wait s' = buf_wait s" "ring s' = ring s" "base_reqs s' = base_reqs s"
    "completed s' = completed s"
    using s' assms(3,4)
    by (auto simp: ubi_dispatch_io_def ubi_submit_write_request_def base_submit_def Let_def ring_def)
  then have "all_ios s' = all_ios s" "pending s' = pending s" by (simp_all add: all_ios_def pending_def)
  moreover have "inv s'"
    using inv_dispatch [OF assms(1,2), of env] assms(3) s' by simp
  ultimately have "b \<notin> fst ` set (completed s'')" if "ubi_run s' es s''" "b \<notin># sum_list (map submitted es)" for es s''
    using lost_for_good [OF _ _ that] assms(5) by simp
  with s' fr \<open>pending s' = pending s\<close> show ?thesis by blast
qed

theorem rejected_write_is_lost_witness:
  "\<exists>s'. ubi_dispatch_io (demo_env\<lparr>o_base := \<lambda>_ _. - ENOMEM\<rparr>) demo_write demo_state = Some s' \<and>
     completed s' = [] \<and> pending s' = {#}"
proof -
  have "all_ios demo_state = {#}" by (rule channel_start_ios [OF demo_start])
  then have "pending demo_state = {#}" "completed demo_state = []" "demo_write \<notin># all_ios demo_state"
    by (simp_all add: all_ios_pending)
  moreover have "io_ok (ub demo_state) demo_write" using demo_write_ok by (simp add: demo_state_def fresh_state_def)
  ultimately show ?thesis
    using rejected_write_is_lost [OF channel_start_inv [OF demo_start], of demo_write "demo_env\<lparr>o_base := \<lambda>_ _. - ENOMEM\<rparr>"]
    by (auto simp: demo_write_def)
qed

end
