(* ===== verification/Ubi_Data.thy ===== *)
theory Ubi_Data
  imports Ubi_Conserve
begin

section \<open>What the disk holds\<close>

text \<open>
  The theories so far say which operations the channel hands to the base bdev and to the image
  file; this one adds the bytes.  A store is the image, the base bdev and the bounce buffers of
  the fetch slots, and every event acts on it the way the documented interfaces say.  The invariant
  says that every operation that is outstanding has the right arguments.
\<close>

subsection \<open>Stores\<close>

type_synonym bytes = "nat \<Rightarrow> u8"

record store =
  img :: bytes
  disk :: bytes
  bounce :: "nat \<Rightarrow> bytes"

definition overwrite :: "nat \<Rightarrow> nat \<Rightarrow> bytes \<Rightarrow> bytes \<Rightarrow> bytes" where
  "overwrite a n src d = (\<lambda>i. if a \<le> i \<and> i < a + n then src (i - a) else d i)"

text \<open>
  A completed image read has stored as many bytes as its result says in the bounce buffer of
  its slot.
\<close>

fun fill_bounce :: "(sqe \<times> int) list \<Rightarrow> store \<Rightarrow> store" where
  "fill_bounce [] d = d"
| "fill_bounce ((e, res) # cqes) d =
     fill_bounce cqes
       (case e of
          Sqe_read k a m off \<Rightarrow>
            d\<lparr>bounce := (bounce d)(k := overwrite 0 (min (nat res) (unat m)) (\<lambda>j. img d (unat off + j)) (bounce d k))\<rparr>
        | Sqe_readv b off \<Rightarrow> d)"

text \<open>
  A completed request to the base bdev.  \<open>w b\<close> are the bytes of write request \<open>b\<close>; after a
  failed write its range holds anything, here \<open>junk\<close>.
\<close>

definition base_effect :: "(bdev_io \<Rightarrow> bytes) \<Rightarrow> bytes \<Rightarrow> nat \<Rightarrow> base_req \<Rightarrow> bool \<Rightarrow> store \<Rightarrow> store" where
  "base_effect w junk bl r ok d =
     (case r of
        Req_writev b st m \<Rightarrow>
          d\<lparr>disk := overwrite (unat st * bl) (unat m * bl) (if ok then w b else junk) (disk d)\<rparr>
      | Req_write_stripe k a off m \<Rightarrow>
          d\<lparr>disk := overwrite (unat off) (unat m) (if ok then bounce d k else junk) (disk d)\<rparr>
      | Req_md_write b md st m \<Rightarrow>
          d\<lparr>disk := overwrite (unat st * bl) (unat m * bl) (if ok then metadata_bytes md else junk) (disk d)\<rparr>
      | _ \<Rightarrow> d)"

fun store_exec :: "(bdev_io \<Rightarrow> bytes) \<Rightarrow> bytes \<Rightarrow> nat \<Rightarrow> ubi_event \<Rightarrow> store \<Rightarrow> store" where
  "store_exec w junk bl (Ev_poll env batch) d = fill_bounce (cqes_of batch) d"
| "store_exec w junk bl (Ev_base env r ok) d = base_effect w junk bl r ok d"
| "store_exec w junk bl e d = d"

subsection \<open>Invariant\<close>

definition stripe_bytes :: "ubi_bdev \<Rightarrow> nat" where
  "stripe_bytes u = unat (blocklen (bdev u)) * 2 ^ unat (stripe_shift u)"

text \<open>
  Every outstanding operation has the arguments its purpose asks for: a fetch reads and writes
  the extent of its slot's stripe and has the image's bytes in its bounce buffer; a request
  that was handed to the base bdev does not touch a stripe that still lives in the image.
\<close>

definition on_base :: "ubi_bdev \<Rightarrow> bdev_io \<Rightarrow> bool" where
  "on_base u b \<longleftrightarrow> (offset_blocks b < image_block_count u \<longrightarrow> stripe_status u (stripe_of u b) = STRIPE_FETCHED)"

abbreviation slot_idx :: "ubi_io_channel \<Rightarrow> nat \<Rightarrow> i32" where
  "slot_idx c k \<equiv> stripe_idx (stripe_fetches c ! k)"

fun sqe_data :: "ubi_bdev \<Rightarrow> ubi_io_channel \<Rightarrow> sqe \<Rightarrow> bool" where
  "sqe_data u c (Sqe_read k a m off) \<longleftrightarrow> m = stripe_nbytes u \<and> off = stripe_offset u (slot_idx c k)"
| "sqe_data u c (Sqe_readv b off) \<longleftrightarrow> offset_blocks b < image_block_count u \<and>
     off = offset_blocks b * ucast (blocklen (bdev u))"

fun req_data :: "store \<Rightarrow> ubi_bdev \<Rightarrow> ubi_io_channel \<Rightarrow> base_req \<Rightarrow> bool" where
  "req_data d u c (Req_write_stripe k a off m) \<longleftrightarrow>
     m = stripe_nbytes u \<and> off = stripe_offset u (slot_idx c k) + UBI_METADATA_SIZE \<and>
     (\<forall>j < unat m. bounce d k j = img d (unat (stripe_offset u (slot_idx c k)) + j))"
| "req_data d u c (Req_writev b st m) \<longleftrightarrow>
     io_ok u b \<and> io_type b \<noteq> IO_FLUSH \<and> st = offset_blocks b + ucast (data_offset_blocks u) \<and> m = num_blocks b \<and> on_base u b"
| "req_data d u c (Req_readv b st m) \<longleftrightarrow>
     io_ok u b \<and> io_type b \<noteq> IO_FLUSH \<and> st = offset_blocks b + ucast (data_offset_blocks u) \<and> m = num_blocks b \<and> on_base u b"
| "req_data d u c (Req_md_write b md st m) \<longleftrightarrow> st = 0 \<and> md_blocks u = Some m"
| "req_data d u c _ \<longleftrightarrow> True"

definition data_ok :: "store \<Rightarrow> ubi_state \<Rightarrow> bool" where
  "data_ok d s \<longleftrightarrow> (\<forall>e \<in># ring s. sqe_data (ub s) (ch s) e) \<and> (\<forall>r \<in> set (base_reqs s). req_data d (ub s) (ch s) r)"

lemma evolves_derived:
  assumes "evolves u u'"
  shows "stripe_nbytes u' = stripe_nbytes u" "stripe_offset u' = stripe_offset u" "io_ok u' = io_ok u"
    "stripe_of u' = stripe_of u" "md_blocks u' = md_blocks u" "stripe_bytes u' = stripe_bytes u"
    "stripe_status u i = STRIPE_FETCHED \<Longrightarrow> stripe_status u' i = STRIPE_FETCHED"
proof -
  show "stripe_status u' i = STRIPE_FETCHED" if "stripe_status u i = STRIPE_FETCHED"
    using assms that unfolding evolves_def by (metis status_order(3))
qed (use evolves_config [OF assms] in \<open>auto simp: stripe_nbytes_def stripe_offset_def io_ok_def stripe_of_def md_blocks_def
    stripe_bytes_def block_stripe_def fun_eq_iff\<close>)

lemma sqe_data_evolves: "evolves u u' \<Longrightarrow> (is_Sqe_read e \<Longrightarrow> slot_idx c' (sqe_slot e) = slot_idx c (sqe_slot e)) \<Longrightarrow>
    sqe_data u c e \<Longrightarrow> sqe_data u' c' e"
  by (cases e) (simp_all add: evolves_derived evolves_config)

lemma req_data_evolves: "evolves u u' \<Longrightarrow>
    (is_Req_write_stripe r \<Longrightarrow> slot_idx c' (req_slot r) = slot_idx c (req_slot r)) \<Longrightarrow>
    req_data d u c r \<Longrightarrow> req_data d u' c' r"
  by (cases r) (simp_all add: evolves_derived evolves_config on_base_def)

text \<open>New operations must be right; old ones stay right while the slots keep their stripes.\<close>

lemma data_ok_change:
  assumes "data_ok d s" "evolves (ub s) (ub s')"
    and "\<And>e. e \<in># ring s' \<Longrightarrow> e \<in># ring s \<or> sqe_data (ub s') (ch s') e"
    and "\<And>r. r \<in> set (base_reqs s') \<Longrightarrow> r \<in> set (base_reqs s) \<or> req_data d (ub s') (ch s') r"
    and slots: "\<And>k. k \<in># fetch_slots s \<Longrightarrow> slot_idx (ch s') k = slot_idx (ch s) k"
  shows "data_ok d s'"
proof -
  have "sqe_data (ub s') (ch s') e" if "e \<in># ring s'" for e
  proof (cases "e \<in># ring s")
    case True
    then have "sqe_slot e \<in># fetch_slots s" if "is_Sqe_read e"
      using that by (auto simp: fetch_slots_def ring_slots_def)
    with True assms(1,2) slots show ?thesis by (auto simp: data_ok_def intro: sqe_data_evolves)
  qed (use assms(3) that in blast)
  moreover have "req_data d (ub s') (ch s') r" if "r \<in> set (base_reqs s')" for r
  proof (cases "r \<in> set (base_reqs s)")
    case True
    then have "req_slot r \<in># fetch_slots s" if "is_Req_write_stripe r"
      using that by (auto simp: fetch_slots_def base_slots_def)
    with True assms(1,2) slots show ?thesis by (auto simp: data_ok_def intro: req_data_evolves)
  qed (use assms(4) that in blast)
  ultimately show ?thesis by (simp add: data_ok_def)
qed

lemma data_ok_frame:
  assumes "data_ok d s" "ub s' = ub s" "stripe_fetches (ch s') = stripe_fetches (ch s)"
    and "set_mset (ring s') \<subseteq> set_mset (ring s)" "set (base_reqs s') \<subseteq> set (base_reqs s)"
  shows "data_ok d s'"
  by (rule data_ok_change [OF assms(1)]) (use assms in auto)


subsection \<open>Operations keep the invariant\<close>

lemma ring_reaped: "set_mset (ring (reaped e s)) \<subseteq> set_mset (ring s)"
  by (auto simp: ring_def dest: in_diffD)

lemma ring_submit: "ring (submit_image_reads env s) = ring s" "base_reqs (submit_image_reads env s) = base_reqs s"
  "stripe_fetches (ch (submit_image_reads env s)) = stripe_fetches (ch s)"
proof -
  obtain ret s1 where sub: "io_uring_submit env s = (ret, s1)" by (metis surj_pair)
  from io_uring_submit_frame [OF this] sub
  show "ring (submit_image_reads env s) = ring s" "base_reqs (submit_image_reads env s) = base_reqs s"
    "stripe_fetches (ch (submit_image_reads env s)) = stripe_fetches (ch s)"
    by (simp_all add: submit_image_reads_def ring_def)
qed

lemma ring_complete [simp]: "ring (spdk_bdev_io_complete b ok s) = ring s" "ring (ubi_complete_io b ok s) = ring s"
  by (simp_all add: ring_def)

lemma data_ok_complete_io:
  "data_ok d s \<Longrightarrow> data_ok d (ubi_complete_io b ok s)" "data_ok d s \<Longrightarrow> data_ok d (spdk_bdev_io_complete b ok s)"
  by (erule data_ok_frame; simp)+

lemma base_submit_ring: "base_submit env r s = (ret, s') \<Longrightarrow> ring s' = ring s"
  by (auto simp: base_submit_def Let_def ring_def)

lemma data_ok_base_submit:
  assumes "data_ok d s" "base_submit env r s = (ret, s')" "req_data d (ub s) (ch s) r"
  shows "data_ok d s'"
  by (rule data_ok_change [OF assms(1)])
    (use assms(3) base_submit_frame [OF assms(2)] base_submit_ring [OF assms(2)] in \<open>auto split: if_splits\<close>)

lemma data_ok_get_buf:
  assumes D: "data_ok d s" and conf: "conf_ok (ub s)" and b: "io_ok (ub s) b" "io_type b = IO_READ"
    and run: "get_buf_for_read_cb env b ok s = Some s'"
  shows "data_ok d s'"
proof (cases ok)
  case True
  note st = get_status_io [OF conf b(1)]
  show ?thesis
  proof (cases "stripe_status (ub s) (stripe_of (ub s) b) = STRIPE_FETCHED \<or> offset_blocks b \<ge> image_block_count (ub s)")
    case base: True
    let ?r = "Req_readv b (offset_blocks b + ucast (data_offset_blocks (ub s))) (num_blocks b)"
    obtain ret s1 where sub: "base_submit env ?r s = (ret, s1)" by (metis surj_pair)
    have "data_ok d s1"
      by (rule data_ok_base_submit [OF D sub]) (use base b in \<open>auto simp: on_base_def not_le\<close>)
    moreover have "s' = (if ret \<noteq> 0 then ubi_complete_io b False s1 else s1)"
      using run True base st sub by (simp add: get_buf_for_read_cb_def ubi_submit_read_request_def Let_def)
    ultimately show ?thesis using data_ok_complete_io(1) by simp
  next
    case False
    have tick: "data_ok d (tick s)" by (rule data_ok_frame [OF D]) (simp_all add: ring_def)
    show ?thesis
    proof (cases "o_get_sqe env (clock s) (length (sq s))")
      case got: True
      have "data_ok d (s\<lparr>clock := Suc (clock s), sq := sq s @ [Sqe_readv b (offset_blocks b * ucast (blocklen (bdev (ub s))))],
          ch := (ch s)\<lparr>has_reads := has_reads (ch s) + 1\<rparr>\<rparr>)"
        by (rule data_ok_change [OF D]) (use False in \<open>auto simp: ring_def not_le\<close>)
      with run True False st got show ?thesis by (simp add: get_buf_for_read_cb_def Let_def)
    next
      case no: False
      then show ?thesis
        using run True False st data_ok_complete_io(1) [OF tick] by (auto simp: get_buf_for_read_cb_def Let_def)
    qed
  qed
qed (use run data_ok_complete_io(1) [OF D] in \<open>auto simp: get_buf_for_read_cb_def\<close>)

lemma serve_on_base:
  assumes "conf_ok u" "io_ok u b" "not_forgotten u b" "io_verdict u b = Some Io_serve" "io_type b = IO_WRITE"
  shows "on_base u b"
  using assms by (auto simp: io_verdict_eq on_base_def not_forgotten_def split: stripe_status.splits if_splits)

lemma data_ok_flush_request:
  assumes "data_ok d s"
  shows "data_ok d (ubi_submit_flush_request env b s)"
proof -
  let ?r = "Req_data_flush b (block_offset (driver_ctx s (io_id b)) + ucast (data_offset_blocks (ub s)))
      (block_count (driver_ctx s (io_id b)))"
  obtain ret s1 where sub: "base_submit env ?r s = (ret, s1)" by (metis surj_pair)
  have "data_ok d s1" by (rule data_ok_base_submit [OF assms sub]) simp
  with sub assms show ?thesis
    by (simp add: ubi_submit_flush_request_def Let_def data_ok_complete_io(2))
qed

lemma data_ok_dispatch:
  assumes D: "data_ok d s" and I: "inv_gen oth X 0 s" and b: "io_ok (ub s) b" "not_forgotten (ub s) b"
    and v: "io_verdict (ub s) b = Some Io_serve" and run: "ubi_dispatch_io env b s = Some s'"
  shows "data_ok d s'"
proof -
  have conf: "conf_ok (ub s)" using I by (simp add: inv_gen_def)
  let ?s1 = "upd_ctx b (\<lambda>ubi_io. ubi_io\<lparr>block_offset := offset_blocks b, block_count := num_blocks b,
                                      io_op_type := UBI_BDEV_IO\<rparr>) s"
  have D1: "data_ok d ?s1" by (rule data_ok_frame [OF D]) (simp_all add: ring_def)
  show ?thesis
  proof (cases "io_type b")
    case IO_READ
    let ?s2 = "?s1\<lparr>ch := (ch ?s1)\<lparr>active_reads := active_reads (ch ?s1) + 1, blocks_read := blocks_read (ch ?s1) + num_blocks b\<rparr>\<rparr>"
    have D2: "data_ok d (tick ?s2)" "data_ok d (tick (?s2\<lparr>buf_wait := buf_wait s @ [b]\<rparr>))"
      by (rule data_ok_frame [OF D]; simp add: ring_def)+
    show ?thesis
    proof (cases "o_buf env (clock s)")
      case None
      with run IO_READ D2(2) show ?thesis by (simp add: ubi_dispatch_io_def)
    next
      case (Some ok)
      then have "get_buf_for_read_cb env b ok (tick ?s2) = Some s'"
        using run IO_READ by (simp add: ubi_dispatch_io_def)
      from data_ok_get_buf [OF D2(1) _ _ IO_READ this] conf b(1) show ?thesis by simp
    qed
  next
    case IO_WRITE
    let ?s2 = "?s1\<lparr>ch := (ch ?s1)\<lparr>blocks_written := blocks_written (ch ?s1) + num_blocks b\<rparr>\<rparr>"
    let ?r = "Req_writev b (offset_blocks b + ucast (data_offset_blocks (ub s))) (num_blocks b)"
    have D2: "data_ok d ?s2" by (rule data_ok_frame [OF D]) (simp_all add: ring_def)
    obtain ret s3 where sub: "base_submit env ?r ?s2 = (ret, s3)" by (metis surj_pair)
    have "data_ok d s3"
      by (rule data_ok_base_submit [OF D2 sub]) (use serve_on_base [OF conf b v IO_WRITE] b IO_WRITE in simp)
    with run IO_WRITE sub show ?thesis by (simp add: ubi_dispatch_io_def ubi_submit_write_request_def Let_def)
  qed (use run D1 data_ok_flush_request data_ok_complete_io(2) in \<open>auto simp: ubi_dispatch_io_def\<close>)
qed

lemma fail_slot_idx: "ubi_fail_stripe_fetch k s = Some s' \<Longrightarrow> slot_idx (ch s') j = slot_idx (ch s) j"
  "ubi_fail_stripe_fetch k s = Some s' \<Longrightarrow> ring s' = ring s \<and> base_reqs s' = base_reqs s"
  by (auto simp: ubi_fail_stripe_fetch_def bind_eq_Some_conv ring_def
      nth_update_field [where f = stripe_idx and g = "\<lambda>sf. sf\<lparr>active := False\<rparr>"])

lemma data_ok_complete_fetch:
  assumes D: "data_ok d s" and I: "inv_gen oth (add_mset k X) n (reaped (Sqe_read k a m off) s)"
    and e: "Sqe_read k a m off \<in> set (inflight s)"
    and filled: "0 \<le> res \<Longrightarrow> \<forall>j < unat m. bounce d k j = img d (unat off + j)"
    and run: "ubi_complete_fetch_stripe env k res (reaped (Sqe_read k a m off) s) = Some (ret, s')"
  shows "data_ok d s'"
proof -
  let ?s = "reaped (Sqe_read k a m off) s"
  let ?r = "Req_write_stripe k (buf_aligned (stripe_fetches (ch s) ! k))
      (stripe_offset (ub s) (slot_idx (ch s) k) + 8388608) (stripe_nbytes (ub s))"
  have k: "k < length (stripe_fetches (ch s))"
    using fetch_ok_active(2) [of oth k X "ub ?s" "ch ?s" "fetch_slots ?s"] I by (simp add: inv_gen_def)
  have sd: "sqe_data (ub s) (ch s) (Sqe_read k a m off)"
    using D e unfolding data_ok_def ring_def by (metis set_mset_mset union_iff)
  have D1: "data_ok d ?s"
    by (rule data_ok_frame [OF D]) (simp_all add: ring_reaped)
  have fail: "data_ok d s2" if f: "ubi_fail_stripe_fetch k s1 = Some s2" and "data_ok d s1"
      "inv_gen oth (add_mset k X) n s1" for s1 s2
    by (rule data_ok_change [OF that(2) fail_evolves [OF that(3) f]])
      (use fail_slot_idx [OF f] in simp_all)
  obtain ret1 s1 where sub: "base_submit env ?r ?s = (ret1, s1)" by (metis surj_pair)
  show ?thesis
  proof (cases "res < 0")
    case True
    then have "ubi_fail_stripe_fetch k ?s = Some s'"
      using run k by (auto simp: ubi_complete_fetch_stripe_def bind_eq_Some_conv)
    then show ?thesis using fail D1 I by blast
  next
    case False
    have D2: "data_ok d s1"
      by (rule data_ok_base_submit [OF D1 sub]) (use filled False sd in simp)
    have I2: "inv_gen oth (add_mset k X) n s1" if "ret1 \<noteq> 0"
      using that sub I by (auto simp: base_submit_def Let_def split: if_splits)
    have "s' = s1 \<or> ret1 \<noteq> 0 \<and> ubi_fail_stripe_fetch k s1 = Some s'"
      using run False k sub by (auto simp: ubi_complete_fetch_stripe_def Let_def bind_eq_Some_conv split: if_splits)
    then show ?thesis using fail D2 I2 by blast
  qed
qed

lemma start_fetch_ring:
  assumes start: "ubi_start_fetch_stripe env k s = Some s'" and env: "uring_ok env"
  shows "\<exists>a. ring s' = add_mset (Sqe_read k a (stripe_nbytes (ub s)) (stripe_offset (ub s) (slot_idx (ch s) k))) (ring s)"
    and "slot_idx (ch s') j = slot_idx (ch s) j" and "stripe_fetch_queue (ch s') = stripe_fetch_queue (ch s)"
    and "active_reads (ch s') = active_reads (ch s)"
proof -
  obtain sf where sf: "nth_opt (stripe_fetches (ch s)) k = Some sf" and got: "o_get_sqe env (clock s) (length (sq s))"
    using start by (auto simp: ubi_start_fetch_stripe_def Let_def bind_eq_Some_conv split: if_splits)
  then have k: "k < length (stripe_fetches (ch s))" "sf = stripe_fetches (ch s) ! k"
    by (simp_all add: nth_opt_Some_iff)
  let ?a = "align_buf (buf sf) (alignment_bytes (ub s))"
  let ?s1 = "upd_fetch k (\<lambda>sf. sf\<lparr>buf_aligned := ?a\<rparr>) (tick s)"
  let ?e = "Sqe_read k ?a (stripe_nbytes (ub s)) (stripe_offset (ub s) (stripe_idx sf))"
  let ?s2 = "?s1\<lparr>sq := sq ?s1 @ [?e]\<rparr>"
  obtain ret s3 where sub: "io_uring_submit env ?s2 = (ret, s3)" by (metis surj_pair)
  have "s' = s3"
    using start sf got sub io_uring_submit_ret [OF env sub]
    by (simp add: ubi_start_fetch_stripe_def Let_def)
  then show "\<exists>a. ring s' = add_mset (Sqe_read k a (stripe_nbytes (ub s)) (stripe_offset (ub s) (slot_idx (ch s) k))) (ring s)"
    "slot_idx (ch s') j = slot_idx (ch s) j" "stripe_fetch_queue (ch s') = stripe_fetch_queue (ch s)"
    "active_reads (ch s') = active_reads (ch s)"
    using io_uring_submit_frame [OF sub] k by (auto simp: ring_def nth_list_update)
qed

lemma fetch_slots_act:
  assumes "inv_gen oth X n s" "k \<in># fetch_slots s"
  shows "k \<in> act (ch s)"
proof -
  have "fetch_slots s + X = mset_set (act (ch s))"
    using assms(1) by (simp add: inv_gen_def fetch_ok_def)
  then have "k \<in># mset_set (act (ch s))" using assms(2) by (metis union_iff)
  then show ?thesis by simp
qed

lemma data_ok_start_fetch:
  assumes D: "data_ok d s" and I: "inv_gen oth X n s" and env: "uring_ok env" and k: "k \<notin> act (ch s)"
    and k8: "k < length (stripe_fetches (ch s))"
    and run: "ubi_start_fetch_stripe env k (assigned k idx q s) = Some s'"
  shows "data_ok d (counted s')"
proof -
  let ?s1 = "assigned k idx q s"
  note st = start_fetch_ring [OF run env] and fr = start_fetch_frame [OF run env]
  have other: "slot_idx (ch s') j = slot_idx (ch s) j" if "j \<noteq> k" for j
    using st(2) [of j] that by simp
  have slots: "slot_idx (ch (counted s')) j = slot_idx (ch s) j" if "j \<in># fetch_slots s" for j
    using fetch_slots_act [OF I that] k other by (cases "j = k") auto
  have "ub s' = ub s" "base_reqs s' = base_reqs s" using fr(1,5) by simp_all
  moreover have "slot_idx (ch s') k = idx" using st(2) [of k] k8 by simp
  moreover obtain a where "ring s' = add_mset (Sqe_read k a (stripe_nbytes (ub s)) (stripe_offset (ub s) idx)) (ring s)"
    using st(1) k8 by (auto simp: ring_def)
  moreover have "ring (counted s') = ring s'" by (simp add: ring_def)
  ultimately show ?thesis
    by (intro data_ok_change [OF D _ _ _ slots]) auto
qed

text \<open>The bounce buffer a completion is about holds the bytes of the image.\<close>

fun filled :: "store \<Rightarrow> sqe \<times> int \<Rightarrow> bool" where
  "filled d (Sqe_read k a m off, res) \<longleftrightarrow> (0 \<le> res \<longrightarrow> (\<forall>j < unat m. bounce d k j = img d (unat off + j)))"
| "filled d (Sqe_readv b off, res) \<longleftrightarrow> True"

interpretation dat: channel_walk "\<lambda>env cqes s s'. (\<forall>c \<in> set cqes. filled d c) \<longrightarrow> data_ok d s \<longrightarrow> data_ok d s'" for d
proof
  fix oth X n s k a m off res env ret s'
  assume "inv_gen oth X n s" "Sqe_read k a m off \<in> set (inflight s)"
    "inv_gen oth (add_mset k X) n (reaped (Sqe_read k a m off) s)"
    "ubi_complete_fetch_stripe env k res (reaped (Sqe_read k a m off) s) = Some (ret, s')"
  then show "(\<forall>c \<in> set [(Sqe_read k a m off, res)]. filled d c) \<longrightarrow> data_ok d s \<longrightarrow> data_ok d s'"
    using data_ok_complete_fetch [of d s oth k X n a m off res env ret s'] by simp
next
  fix oth X n s b off res env ret s'
  assume "ubi_complete_read_from_image b res (reaped (Sqe_readv b off) s) = (ret, s')"
  then have "ub s' = ub s" "stripe_fetches (ch s') = stripe_fetches (ch s)" "base_reqs s' = base_reqs s"
    "set_mset (ring s') \<subseteq> set_mset (ring s)"
    using ring_reaped [of "Sqe_readv b off" s] by (auto simp: ubi_complete_read_from_image_def split: if_splits)
  then show "(\<forall>c \<in> set [(Sqe_readv b off, res)]. filled d c) \<longrightarrow> data_ok d s \<longrightarrow> data_ok d s'"
    using data_ok_frame [of d s s'] by simp
next
  fix oth X n s k idx rest q env s'
  assume I: "inv_gen oth X n s" and "uring_ok env" "k < 8" "k \<notin> act (ch s)"
    "ubi_start_fetch_stripe env k (assigned k idx q s) = Some s'"
  moreover have "length (stripe_fetches (ch s)) = 8" using I by (simp add: inv_gen_def fetch_ok_def)
  ultimately show "(\<forall>c \<in> set []. filled d c) \<longrightarrow> data_ok d s \<longrightarrow> data_ok d (counted s')"
    using data_ok_start_fetch by simp
next
  fix oth X s b bs env s'
  assume I: "inv_gen oth X 0 s" and b: "ch_io (ch s) = b # bs" "io_ok (ub s) b" "io_verdict (ub s) b = Some Io_serve"
    and I1: "inv_gen oth X 0 (popped bs s)" and run: "ubi_dispatch_io env b (popped bs s) = Some s'"
  have "not_forgotten (ub s) b" using I b(1) by (simp add: inv_gen_def ios_ok_def)
  moreover have "data_ok d (popped bs s)" if "data_ok d s"
    by (rule data_ok_frame [OF that]) (simp_all add: ring_def)
  ultimately show "(\<forall>c \<in> set []. filled d c) \<longrightarrow> data_ok d s \<longrightarrow> data_ok d s'"
    using data_ok_dispatch [OF _ I1 _ _ _ run] b(2,3) by simp
next
  fix oth X s b bs env
  have "data_ok d (spdk_bdev_io_complete b False (popped bs s))" if "data_ok d s"
    by (rule data_ok_frame [OF that]) (simp_all add: ring_def)
  then show "(\<forall>c \<in> set []. filled d c) \<longrightarrow> data_ok d s \<longrightarrow> data_ok d (spdk_bdev_io_complete b False (popped bs s))"
    by blast
next
  fix oth X n s env
  have "data_ok d (submit_image_reads env s)" if "data_ok d s"
    by (rule data_ok_frame [OF that]) (simp_all add: ring_submit)
  then show "(\<forall>c \<in> set []. filled d c) \<longrightarrow> data_ok d s \<longrightarrow> data_ok d (submit_image_reads env s)" by blast
next
  fix env xs s s1 ys s2
  assume "(\<forall>c \<in> set xs. filled d c) \<longrightarrow> data_ok d s \<longrightarrow> data_ok d s1"
    "(\<forall>c \<in> set ys. filled d c) \<longrightarrow> data_ok d s1 \<longrightarrow> data_ok d s2"
  then show "(\<forall>c \<in> set (xs @ ys). filled d c) \<longrightarrow> data_ok d s \<longrightarrow> data_ok d s2" by simp
qed simp


subsection \<open>Events keep the invariant\<close>

text \<open>
  What is asked of the outside: an image read that succeeds has read all it was asked for, and
  the base bdev does not fail to write a stripe.
\<close>

fun honest :: "ubi_event \<Rightarrow> bool" where
  "honest (Ev_poll env batch) \<longleftrightarrow>
     (\<forall>(e, res) \<in> set (cqes_of batch). is_Sqe_read e \<longrightarrow> res < 0 \<or> res = int (unat (sqe_nbytes e)))"
| "honest (Ev_base env r ok) \<longleftrightarrow> (is_Req_write_stripe r \<longrightarrow> ok)"
| "honest e \<longleftrightarrow> True"

lemma fill_bounce_frame [simp]: "img (fill_bounce cqes d) = img d" "disk (fill_bounce cqes d) = disk d"
  by (induction cqes d rule: fill_bounce.induct) (auto split: sqe.split)

lemma fill_bounce_other: "k \<notin># ring_slots (mset (map fst cqes)) \<Longrightarrow> bounce (fill_bounce cqes d) k = bounce d k"
  by (induction cqes d rule: fill_bounce.induct) (auto split: sqe.splits)

lemma fill_bounce_filled:
  assumes "\<forall>k. count (ring_slots (mset (map fst cqes))) k \<le> 1"
    and "\<forall>(e, res) \<in> set cqes. is_Sqe_read e \<longrightarrow> res < 0 \<or> res = int (unat (sqe_nbytes e))"
  shows "\<forall>c \<in> set cqes. filled (fill_bounce cqes d) c"
  using assms
proof (induction cqes d rule: fill_bounce.induct)
  case (2 e res cqes d)
  show ?case
  proof (cases e)
    case (Sqe_read k a m off)
    let ?d = "d\<lparr>bounce := (bounce d)(k := overwrite 0 (min (nat res) (unat m)) (\<lambda>j. img d (unat off + j)) (bounce d k))\<rparr>"
    have count: "count (add_mset k (ring_slots (mset (map fst cqes)))) j \<le> 1" for j
      using 2(2) Sqe_read by (auto dest: spec [of _ j])
    have "count (ring_slots (mset (map fst cqes))) k = 0" using count [of k] by simp
    then have "k \<notin># ring_slots (mset (map fst cqes))" by (simp add: count_eq_zero_iff)
    then have "bounce (fill_bounce cqes ?d) k = bounce ?d k" by (rule fill_bounce_other)
    moreover have "res < 0 \<or> res = int (unat m)" using 2(3) Sqe_read by auto
    ultimately have "filled (fill_bounce cqes ?d) (e, res)"
      by (auto simp: Sqe_read overwrite_def)
    moreover have "\<forall>c \<in> set cqes. filled (fill_bounce cqes ?d) c"
    proof -
      have "count (ring_slots (mset (map fst cqes))) j \<le> 1" for j
        using count [of j] by (simp split: if_splits)
      then show ?thesis using 2(1) 2(3) Sqe_read by simp
    qed
    ultimately show ?thesis by (simp add: Sqe_read)
  next
    case (Sqe_readv b off)
    then show ?thesis using 2 by simp
  qed
qed simp

lemma slots_once:
  assumes "inv_gen oth {#} 0 s"
  shows "count (ring_slots (ring s)) k + count (base_slots (mset (base_reqs s))) k \<le> 1"
proof -
  have "ring_slots (ring s) + base_slots (mset (base_reqs s)) = mset_set (act (ch s))"
    using assms by (simp add: inv_gen_def fetch_ok_def fetch_slots_def)
  then have "count (ring_slots (ring s)) k + count (base_slots (mset (base_reqs s))) k = count (mset_set (act (ch s))) k"
    by (metis count_union)
  then show ?thesis by (simp add: count_mset_set')
qed

lemma batch_slots:
  assumes "mset (map fst cqes) \<subseteq># mset (inflight s)"
  shows "ring_slots (mset (map fst cqes)) \<subseteq># ring_slots (ring s)"
proof -
  have "mset (map fst cqes) \<subseteq># ring s"
    using assms by (simp add: ring_def subset_mset.add_increasing)
  then show ?thesis unfolding ring_slots_def by (intro image_mset_subseteq_mono multiset_filter_mono)
qed

lemma data_ok_store:
  assumes "img d' = img d" and "\<And>k. k \<in># base_slots (mset (base_reqs s)) \<Longrightarrow> bounce d' k = bounce d k"
  shows "data_ok d s \<Longrightarrow> data_ok d' s"
proof -
  have "req_data d' (ub s) (ch s) r" if "req_data d (ub s) (ch s) r" "r \<in> set (base_reqs s)" for r
  proof (cases r)
    case (Req_write_stripe k a off m)
    then have "k \<in># base_slots (mset (base_reqs s))" using that(2) by (auto simp: base_slots_def intro!: rev_image_eqI)
    then show ?thesis using that(1) Req_write_stripe assms by simp
  qed (use that(1) in simp_all)
  then show "data_ok d s \<Longrightarrow> data_ok d' s" by (simp add: data_ok_def)
qed

lemma data_ok_fill:
  assumes I: "inv_gen oth {#} 0 s" and "mset (map fst cqes) \<subseteq># mset (inflight s)" and D: "data_ok d s"
  shows "data_ok (fill_bounce cqes d) s"
proof (rule data_ok_store [OF _ _ D])
  fix k assume "k \<in># base_slots (mset (base_reqs s))"
  then have "1 \<le> count (base_slots (mset (base_reqs s))) k" by simp
  with slots_once [OF I, of k] have "count (ring_slots (ring s)) k = 0" by linarith
  then have "k \<notin># ring_slots (mset (map fst cqes))"
    using mset_subset_eqD [OF batch_slots [OF assms(2)]] by (auto simp: count_eq_zero_iff)
  then show "bounce (fill_bounce cqes d) k = bounce d k" by (rule fill_bounce_other)
qed simp

lemma submit_request_frame:
  assumes "ubi_submit_request b s = Some s'"
  shows "ring s' = ring s" "base_reqs s' = base_reqs s" "stripe_fetches (ch s') = stripe_fetches (ch s)"
    "stripe_status (ub s') i = STRIPE_FETCHED \<longleftrightarrow> stripe_status (ub s) i = STRIPE_FETCHED"
proof -
  show "ring s' = ring s" "base_reqs s' = base_reqs s" "stripe_fetches (ch s') = stripe_fetches (ch s)"
    using assms by (auto simp: ubi_submit_request_def Let_def bind_eq_Some_conv insert_io_def ring_def split: if_splits)
  show "stripe_status (ub s') i = STRIPE_FETCHED \<longleftrightarrow> stripe_status (ub s) i = STRIPE_FETCHED"
    using assms
    by (auto simp: ubi_submit_request_def Let_def bind_eq_Some_conv stripe_status_eqs split: if_splits)
qed

lemma base_effect_frame [simp]:
  "img (base_effect w junk bl r ok d) = img d" "bounce (base_effect w junk bl r ok d) = bounce d"
  by (cases r; simp add: base_effect_def)+

lemma write_stripe_slot_idx:
  assumes "write_stripe_io_completion k ok s = Some s'"
  shows "slot_idx (ch s') j = slot_idx (ch s) j" "ring s' = ring s" "base_reqs s' = base_reqs s"
  using assms by (auto simp: write_stripe_io_completion_def bind_eq_Some_conv ring_def Let_def
      nth_update_field [where f = stripe_idx and g = "\<lambda>sf. sf\<lparr>active := False\<rparr>"])


lemma data_ok_flush_stages:
  assumes "data_ok d s"
  shows "ubi_data_flush_completion env b ok s = Some s' \<Longrightarrow> data_ok d s'"
    and "ubi_metadata_write_completion env b ok s = Some s' \<Longrightarrow> data_ok d s'"
proof -
  have ctx: "data_ok d (s\<lparr>driver_ctx := c\<rparr>)" for c by (rule data_ok_frame [OF assms]) (simp_all add: ring_def)
  note dn = data_ok_complete_io(2)
  show "data_ok d s'" if run: "ubi_data_flush_completion env b ok s = Some s'"
  proof (cases "ok \<and> stripes_fetched (ub s) \<noteq> stripes_flushed (ub s)")
    case True
    then obtain m where m: "md_blocks (ub s) = Some m"
      using run by (auto simp: ubi_data_flush_completion_def bind_eq_Some_conv)
    let ?s1 = "upd_ctx b (\<lambda>ubi_io. ubi_io\<lparr>io_stripes_fetched := stripes_fetched (ub s)\<rparr>) s"
    obtain ret s2 where sub: "base_submit env (Req_md_write b (metadata (ub s)) 0 m) ?s1 = (ret, s2)" by (metis surj_pair)
    have "data_ok d s2" by (rule data_ok_base_submit [OF ctx sub]) (use m in simp)
    moreover have "s' = (if ret \<noteq> 0 then spdk_bdev_io_complete b False s2 else s2)"
      using run True m sub by (auto simp: ubi_data_flush_completion_def)
    ultimately show ?thesis using dn by simp
  qed (use run assms dn in \<open>auto simp: ubi_data_flush_completion_def split: if_splits\<close>)
  show "data_ok d s'" if run: "ubi_metadata_write_completion env b ok s = Some s'"
  proof (cases ok)
    case True
    then obtain m where m: "md_blocks (ub s) = Some m"
      using run by (auto simp: ubi_metadata_write_completion_def bind_eq_Some_conv)
    obtain ret s2 where sub: "base_submit env (Req_md_flush b 0 m) s = (ret, s2)" by (metis surj_pair)
    have "data_ok d s2" by (rule data_ok_base_submit [OF assms sub]) simp
    moreover have "s' = (if ret \<noteq> 0 then spdk_bdev_io_complete b False s2 else s2)"
      using run True m sub by (auto simp: ubi_metadata_write_completion_def)
    ultimately show ?thesis using dn by simp
  qed (use run assms dn in \<open>auto simp: ubi_metadata_write_completion_def\<close>)
qed

lemma data_ok_base_completion:
  assumes D: "data_ok d s" and I: "inv_gen oth {#} 0 s" and r: "r \<in> set (base_reqs s)"
    and run: "base_completion env r ok (s\<lparr>base_reqs := remove1 r (base_reqs s)\<rparr>) = Some s'"
  shows "data_ok d s'"
proof -
  let ?s = "s\<lparr>base_reqs := remove1 r (base_reqs s)\<rparr>"
  have D1: "data_ok d ?s"
    by (rule data_ok_frame [OF D]) (auto simp: ring_def dest: set_remove1_subset [THEN subsetD])
  note ev = base_completion_evolves [OF I r run]
  show ?thesis
  proof (cases r)
    case (Req_write_stripe k a off m)
    then have "write_stripe_io_completion k ok ?s = Some s'" using run by (simp add: base_completion_def)
    from write_stripe_slot_idx [OF this] show ?thesis
      by (intro data_ok_change [OF D1]) (use ev in simp_all)
  next
    case (Req_md_flush b st m)
    then have s': "s' = ubi_metadata_flush_completion b ok ?s" using run by (simp add: base_completion_def)
    then have "ring s' = ring ?s" "base_reqs s' = base_reqs ?s" "ch s' = ch ?s"
      by (simp_all add: ubi_metadata_flush_completion_def Let_def ring_def)
    then show ?thesis by (intro data_ok_change [OF D1]) (use ev in simp_all)
  qed (use run D1 data_ok_complete_io(1) data_ok_flush_stages [OF D1] in
      \<open>auto simp: base_completion_def ubi_io_completion_cb_def\<close>)
qed

lemma data_ok_event:
  assumes D: "data_ok d s" and I: "inv_gen oth {#} 0 s" and al: "ev_allowed e s" and hon: "honest e"
    and run: "ev_exec e s = Some s'"
  shows "data_ok (store_exec w junk bl e d) s'"
proof (cases e)
  case (Ev_submit b)
  then have sub: "ubi_submit_request b s = Some s'" using run by simp
  note fr = submit_request_frame(1-3) [OF sub]
  have "data_ok d s'"
    by (rule data_ok_change [OF D submit_request_evolves [OF sub]]) (simp_all add: fr)
  then show ?thesis by (simp add: Ev_submit)
next
  case (Ev_poll env batch)
  then obtain r where poll: "ubi_io_poll env batch s = Some (r, s')" using run by auto
  have env: "uring_ok env" and batch: "mset (map fst (cqes_of batch)) \<subseteq># mset (inflight s)"
    using al Ev_poll by (auto simp: ev_ok_def split: sum.splits)
  let ?d = "fill_bounce (cqes_of batch) d"
  have "count (ring_slots (mset (map fst (cqes_of batch)))) k \<le> 1" for k
    using mset_subset_eq_count [OF batch_slots [OF batch], of k] slots_once [OF I, of k] by linarith
  then have "\<forall>c \<in> set (cqes_of batch). filled ?d c"
    using hon Ev_poll by (intro fill_bounce_filled) simp_all
  then show ?thesis
    using dat.walk_poll [OF I env batch poll, of ?d] data_ok_fill [OF I batch D] Ev_poll by simp
next
  case (Ev_buf env b ok)
  let ?s = "s\<lparr>buf_wait := remove1 b (buf_wait s)\<rparr>"
  have "b \<in># reads s" using al Ev_buf by (simp add: reads_def)
  then have "io_type b = IO_READ" "io_ok (ub s) b" "conf_ok (ub s)"
    using I by (auto simp: inv_gen_def read_ok_def)
  moreover have "data_ok d ?s" by (rule data_ok_frame [OF D]) (simp_all add: ring_def)
  moreover have "get_buf_for_read_cb env b ok ?s = Some s'" using run Ev_buf by simp
  ultimately show ?thesis using Ev_buf data_ok_get_buf [of d ?s b env ok s'] by simp
next
  case (Ev_base env r ok)
  then have "data_ok d s'" using data_ok_base_completion [OF D I, of r env ok s'] al run by simp
  then show ?thesis
    using Ev_base data_ok_store [of "base_effect w junk bl r ok d" d s'] by simp
qed

end
