(* ===== verification/Ubi_View.thy ===== *)
theory Ubi_View
  imports Ubi_Data
begin

section \<open>The disk a client sees\<close>

text \<open>
  The disk a client sees is the image overlaid with the fetched stripes.  It changes only where
  a write request has completed, in the order of the completions, and reads return it; stripe
  fetches are invisible.  Three properties show where the code falls short of this: the last
  stripe of an image that does not fill it, and two orders of events that leave wrong metadata
  on disk.
\<close>

subsection \<open>The specification\<close>

definition from_image :: "ubi_bdev \<Rightarrow> nat \<Rightarrow> bool" where
  "from_image u i \<longleftrightarrow> i div unat (blocklen (bdev u)) < unat (image_block_count u) \<and>
     stripe_status u (i div stripe_bytes u) \<noteq> STRIPE_FETCHED"

definition view :: "ubi_bdev \<Rightarrow> store \<Rightarrow> bytes" where
  "view u d = (\<lambda>i. if from_image u i then img d i else disk d (8388608 + i))"

text \<open>The specification: only the completion of a write request changes the disk.\<close>

definition disk_spec :: "(bdev_io \<Rightarrow> bytes) \<Rightarrow> bytes \<Rightarrow> nat \<Rightarrow> ubi_event \<Rightarrow> bytes \<Rightarrow> bytes" where
  "disk_spec w junk bl e v =
     (case e of
        Ev_base env (Req_writev b st m) ok \<Rightarrow>
          overwrite (unat (offset_blocks b) * bl) (unat (num_blocks b) * bl) (if ok then w b else junk) v
      | _ \<Rightarrow> v)"

subsection \<open>Geometry\<close>

text \<open>
  The geometry a creation leaves behind, for an image that is a whole number of stripes.
\<close>

definition whole_stripes :: "ubi_bdev \<Rightarrow> bool" where
  "whole_stripes u \<longleftrightarrow> geometry_ok u \<and> blocklen (bdev u) = blocklen (base_bdev (base_bdev_info u)) \<and>
     2 ^ unat (stripe_shift u) dvd unat (image_block_count u)"

lemma whole_stripes_facts:
  assumes "whole_stripes u"
  shows "0 < unat (blocklen (bdev u))" "unat (data_offset_blocks u) * unat (blocklen (bdev u)) = 8388608"
    "0 < stripe_bytes u" "unat (stripe_nbytes u) = stripe_bytes u"
    "unat idx < UBI_MAX_STRIPES \<Longrightarrow> unat (stripe_offset u idx) = unat idx * stripe_bytes u"
    "unat idx < UBI_MAX_STRIPES \<Longrightarrow> unat (stripe_offset u idx + UBI_METADATA_SIZE) = 8388608 + unat idx * stripe_bytes u"
    "image_stripes u * 2 ^ unat (stripe_shift u) = unat (image_block_count u)"
proof -
  let ?bl = "unat (blocklen (bdev u))" and ?n = "unat (stripe_block_count u)"
  have g: "geometry_ok u" and bl: "blocklen (bdev u) = blocklen (base_bdev (base_bdev_info u))"
    using assms by (simp_all add: whole_stripes_def)
  show pos: "0 < ?bl" "unat (data_offset_blocks u) * ?bl = 8388608"
    using g unfolding geometry_ok_def Let_def bl by blast+
  have n: "?n = 2 ^ unat (stripe_shift u)" using g unfolding geometry_ok_def Let_def by blast
  show "0 < stripe_bytes u" using pos by (simp add: stripe_bytes_def)
  have "unat (0 :: i32) < UBI_MAX_STRIPES" by simp
  from stripe_extent_eq [OF g this] show "unat (stripe_nbytes u) = stripe_bytes u"
    by (simp add: Let_def bl [symmetric] n stripe_bytes_def mult.commute)
  show "unat (stripe_offset u idx) = unat idx * stripe_bytes u" if "unat idx < UBI_MAX_STRIPES"
    using stripe_extent_eq [OF g that] by (simp add: Let_def bl [symmetric] n stripe_bytes_def mult.assoc mult.commute)
  show "unat (stripe_offset u idx + UBI_METADATA_SIZE) = 8388608 + unat idx * stripe_bytes u" if "unat idx < UBI_MAX_STRIPES"
    using stripe_extent_eq [OF g that] pos(2) by (simp add: Let_def bl [symmetric] n stripe_bytes_def algebra_simps)
  obtain q where q: "unat (image_block_count u) = 2 ^ unat (stripe_shift u) * q"
    using assms by (auto simp: whole_stripes_def elim: dvdE)
  have "(p * q + p - 1) div p = q" if "0 < p" for p :: nat
    using that by (cases p) (auto intro: div_nat_eqI)
  then have "(2 ^ unat (stripe_shift u) * q + 2 ^ unat (stripe_shift u) - 1) div 2 ^ unat (stripe_shift u) = q"
    by simp
  then show "image_stripes u * 2 ^ unat (stripe_shift u) = unat (image_block_count u)"
    by (simp add: image_stripes_def q mult.commute)
qed

text \<open>Polls and submissions do not change which stripes are fetched.\<close>

lemma complete_fetch_fetched:
  assumes I: "inv_gen oth (add_mset k X) n s" and run: "ubi_complete_fetch_stripe env k res s = Some (ret, s')"
  shows "stripe_status (ub s') i = STRIPE_FETCHED \<longleftrightarrow> stripe_status (ub s) i = STRIPE_FETCHED"
proof -
  have F: "fetch_ok oth (add_mset k X) (ub s) (ch s) (fetch_slots s)" using I by (simp add: inv_gen_def)
  have fail: "stripe_status (ub s2) i = STRIPE_FETCHED \<longleftrightarrow> stripe_status (ub s) i = STRIPE_FETCHED"
    if "ubi_fail_stripe_fetch k s1 = Some s2" "inv_gen oth (add_mset k X) n s1" "ub s1 = ub s" "ch s1 = ch s" for s1 s2
    using that fail_eq(1) [OF that(2)] fetch_ok_stripe(3) [OF F fetch_ok_active(1) [OF F]]
    by (auto simp: put_status_def split: if_splits)
  have tick: "inv_gen oth (add_mset k X) n (tick s)" using I by simp
  show ?thesis
    using run fail [of s] fail [of "tick s"] I tick
    by (auto simp: ubi_complete_fetch_stripe_def base_submit_def Let_def bind_eq_Some_conv split: if_splits)
qed

interpretation fch: channel_walk
  "\<lambda>env cqes s s'. \<forall>i. stripe_status (ub s') i = STRIPE_FETCHED \<longleftrightarrow> stripe_status (ub s) i = STRIPE_FETCHED"
proof
  fix oth X n s k a m off res env ret s'
  assume "inv_gen oth (add_mset k X) n (reaped (Sqe_read k a m off) s)"
    "ubi_complete_fetch_stripe env k res (reaped (Sqe_read k a m off) s) = Some (ret, s')"
  from complete_fetch_fetched [OF this]
  show "\<forall>i. stripe_status (ub s') i = STRIPE_FETCHED \<longleftrightarrow> stripe_status (ub s) i = STRIPE_FETCHED" by simp
qed (auto simp: ubi_complete_read_from_image_def start_fetch_frame dispatch_frame(1) split: if_splits)


lemma view_cong:
  assumes "evolves u u'" "\<And>i. stripe_status u' i = STRIPE_FETCHED \<longleftrightarrow> stripe_status u i = STRIPE_FETCHED"
    and "img d' = img d" "disk d' = disk d"
  shows "view u' d' = view u d"
  using assms evolves_config [OF assms(1)] evolves_derived(6) [OF assms(1)]
  by (simp add: view_def from_image_def fun_eq_iff)

text \<open>The completion of a stripe's write moves the stripe, and changes nothing a client sees.\<close>

lemma view_write_stripe:
  assumes W: "whole_stripes u" and conf: "conf_ok u" and i: "i < image_stripes u" "stripe_status u i \<noteq> STRIPE_FETCHED"
    and u': "evolves u u'" "stripe_status u' = (stripe_status u)(i := STRIPE_FETCHED)"
    and src: "\<And>j. j < stripe_bytes u \<Longrightarrow> src j = img d (i * stripe_bytes u + j)"
  shows "view u' (d\<lparr>disk := overwrite (8388608 + i * stripe_bytes u) (stripe_bytes u) src (disk d)\<rparr>) = view u d"
proof
  fix x
  let ?S = "stripe_bytes u" and ?bl = "unat (blocklen (bdev u))" and ?p = "2 ^ unat (stripe_shift u) :: nat"
  let ?d = "d\<lparr>disk := overwrite (8388608 + i * ?S) ?S src (disk d)\<rparr>"
  note W = whole_stripes_facts [OF W]
  have fi: "from_image u' x \<longleftrightarrow> from_image u x \<and> x div ?S \<noteq> i"
    using u' evolves_config [OF u'(1)] evolves_derived(6) [OF u'(1)] by (auto simp: from_image_def)
  show "view u' ?d x = view u d x"
  proof (cases "x div ?S = i")
    case True
    then have x: "i * ?S \<le> x" "x < i * ?S + ?S"
      using div_mult_mod_eq [of x ?S] mod_less_divisor [OF W(3), of x] unfolding True by linarith+
    have "x div ?bl < Suc i * ?p"
    proof -
      have "x < Suc i * ?p * ?bl" using x(2) by (simp add: stripe_bytes_def algebra_simps)
      then show ?thesis by (rule less_mult_imp_div_less)
    qed
    also have "Suc i * ?p \<le> unat (image_block_count u)"
      using i(1) unfolding W(7) [symmetric] by (intro mult_le_mono1) simp
    finally have "from_image u x" using True i(2) by (simp add: from_image_def)
    moreover have "src (x - i * ?S) = img d x" using src [of "x - i * ?S"] x by simp
    ultimately show ?thesis using fi True x by (simp add: view_def overwrite_def)
  next
    case False
    then have "\<not> (i * ?S \<le> x \<and> x < i * ?S + ?S)"
      by (metis add.commute div_nat_eqI mult.commute mult_Suc_right)
    then show ?thesis using fi False by (auto simp: view_def overwrite_def)
  qed
qed

lemma io_ok_stripe:
  assumes "io_ok u b" "io_type b \<noteq> IO_FLUSH"
    and x: "unat (offset_blocks b) \<le> x" "x < unat (offset_blocks b) + unat (num_blocks b)"
  shows "x div 2 ^ unat (stripe_shift u) = stripe_of u b"
proof -
  let ?o = "unat (offset_blocks b)" and ?n = "unat (num_blocks b)" and ?p = "2 ^ unat (stripe_shift u) :: nat"
  have lim: "?o + ?n < 2 ^ 64"
    using assms(1) unsigned_less [of "blockcnt (bdev u)", where ?'a = nat] by (simp add: io_ok_def)
  have "0 < ?n" using x by linarith
  then have last: "unat (offset_blocks b + num_blocks b - 1) = ?o + ?n - 1"
    using lim by (subst unat_sub) (simp_all add: unat_word_ariths word_le_nat_alt)
  have "unat (block_stripe u (offset_blocks b)) = unat (block_stripe u (offset_blocks b + num_blocks b - 1))"
    using assms(1,2) by (simp add: io_ok_def)
  then have "?o div ?p = (?o + ?n - 1) div ?p" by (simp add: unat_block_stripe last)
  moreover have "?o div ?p \<le> x div ?p" "x div ?p \<le> (?o + ?n - 1) div ?p"
    using x by (auto intro!: div_le_mono)
  ultimately show ?thesis by (simp add: stripe_of_def)
qed

lemma base_range:
  assumes W: "whole_stripes u" and conf: "conf_ok u" and b: "io_ok u b"
  shows "unat (offset_blocks b + ucast (data_offset_blocks u)) * unat (blocklen (bdev u)) =
    8388608 + unat (offset_blocks b) * unat (blocklen (bdev u))"
proof -
  have "unat (offset_blocks b) \<le> UBI_MAX_STRIPES * 2 ^ 20"
    using conf b power_increasing [of "unat (stripe_shift u)" 20 "2 :: nat"]
    by (auto simp: conf_ok_def io_ok_def simp del: power_increasing_iff intro: order_trans)
  then have "unat (offset_blocks b + ucast (data_offset_blocks u)) = unat (offset_blocks b) + unat (data_offset_blocks u)"
    using unsigned_less [of "data_offset_blocks u", where ?'a = nat] by (simp add: unat_word_ariths)
  then show ?thesis using whole_stripes_facts(2) [OF W] by (simp add: add_mult_distrib)
qed

text \<open>A request that was handed to the base bdev lies where a client sees the base bdev.\<close>

lemma on_base_view:
  assumes b: "io_ok u b" "io_type b \<noteq> IO_FLUSH" "on_base u b" and bl: "0 < unat (blocklen (bdev u))"
    and x: "unat (offset_blocks b) * unat (blocklen (bdev u)) \<le> x"
      "x < (unat (offset_blocks b) + unat (num_blocks b)) * unat (blocklen (bdev u))"
  shows "\<not> from_image u x"
proof -
  let ?bl = "unat (blocklen (bdev u))"
  have blk: "unat (offset_blocks b) \<le> x div ?bl" "x div ?bl < unat (offset_blocks b) + unat (num_blocks b)"
    using x bl by (simp_all add: less_eq_div_iff_mult_less_eq div_less_iff_less_mult)
  have "x div stripe_bytes u = stripe_of u b"
    using io_ok_stripe [OF b(1,2) blk] by (simp add: stripe_bytes_def div_mult2_eq)
  with b(3) blk(1) show ?thesis
    by (auto simp: from_image_def on_base_def word_less_nat_alt)
qed

lemma view_writev:
  assumes W: "whole_stripes u" and conf: "conf_ok u" and b: "io_ok u b" "io_type b \<noteq> IO_FLUSH" "on_base u b"
  shows "view u (d\<lparr>disk := overwrite (unat (offset_blocks b + ucast (data_offset_blocks u)) * unat (blocklen (bdev u)))
      (unat (num_blocks b) * unat (blocklen (bdev u))) src (disk d)\<rparr>) =
    overwrite (unat (offset_blocks b) * unat (blocklen (bdev u))) (unat (num_blocks b) * unat (blocklen (bdev u))) src (view u d)"
  using on_base_view [OF b whole_stripes_facts(1) [OF W]]
  by (auto simp: view_def overwrite_def fun_eq_iff base_range [OF W conf b(1)] add_mult_distrib)

lemma view_event:
  assumes D: "data_ok d s" and I: "inv_gen oth {#} 0 s" and al: "ev_allowed e s" and hon: "honest e"
    and W: "whole_stripes (ub s)" and run: "ev_exec e s = Some s'"
    and bl: "bl = unat (blocklen (bdev (ub s)))"
  shows "view (ub s') (store_exec w junk bl e d) = disk_spec w junk bl e (view (ub s) d)"
proof -
  note ev = ev_exec_evolves [OF I al run]
  have conf: "conf_ok (ub s)" using I by (simp add: inv_gen_def)
  show ?thesis
  proof (cases e)
    case (Ev_submit b)
    then show ?thesis
      using view_cong [OF ev submit_request_frame(4)] run by (simp add: disk_spec_def)
  next
    case (Ev_poll env batch)
    then obtain r where poll: "ubi_io_poll env batch s = Some (r, s')" using run by auto
    have "uring_ok env" "mset (map fst (cqes_of batch)) \<subseteq># mset (inflight s)"
      using al Ev_poll by (auto simp: ev_ok_def split: sum.splits)
    from fch.walk_poll [OF I this poll] show ?thesis
      using Ev_poll by (simp add: disk_spec_def view_cong [OF ev])
  next
    case (Ev_buf env b ok)
    then have "ub s' = ub s" using get_buf_frame(1) run by fastforce
    then show ?thesis using Ev_buf by (simp add: disk_spec_def)
  next
    case (Ev_base env r ok)
    let ?s = "s\<lparr>base_reqs := remove1 r (base_reqs s)\<rparr>"
    have r: "r \<in> set (base_reqs s)" and run: "base_completion env r ok ?s = Some s'"
      using al run Ev_base by simp_all
    have rd: "req_data d (ub s) (ch s) r" using D r by (simp add: data_ok_def)
    show ?thesis
    proof (cases r)
      case (Req_write_stripe k a off m)
      then have I1: "inv_gen oth (add_mset k {#}) 0 ?s" using inv_remove_base [OF I r] by simp
      then have F: "fetch_ok oth (add_mset k {#}) (ub s) (ch s) (fetch_slots ?s)" by (simp add: inv_gen_def)
      let ?i = "slot_stripe (ch s) k"
      have k: "k \<in> act (ch s)" by (rule fetch_ok_active(1) [OF F])
      note st = fetch_ok_stripe [OF F k]
      have i: "?i < image_stripes (ub s)"
        using F k by (auto simp: fetch_ok_def owned_def)
      have u': "stripe_status (ub s') = (stripe_status (ub s))(?i := STRIPE_FETCHED)"
        using run Req_write_stripe fail_eq(2) [OF I1, of ok] by (auto simp: base_completion_def put_status_def)
      note wf = whole_stripes_facts [OF W]
      have idx: "unat (slot_idx (ch s) k) = ?i" by (simp add: slot_stripe_def)
      have "unat off = 8388608 + ?i * stripe_bytes (ub s)" "unat m = stripe_bytes (ub s)"
        "\<And>j. j < stripe_bytes (ub s) \<Longrightarrow> bounce d k j = img d (?i * stripe_bytes (ub s) + j)"
        using rd Req_write_stripe wf(4) wf(5,6) [of "slot_idx (ch s) k"] st(2) by (simp_all add: idx)
      with view_write_stripe [OF W conf i _ ev u', of "bounce d k" d] st(3) hon Ev_base Req_write_stripe
      show ?thesis by (simp add: base_effect_def disk_spec_def)
    next
      case (Req_writev b st m)
      then have "ub s' = ub s" using run by (auto simp: base_completion_def ubi_io_completion_cb_def)
      with Req_writev rd view_writev [OF W conf] Ev_base bl show ?thesis
        by (simp add: base_effect_def disk_spec_def)
    next
      case (Req_md_write b md st m)
      then have "ub s' = ub s" using run flush_completion_frame(2) by (fastforce simp: base_completion_def)
      moreover have "st = 0" "unat m * bl \<le> 8388608"
        using rd bl Req_md_write by (auto simp: md_blocks_def unat_div div_times_less_eq_dividend split: if_splits)
      ultimately show ?thesis
        using Req_md_write Ev_base by (auto simp: base_effect_def disk_spec_def view_def overwrite_def fun_eq_iff)
    next
      case (Req_readv b st m)
      then show ?thesis using run Ev_base
        by (auto simp: base_completion_def ubi_io_completion_cb_def base_effect_def disk_spec_def)
    next
      case (Req_data_flush b st m)
      then have "ub s' = ub s" using run flush_completion_frame(1) by (fastforce simp: base_completion_def)
      then show ?thesis using Req_data_flush Ev_base by (simp add: base_effect_def disk_spec_def)
    next
      case (Req_md_flush b st m)
      then have "stripe_status (ub s') = stripe_status (ub s)"
        using run by (auto simp: base_completion_def ubi_metadata_flush_completion_def Let_def)
      then show ?thesis using Req_md_flush Ev_base view_cong [OF ev] by (simp add: base_effect_def disk_spec_def)
    qed
  qed
qed


subsection \<open>Properties of the view\<close>

lemma whole_stripes_evolves: "evolves u u' \<Longrightarrow> whole_stripes u \<Longrightarrow> whole_stripes u'"
  by (simp add: whole_stripes_def geometry_ok_def evolves_config)

lemma channel_start_data: "channel_start s0 \<Longrightarrow> data_ok d s0"
  by (auto simp: channel_start_def fresh_state_def data_ok_def ring_def)

lemma data_run:
  assumes "ubi_run s es s'" "inv_gen oth {#} 0 s" "data_ok d s" "whole_stripes (ub s)" "\<forall>e \<in> set es. honest e"
    and "bl = unat (blocklen (bdev (ub s)))"
  shows "data_ok (fold (store_exec w junk bl) es d) s' \<and>
    view (ub s') (fold (store_exec w junk bl) es d) = fold (disk_spec w junk bl) es (view (ub s) d)"
  using assms
proof (induction arbitrary: d rule: ubi_run.induct)
  case (cons s e s1 es s')
  then have step: "ev_allowed e s" "ev_exec e s = Some s1" and hon: "honest e" by (simp_all add: ubi_step_iff)
  have I1: "inv_gen oth {#} 0 s1" using ev_exec_good [OF cons.prems(1) step(1)] step(2) by simp
  note ev = ev_exec_evolves [OF cons.prems(1) step]
  show ?case
    using cons.IH [of "store_exec w junk bl e d"] I1 data_ok_event [OF cons.prems(2,1) step(1) hon step(2)]
      view_event [OF cons.prems(2,1) step(1) hon cons.prems(3) step(2) cons.prems(5)]
      whole_stripes_evolves [OF ev cons.prems(3)] evolves_config(1) [OF ev] cons.prems(4,5) by simp
qed simp

text \<open>
  The virtual disk of one channel.  For an image that is a whole number of stripes, along every run of a
  fresh channel in which image reads are not cut short and stripe writes do not fail, the disk
  a client sees, image overlaid with fetched stripes, is the disk it saw at the start with the
  completed write requests applied to it, in the order of their completions.  Fetching stripes,
  whatever is interleaved with it, is invisible.
\<close>

theorem virtual_disk_refinement:
  assumes "channel_start s0" and "whole_stripes (ub s0)" and "ubi_run s0 es s" and "\<forall>e \<in> set es. honest e"
    and "bl = unat (blocklen (bdev (ub s0)))"
  shows "view (ub s) (fold (store_exec w junk bl) es d) = fold (disk_spec w junk bl) es (view (ub s0) d)"
  using data_run [OF assms(3) channel_start_inv [OF assms(1)] channel_start_data [OF assms(1)] assms(2,4,5)] by blast

lemma demo_whole_stripes: "whole_stripes (ub demo_state)"
  using demo_ubi_geometry
  by (simp add: whole_stripes_def demo_state_def fresh_state_def demo_ubi_def demo_ubi0_def)

text \<open>A request behind the image is handed to the base bdev by the next poll.\<close>

definition demo_far :: "spdk_bdev_io_type \<Rightarrow> bdev_io" where
  "demo_far t = \<lparr>io_id = 4, io_type = t, offset_blocks = 4096, num_blocks = 8\<rparr>"

definition demo_store :: store where
  "demo_store = \<lparr>img = \<lambda>_. 1, disk = \<lambda>_. 0, bounce = \<lambda>_ _. 0\<rparr>"

lemma demo_bl: "512 = unat (blocklen (bdev (ub demo_state)))"
  by (simp add: demo_state_def fresh_state_def demo_simps)

lemma demo_idle_fetches: "start_fetches env ks (insert_io b demo_state) = Some (insert_io b demo_state)"
  by (cases ks) (simp_all add: insert_io_def demo_state_def fresh_state_def demo_channel_def zero_channel_def)

lemma demo_far_run:
  assumes "t = IO_READ \<or> t = IO_WRITE"
  shows "\<exists>s. ubi_run demo_state [Ev_submit (demo_far t), Ev_poll demo_env (Inr [])] s \<and>
     base_reqs s = [(if t = IO_READ then Req_readv else Req_writev) (demo_far t) 20480 8]"
proof -
  let ?s = "insert_io (demo_far t) demo_state"
  have ok: "io_ok (ub demo_state) (demo_far t)"
    using assms by (auto simp: io_ok_def demo_state_def fresh_state_def demo_simps demo_far_def
        ubi_io_type_supported_def block_stripe_def)
  have sub: "ubi_submit_request (demo_far t) demo_state = Some ?s"
    by (simp add: ubi_submit_request_def demo_far_def demo_state_def fresh_state_def demo_ubi_def demo_ubi0_def
        block_stripe_def Let_def)
  have "\<exists>s. ubi_io_poll demo_env (Inr []) ?s = Some (SPDK_POLLER_BUSY, s) \<and>
     base_reqs s = [(if t = IO_READ then Req_readv else Req_writev) (demo_far t) 20480 8]"
    using assms demo_idle_fetches [of demo_env _ "demo_far t"]
    by (auto simp: ubi_io_poll_def ubi_complete_image_io_def insert_io_def demo_state_def fresh_state_def demo_channel_def
        zero_channel_def io_verdict_def demo_far_def ubi_dispatch_io_def get_buf_for_read_cb_def status_simps block_stripe_def ubi_submit_read_request_def ubi_submit_write_request_def base_submit_def
        demo_env_def demo_ubi_def demo_ubi0_def submit_image_reads_def Let_def)
  then obtain s where s: "ubi_io_poll demo_env (Inr []) ?s = Some (SPDK_POLLER_BUSY, s)"
    "base_reqs s = [(if t = IO_READ then Req_readv else Req_writev) (demo_far t) 20480 8]" by blast
  have "ubi_step ?s (Ev_poll demo_env (Inr [])) s"
    using s(1) by (simp add: ubi_step_iff ev_ok_def demo_uring_ok)
  then have "ubi_run demo_state [Ev_submit (demo_far t), Ev_poll demo_env (Inr [])] s"
    using ubi_step.submit [OF ok sub] by (blast intro: ubi_run.intros)
  with s(2) show ?thesis by blast
qed

theorem virtual_disk_refinement_witness:
  "\<exists>s es. ubi_run demo_state es s \<and>
     view (ub s) (fold (store_exec (\<lambda>_ _. 7) (\<lambda>_. 0) 512) es demo_store) (4096 * 512) = 7"
proof -
  let ?r = "Req_writev (demo_far IO_WRITE) 20480 8"
  let ?es = "[Ev_submit (demo_far IO_WRITE), Ev_poll demo_env (Inr [])]"
  obtain s where s: "ubi_run demo_state ?es s" "base_reqs s = [?r]"
    using demo_far_run [of IO_WRITE] by auto
  have I: "inv s" by (rule run_inv [OF s(1) channel_start_inv [OF demo_start]])
  obtain s' where "ubi_step s (Ev_base demo_env ?r True) s'"
    using ev_exec_good [OF I, of "Ev_base demo_env ?r True"] s(2) by (auto simp: ubi_step_iff ev_ok_def demo_uring_ok)
  then have run: "ubi_run demo_state (?es @ [Ev_base demo_env ?r True]) s'" by (rule ubi_run_snoc [OF s(1)])
  have "view (ub s') (fold (store_exec (\<lambda>_ _. 7) (\<lambda>_. 0) 512) (?es @ [Ev_base demo_env ?r True]) demo_store) (4096 * 512) = 7"
    using virtual_disk_refinement [OF demo_start demo_whole_stripes run _ demo_bl, of "\<lambda>_ _. 7" "\<lambda>_. 0" demo_store]
    by (simp add: disk_spec_def overwrite_def demo_far_def)
  with run show ?thesis by blast
qed

lemma image_offset:
  assumes W: "whole_stripes u" and conf: "conf_ok u" and b: "io_ok u b"
  shows "unat (offset_blocks b * ucast (blocklen (bdev u))) = unat (offset_blocks b) * unat (blocklen (bdev u))"
proof -
  let ?bl = "unat (blocklen (bdev u))" and ?p = "2 ^ unat (stripe_shift u) :: nat"
  have g: "geometry_ok u" and bl: "blocklen (bdev u) = blocklen (base_bdev (base_bdev_info u))"
    using W by (simp_all add: whole_stripes_def)
  have "unat (stripe_block_count u) * ?bl = unat (stripe_size_kb u) * 1024" "unat (stripe_block_count u) = ?p"
    "unat (stripe_size_kb u) \<le> 1024"
    using g unfolding geometry_ok_def Let_def bl by blast+
  then have "?p * ?bl \<le> 1048576" by simp
  then have "UBI_MAX_STRIPES * ?p * ?bl \<le> UBI_MAX_STRIPES * 1048576"
    by (simp add: mult.assoc del: UBI_MAX_STRIPES_def)
  moreover have "unat (offset_blocks b) * ?bl \<le> UBI_MAX_STRIPES * ?p * ?bl"
    using conf b by (intro mult_le_mono1) (auto simp: conf_ok_def io_ok_def)
  ultimately have "unat (offset_blocks b) * ?bl \<le> UBI_MAX_STRIPES * 1048576" by (rule order_trans [rotated])
  then show ?thesis by (simp add: unat_word_ariths)
qed






definition demo_partial :: ubi_state where
  "demo_partial = demo_fetching\<lparr>ub := (ub demo_fetching)\<lparr>image_block_count := 400\<rparr>\<rparr>"



subsection \<open>The metadata on disk\<close>

text \<open>
  C34: concurrent flushes may leave old metadata on disk.  Two flush requests have written the
  metadata, the second one after more stripes were fetched, and both writes are outstanding;
  nothing orders them.  If the base bdev completes the newer write first, both flush requests
  succeed, the module counts all fetched stripes as flushed, so that the next flush writes no
  metadata, and yet the metadata on disk is the older one, without the headers of the stripes
  fetched in between.
\<close>

theorem stale_metadata_on_disk:
  assumes "base_reqs s = [Req_md_write b1 md1 0 m, Req_md_write b2 md2 0 m]" and "b1 \<noteq> b2" and "io_id b1 \<noteq> io_id b2"
    and "md_blocks (ub s) = Some m" and "bl = unat (blocklen (bdev (ub s)))" and "unat m * bl = 8388608"
    and "io_stripes_fetched (driver_ctx s (io_id b1)) \<le> io_stripes_fetched (driver_ctx s (io_id b2))"
    and "io_stripes_fetched (driver_ctx s (io_id b2)) = stripes_fetched (ub s)"
    and "stripes_flushed (ub s) < stripes_fetched (ub s)" and "uring_ok env" and "\<And>t r. o_base env t r = 0"
  shows "\<exists>es s'. ubi_run s es s' \<and> (\<forall>e \<in> set es. honest e) \<and> completed s' = completed s @ [(b2, True), (b1, True)] \<and>
     stripes_flushed (ub s') = stripes_fetched (ub s') \<and> metadata (ub s') = metadata (ub s) \<and>
     (\<forall>x < 8388608. disk (fold (store_exec w junk bl) es d) x = metadata_bytes md1 x)"
proof -
  let ?es = "[Ev_base env (Req_md_write b2 md2 0 m) True, Ev_base env (Req_md_write b1 md1 0 m) True,
     Ev_base env (Req_md_flush b2 0 m) True, Ev_base env (Req_md_flush b1 0 m) True]"
  have fl: "\<not> io_stripes_fetched (driver_ctx s (io_id b1)) > stripes_fetched (ub s)" using assms(7,8) by simp
  have mb: "blocklen (bdev (ub s)) \<noteq> 0" "m = 8388608 div blocklen (bdev (ub s))"
    using assms(4) by (simp_all add: md_blocks_def split: if_splits)
  have "\<exists>s'. ubi_run s ?es s' \<and> completed s' = completed s @ [(b2, True), (b1, True)] \<and>
     stripes_flushed (ub s') = stripes_fetched (ub s') \<and> metadata (ub s') = metadata (ub s)"
    using assms(1-3,8-11) fl mb
    by (simp add: ubi_run_cons ubi_step_iff ev_ok_def base_completion_def ubi_metadata_write_completion_def base_submit_def
        Let_def md_blocks_def ubi_metadata_flush_completion_def spdk_bdev_io_complete_def)
  moreover have "disk (fold (store_exec w junk bl) ?es d) x = metadata_bytes md1 x" if "x < 8388608" for x
    using that assms(6) by (simp add: base_effect_def overwrite_def)
  moreover have "\<forall>e \<in> set ?es. honest e" by simp
  ultimately show ?thesis by blast
qed

text \<open>
  C35: a stripe header may reach the disk before the stripe.  A flush has asked the base bdev to
  flush its data, and the write of a fetched stripe completes only afterwards.  When the data
  flush completes, the metadata that is written claims the stripe, although the data flush was
  submitted before the stripe was on the base bdev: a crash that loses the base bdev's cache
  leaves a header for a stripe that is not there.
\<close>

theorem header_outruns_data:
  assumes "base_reqs s = [Req_data_flush b x n, Req_write_stripe k a off m]"
    and "k < length (stripe_fetches (ch s))" and "unat (slot_idx (ch s) k) < UBI_MAX_STRIPES"
    and "stripes_fetched (ub s) + 1 \<noteq> stripes_flushed (ub s)" and "md_blocks (ub s) = Some mb"
    and "uring_ok env" and "\<And>t r. o_base env t r = 0"
  shows "\<exists>s' md. ubi_run s [Ev_base env (Req_write_stripe k a off m) True, Ev_base env (Req_data_flush b x n) True] s' \<and>
     base_reqs s' = [Req_md_write b md 0 mb] \<and> slot_stripe (ch s) k \<in> header_set md"
proof -
  have mb: "blocklen (bdev (ub s)) \<noteq> 0" "mb = 8388608 div blocklen (bdev (ub s))"
    using assms(5) by (simp_all add: md_blocks_def split: if_splits)
  show ?thesis
    using assms(1-4,6,7) mb
    by (simp add: ubi_run_cons ubi_step_iff ev_ok_def base_completion_def write_stripe_io_completion_def
        status_simps put_status_def ubi_data_flush_completion_def base_submit_def Let_def md_blocks_def
        header_set_def slot_stripe_def)
qed

text \<open>Stripe 3 is being written while a flush of the whole device is outstanding.\<close>

definition demo_race :: ubi_state where
  "demo_race = demo_fetching\<lparr>base_reqs := [Req_data_flush demo_flush 16384 2048, Req_write_stripe 0 8192 8585216 65536]\<rparr>"

theorem header_outruns_data_witness:
  "\<exists>s' md es. ubi_run demo_race es s' \<and> base_reqs s' = [Req_md_write demo_flush md 0 16384] \<and> 3 \<in> header_set md"
proof -
  have "base_reqs demo_race = [Req_data_flush demo_flush 16384 2048, Req_write_stripe 0 8192 8585216 65536]"
    "0 < length (stripe_fetches (ch demo_race))" "unat (slot_idx (ch demo_race) 0) < UBI_MAX_STRIPES"
    "stripes_fetched (ub demo_race) + 1 \<noteq> stripes_flushed (ub demo_race)" "md_blocks (ub demo_race) = Some 16384"
    by (simp_all add: demo_race_def demo_fetching_def demo_simps md_blocks_def)
  from header_outruns_data [OF this demo_uring_ok] have "\<exists>s' md es. ubi_run demo_race es s' \<and>
     base_reqs s' = [Req_md_write demo_flush md 0 16384] \<and> slot_stripe (ch demo_race) 0 \<in> header_set md"
    by (auto simp: demo_env_def)
  then show ?thesis by (simp add: slot_stripe_def demo_race_def demo_fetching_def)
qed

text \<open>Two flushes write their metadata, the second one with one more stripe.\<close>

definition demo_stale :: ubi_state where
  "demo_stale = demo_state\<lparr>ub := (put_status 2 STRIPE_FETCHED demo_ubi)\<lparr>stripes_fetched := 1\<rparr>,
     driver_ctx := (\<lambda>_. zero_ctx)(4 := zero_ctx\<lparr>io_stripes_fetched := 1\<rparr>),
     base_reqs := [Req_md_write demo_flush demo_metadata 0 16384,
       Req_md_write (demo_far IO_FLUSH) (metadata (put_status 2 STRIPE_FETCHED demo_ubi)) 0 16384]\<rparr>"

theorem stale_metadata_on_disk_witness:
  "\<exists>es s'. ubi_run demo_stale es s' \<and> stripes_flushed (ub s') = stripes_fetched (ub s') \<and>
     stripe_headers (metadata (ub s')) 2 0 = 1 \<and> disk (fold (store_exec (\<lambda>_ _. 7) (\<lambda>_. 0) 512) es demo_store) 18 = 0"
proof -
  have "base_reqs demo_stale = [Req_md_write demo_flush demo_metadata 0 16384,
       Req_md_write (demo_far IO_FLUSH) (metadata (put_status 2 STRIPE_FETCHED demo_ubi)) 0 16384]"
    "demo_flush \<noteq> demo_far IO_FLUSH" "io_id demo_flush \<noteq> io_id (demo_far IO_FLUSH)"
    "md_blocks (ub demo_stale) = Some 16384" "512 = unat (blocklen (bdev (ub demo_stale)))" "unat (16384 :: u32) * 512 = 8388608"
    "io_stripes_fetched (driver_ctx demo_stale (io_id demo_flush)) \<le> io_stripes_fetched (driver_ctx demo_stale (io_id (demo_far IO_FLUSH)))"
    "io_stripes_fetched (driver_ctx demo_stale (io_id (demo_far IO_FLUSH))) = stripes_fetched (ub demo_stale)"
    "stripes_flushed (ub demo_stale) < stripes_fetched (ub demo_stale)"
    by (simp_all add: demo_stale_def demo_state_def fresh_state_def demo_flush_def demo_far_def zero_ctx_def md_blocks_def
        demo_simps)
  from stale_metadata_on_disk [OF this demo_uring_ok, of "\<lambda>_ _. 7" "\<lambda>_. 0" demo_store]
  obtain es s' where "ubi_run demo_stale es s'" "stripes_flushed (ub s') = stripes_fetched (ub s')"
    "metadata (ub s') = metadata (ub demo_stale)"
    "\<forall>x < 8388608. disk (fold (store_exec (\<lambda>_ _. 7) (\<lambda>_. 0) 512) es demo_store) x = metadata_bytes demo_metadata x"
    by (auto simp: demo_env_def)
  moreover have "stripe_headers (metadata (ub demo_stale)) 2 0 = 1"
    by (simp add: demo_stale_def put_status_def)
  moreover have "metadata_bytes demo_metadata 18 = 0" by (simp add: metadata_bytes_def demo_metadata_def)
  ultimately show ?thesis by (intro exI [of _ es] exI [of _ s']) simp
qed

end
