(* ===== verification/Ubi_Quiet.thy ===== *)
theory Ubi_Quiet
  imports Ubi_View
begin

section \<open>Channels without requests\<close>

text \<open>
  Every stripe that a channel fetches has a request waiting for it, so a channel that has
  answered all its requests has nothing outstanding, and may be destroyed.
\<close>

subsection \<open>Every fetch has a request waiting for it\<close>

definition waits_for :: "ubi_bdev \<Rightarrow> nat \<Rightarrow> bdev_io \<Rightarrow> bool" where
  "waits_for u i b \<longleftrightarrow> io_type b \<noteq> IO_FLUSH \<and> offset_blocks b < image_block_count u \<and> stripe_of u b = i"

definition waited :: "ubi_state \<Rightarrow> bool" where
  "waited s \<longleftrightarrow> (\<forall>i \<in> owned (ch s). \<exists>b \<in> set (ch_io (ch s)). waits_for (ub s) i b)"

lemma owned_eq: "inv_gen oth X n s \<Longrightarrow> owned (ch s) = inflight_set (ub s) - oth"
  by (auto simp: inv_gen_def fetch_ok_def)

lemma waits_for_evolves: "evolves u u' \<Longrightarrow> waits_for u' = waits_for u"
  by (simp add: waits_for_def fun_eq_iff evolves_config evolves_derived)

text \<open>While no request leaves and no stripe is added, nothing changes.\<close>

lemma waited_mono:
  assumes "waited s" "inv_gen oth X n s" "inv_gen oth X' n' s'" "evolves (ub s) (ub s')"
    and "inflight_set (ub s') \<subseteq> inflight_set (ub s)" "set (ch_io (ch s)) \<subseteq> set (ch_io (ch s'))"
  shows "waited s'"
proof -
  have "\<exists>b \<in> set (ch_io (ch s')). waits_for (ub s') i b" if "i \<in> owned (ch s')" for i
  proof -
    have "i \<in> owned (ch s)" using that assms(5) owned_eq [OF assms(2)] owned_eq [OF assms(3)] by auto
    then obtain b where "b \<in> set (ch_io (ch s))" "waits_for (ub s) i b" using assms(1) by (auto simp: waited_def)
    then show ?thesis using assms(6) waits_for_evolves [OF assms(4)] by auto
  qed
  then show ?thesis by (simp add: waited_def)
qed

text \<open>A request that leaves the queue was not waiting for a stripe in flight.\<close>

lemma waited_popped:
  assumes "waited s" "inv_gen oth X n s" "inv_gen oth X' n' s'" "ub s' = ub s"
    and "ch_io (ch s) = b # bs" "ch_io (ch s') = bs" "io_ok (ub s) b" "io_verdict (ub s) b \<noteq> Some Io_wait"
  shows "waited s'"
proof -
  have conf: "conf_ok (ub s)" using assms(2) by (simp add: inv_gen_def)
  have "\<exists>c \<in> set bs. waits_for (ub s) i c" if i: "i \<in> inflight_set (ub s)" "i \<in> owned (ch s)" for i
  proof -
    obtain c where c: "c \<in> set (b # bs)" "waits_for (ub s) i c"
      using assms(1,5) i(2) by (auto simp: waited_def)
    have "c \<noteq> b"
    proof
      assume "c = b"
      then have "stripe_status (ub s) (stripe_of (ub s) b) = STRIPE_INFLIGHT" "io_type b \<noteq> IO_FLUSH"
        "offset_blocks b < image_block_count (ub s)"
        using i(1) c(2) by (simp_all add: inflight_set_def waits_for_def)
      then show False using assms(8) by (simp add: io_verdict_eq [OF conf assms(7)])
    qed
    with c show ?thesis by auto
  qed
  then show ?thesis
    using owned_eq [OF assms(2)] owned_eq [OF assms(3)] assms(4,6) unfolding waited_def by auto
qed

lemma complete_fetch_ch_io: "ubi_complete_fetch_stripe env k res s = Some (ret, s') \<Longrightarrow> ch_io (ch s') = ch_io (ch s)"
  by (auto simp: ubi_complete_fetch_stripe_def ubi_fail_stripe_fetch_def base_submit_def Let_def bind_eq_Some_conv
      split: if_splits)

lemma complete_fetch_inflight_set:
  assumes I: "inv_gen oth (add_mset k X) n s" and run: "ubi_complete_fetch_stripe env k res s = Some (ret, s')"
  shows "inflight_set (ub s') \<subseteq> inflight_set (ub s)"
proof -
  have fail: "inflight_set (ub s2) \<subseteq> inflight_set (ub s)"
    if "ubi_fail_stripe_fetch k s1 = Some s2" "inv_gen oth (add_mset k X) n s1" "ub s1 = ub s" for s1 s2
    using that fail_eq(1) [OF that(2)] by (auto simp: put_status_def inflight_set_def split: if_splits)
  have tick: "inv_gen oth (add_mset k X) n (tick s)" using I by simp
  show ?thesis
    using run fail [of s] fail [of "tick s"] I tick
    by (auto simp: ubi_complete_fetch_stripe_def base_submit_def Let_def bind_eq_Some_conv split: if_splits)
qed

interpretation wai: channel_walk "\<lambda>env cqes s s'. waited s \<longrightarrow> waited s'"
proof
  fix oth X n s k a m off res env ret s'
  let ?s = "reaped (Sqe_read k a m off) s"
  assume I: "inv_gen oth X n s" and I1: "inv_gen oth (add_mset k X) n ?s"
    and run: "ubi_complete_fetch_stripe env k res ?s = Some (ret, s')"
  have "inv_gen oth X n s'" using inv_complete_fetch [OF I1, of env res] run by auto
  from waited_mono [OF _ I this] complete_fetch_evolves [OF I1 run] complete_fetch_inflight_set [OF I1 run]
    complete_fetch_ch_io [OF run]
  show "waited s \<longrightarrow> waited s'" by simp
next
  fix oth X n s b off res env ret s'
  assume "ubi_complete_read_from_image b res (reaped (Sqe_readv b off) s) = (ret, s')"
  then have "ub s' = ub s" "ch_io (ch s') = ch_io (ch s)" "owned (ch s') = owned (ch s)"
    by (auto simp: ubi_complete_read_from_image_def owned_def queued_def act_def slot_stripe_def split: if_splits)
  then show "waited s \<longrightarrow> waited s'" by (simp add: waited_def)
next
  fix oth X n s k idx rest q env s'
  let ?s = "assigned k idx q s"
  assume I: "inv_gen oth X n s" and env: "uring_ok env" and I1: "inv_gen oth (add_mset k X) n ?s"
    and run: "ubi_start_fetch_stripe env k ?s = Some s'"
  have "inv_gen oth X n s'" using inv_start_fetch_ok [OF I1 env] run by auto
  then have I2: "inv_gen oth X n (counted s')" by simp
  show "waited s \<longrightarrow> waited (counted s')"
    using waited_mono [OF _ I I2] start_fetch_frame(1,3) [OF run env] by simp
next
  fix oth X s b bs env s'
  assume I: "inv_gen oth X 0 s" and b: "ch_io (ch s) = b # bs" "io_ok (ub s) b"
    and room: "io_type b = IO_READ \<Longrightarrow> active_reads (ch s) < UBI_MAX_CONCURRENT_READS"
    and v: "io_verdict (ub s) b = Some Io_serve"
    and I1: "inv_gen oth X 0 (popped bs s)" and run: "ubi_dispatch_io env b (popped bs s) = Some s'"
  have "inv_gen oth X 0 s'" using inv_dispatch [OF I1, of b env] b(2) room run by auto
  from waited_popped [OF _ I this _ b(1) _ b(2)] dispatch_frame [OF run] v show "waited s \<longrightarrow> waited s'" by simp
next
  fix oth X s b bs env
  assume I: "inv_gen oth X 0 s" and b: "ch_io (ch s) = b # bs" "io_ok (ub s) b" "io_verdict (ub s) b = Some Io_stripe_failed"
  have "inv_gen oth X 0 (spdk_bdev_io_complete b False (popped bs s))" using inv_pop_io [OF I b(1)] by simp
  from waited_popped [OF _ I this _ b(1) _ b(2)] b(3)
  show "waited s \<longrightarrow> waited (spdk_bdev_io_complete b False (popped bs s))" by simp
next
  fix oth X n s env
  assume "inv_gen oth X n s"
  have "ch_io (ch (submit_image_reads env s)) = ch_io (ch s)" "owned (ch (submit_image_reads env s)) = owned (ch s)"
    using io_uring_submit_frame(3)
    by (auto simp: submit_image_reads_def owned_def queued_def act_def slot_stripe_def split: prod.split)
  then show "waited s \<longrightarrow> waited (submit_image_reads env s)" by (simp add: waited_def)
qed auto


text \<open>The image file stays the one that was opened with the channel.\<close>

abbreviation chan_fd :: "ubi_state \<Rightarrow> int" where
  "chan_fd s \<equiv> image_file_fd (ch s)"

lemma fd_uring_submit: "io_uring_submit env s = (ret, s') \<Longrightarrow> chan_fd s' = chan_fd s"
  by (auto simp: io_uring_submit_def Let_def split: if_splits)

lemma fd_get_buf: "get_buf_for_read_cb env b ok s = Some s' \<Longrightarrow> chan_fd s' = chan_fd s"
  by (auto simp: get_buf_for_read_cb_def ubi_submit_read_request_def base_submit_def ubi_complete_io_def
      spdk_bdev_io_complete_def Let_def bind_eq_Some_conv split: if_splits)

lemma fd_flush_request: "chan_fd (ubi_submit_flush_request env b s) = chan_fd s"
  by (simp add: ubi_submit_flush_request_def base_submit_def spdk_bdev_io_complete_def Let_def)

interpretation fdc: channel_walk "\<lambda>env cqes s s'. chan_fd s' = chan_fd s"
proof
  fix oth X n s k a m off res env ret s'
  assume "ubi_complete_fetch_stripe env k res (reaped (Sqe_read k a m off) s) = Some (ret, s')"
  then show "chan_fd s' = chan_fd s"
    by (auto simp: ubi_complete_fetch_stripe_def ubi_fail_stripe_fetch_def base_submit_def Let_def bind_eq_Some_conv
        split: if_splits)
next
  fix oth X n s b off res env ret s'
  assume "ubi_complete_read_from_image b res (reaped (Sqe_readv b off) s) = (ret, s')"
  then show "chan_fd s' = chan_fd s"
    by (auto simp: ubi_complete_read_from_image_def ubi_complete_io_def spdk_bdev_io_complete_def split: if_splits)
next
  fix oth X n s k idx rest q env s'
  assume "ubi_start_fetch_stripe env k (assigned k idx q s) = Some s'"
  then show "chan_fd (counted s') = chan_fd s"
    by (auto simp: ubi_start_fetch_stripe_def ubi_fail_stripe_fetch_def io_uring_submit_def Let_def bind_eq_Some_conv
        split: if_splits)
next
  fix oth X s b bs env s'
  assume "ubi_dispatch_io env b (popped bs s) = Some s'"
  then show "chan_fd s' = chan_fd s"
    by (auto simp: ubi_dispatch_io_def ubi_submit_write_request_def base_submit_def fd_flush_request
        spdk_bdev_io_complete_def Let_def split: spdk_bdev_io_type.splits option.splits dest!: fd_get_buf)
next
  fix oth X n s env
  show "chan_fd (submit_image_reads env s) = chan_fd s"
    by (simp add: submit_image_reads_def fd_uring_submit split: prod.split)
qed (auto simp: spdk_bdev_io_complete_def)

lemma submit_request_cases:
  assumes "ubi_submit_request b s = Some s'"
  obtains "s' = spdk_bdev_io_complete b False s" | "s' = insert_io b s"
  | q u where "io_type b \<noteq> IO_FLUSH" "offset_blocks b < image_block_count (ub s)"
      "ubi_get_stripe_status (ub s) (ucast (block_stripe (ub s) (offset_blocks b))) = Some STRIPE_NOT_FETCHED"
      "enqueue_stripe (stripe_fetch_queue (ch s)) (ucast (block_stripe (ub s) (offset_blocks b))) = Some q"
      "ubi_set_stripe_status (ub s) (ucast (block_stripe (ub s) (offset_blocks b))) STRIPE_INFLIGHT = Some u"
      "s' = insert_io b (s\<lparr>ub := u, ch := (ch s)\<lparr>stripe_fetch_queue := q\<rparr>\<rparr>)"
  using assms by (auto simp: ubi_submit_request_def Let_def bind_eq_Some_conv split: if_splits)

lemma base_completion_inflight_set:
  assumes I: "inv_gen oth {#} 0 s" and r: "r \<in> set (base_reqs s)"
    and run: "base_completion env r ok (s\<lparr>base_reqs := remove1 r (base_reqs s)\<rparr>) = Some s'"
  shows "inflight_set (ub s') \<subseteq> inflight_set (ub s)" "ch_io (ch s') = ch_io (ch s)" "chan_fd s' = chan_fd s"
proof -
  show "ch_io (ch s') = ch_io (ch s)" "chan_fd s' = chan_fd s"
    using run by (cases r; auto simp: completion_defs ubi_complete_io_def spdk_bdev_io_complete_def split: if_splits)+
  show "inflight_set (ub s') \<subseteq> inflight_set (ub s)"
  proof (cases "is_Req_write_stripe r")
    case True
    then have "inflight_set (ub s') \<subseteq> inflight_set (ub s)"
      using run by (cases r) (auto simp: base_completion_def write_stripe_io_completion_def ubi_set_stripe_status_eq
          put_status_def inflight_set_def bind_eq_Some_conv Let_def split: if_splits)
    then show ?thesis .
  next
    case False
    then have "stripe_status (ub s') = stripe_status (ub s)"
      using run by (cases r) (auto simp: completion_defs ubi_complete_io_def spdk_bdev_io_complete_def split: if_splits)
    then show ?thesis by (simp add: inflight_set_def)
  qed
qed


lemma submit_request_waited:
  assumes I: "inv_gen oth {#} 0 s" and I': "inv_gen oth {#} 0 s'" and W: "waited s" and ok: "io_ok (ub s) b"
    and run: "ubi_submit_request b s = Some s'"
  shows "waited s'"
  using run
proof (cases rule: submit_request_cases)
  case 1
  then show ?thesis using W by (simp add: waited_def)
next
  case 2
  then show ?thesis using W by (auto simp: waited_def insert_io_def owned_def queued_def act_def slot_stripe_def)
next
  case (3 q u)
  let ?i = "stripe_of (ub s) b"
  have conf: "conf_ok (ub s)" using I by (simp add: inv_gen_def)
  have u: "u = put_status ?i STRIPE_INFLIGHT (ub s)"
    using 3(5) stripe_of_index [OF conf ok] by (simp add: ubi_set_stripe_status_eq split: if_splits)
  have ub: "ub s' = u" "ch_io (ch s') = ch_io (ch s) @ [b]" using 3(6) by (simp_all add: insert_io_def)
  have ev: "evolves (ub s) (ub s')" by (rule submit_request_evolves [OF run])
  have "\<exists>c \<in> set (ch_io (ch s')). waits_for (ub s') i c" if "i \<in> owned (ch s')" for i
  proof (cases "i = ?i")
    case True
    then have "waits_for (ub s) i b" using 3(1,2) by (simp add: waits_for_def)
    then show ?thesis using ub(2) waits_for_evolves [OF ev] by auto
  next
    case False
    then have "i \<in> owned (ch s)"
      using that owned_eq [OF I'] owned_eq [OF I] ub(1) u by (auto simp: inflight_set_def put_status_def)
    then show ?thesis using W ub(2) waits_for_evolves [OF ev] by (auto simp: waited_def)
  qed
  then show ?thesis by (simp add: waited_def)
qed

lemma waited_event:
  assumes I: "inv_gen oth {#} 0 s" and ok: "ev_allowed e s" and W: "waited s" and run: "ev_exec e s = Some s'"
  shows "waited s' \<and> chan_fd s' = chan_fd s"
proof -
  have I': "inv_gen oth {#} 0 s'" using ev_exec_good [OF I ok] run by simp
  have ev: "evolves (ub s) (ub s')" by (rule ev_exec_evolves [OF I ok run])
  show ?thesis
  proof (cases e)
    case (Ev_submit b)
    then have "ubi_submit_request b s = Some s'" "io_ok (ub s) b" using run ok by simp_all
    moreover from this(1) have "chan_fd s' = chan_fd s"
      by (cases rule: submit_request_cases) (simp_all add: insert_io_def spdk_bdev_io_complete_def)
    ultimately show ?thesis using submit_request_waited [OF I I' W] by simp
  next
    case (Ev_poll env batch)
    then obtain r where "ubi_io_poll env batch s = Some (r, s')" using run by auto
    moreover have "uring_ok env" "mset (map fst (cqes_of batch)) \<subseteq># mset (inflight s)"
      using ok Ev_poll by (auto simp: ev_ok_def split: sum.splits)
    ultimately show ?thesis using wai.walk_poll [OF I] fdc.walk_poll [OF I] W by blast
  next
    case (Ev_buf env b success)
    then have "get_buf_for_read_cb env b success (s\<lparr>buf_wait := remove1 b (buf_wait s)\<rparr>) = Some s'" using run by simp
    then show ?thesis using get_buf_frame [of env b success _ s'] fd_get_buf [of env b success _ s'] waited_mono [OF W I I' ev] by simp
  next
    case (Ev_base env r success)
    then have "base_completion env r success (s\<lparr>base_reqs := remove1 r (base_reqs s)\<rparr>) = Some s'" "r \<in> set (base_reqs s)"
      using run ok by simp_all
    note fr = base_completion_inflight_set [OF I this(2,1)]
    show ?thesis using waited_mono [OF W I I' ev fr(1)] fr(2,3) by simp
  qed
qed

lemma reachable_waited:
  assumes "ubi_reachable s0 s" "inv_gen oth {#} 0 s0" "waited s0"
  shows "waited s \<and> chan_fd s = chan_fd s0"
  using assms(1)
proof (induction rule: ubi_reachable.induct)
  case start
  then show ?case using assms(3) by simp
next
  case (step s e s')
  then show ?case
    using waited_event [OF reachable_inv [OF step(1) assms(2)], of e s'] by (simp add: ubi_step_iff)
qed

lemma channel_start_waited: "channel_start s0 \<Longrightarrow> waited s0"
  by (auto simp: channel_start_def waited_def fresh_state_def dest!: fresh_channel_owns_nothing(7))

subsection \<open>A channel without requests is idle\<close>

lemma size_base: "size B = size (base_slots B) + size (base_ios B)"
  by (induction B) auto

lemma quiet_state:
  assumes I: "inv_gen oth {#} 0 s" and W: "waited s" and none: "pending s = {#}"
  shows "sq s = []" "inflight s = []" "base_reqs s = []" "owned (ch s) = {}" "act (ch s) = {}"
    "stripe_queue_empty (stripe_fetch_queue (ch s))" "active_reads (ch s) = 0"
proof -
  have q: "ch_io (ch s) = []" "buf_wait s = []" "ring_reads (ring s) = {#}" "base_ios (mset (base_reqs s)) = {#}"
    using none by (simp_all add: pending_def)
  then show own: "owned (ch s) = {}" using W by (simp add: waited_def)
  then show a: "act (ch s) = {}" by (auto simp: owned_def)
  have F: "fetch_slots s = {#}" and qok: "queue_ok (stripe_fetch_queue (ch s))"
    using I a by (simp_all add: inv_gen_def fetch_ok_def)
  have "ring s = {#}" using size_ring [of "ring s"] F q(3) by (simp add: fetch_slots_def)
  then show "sq s = []" "inflight s = []" by (simp_all add: ring_def)
  show b: "base_reqs s = []" using size_base [of "mset (base_reqs s)"] F q(4) by (simp add: fetch_slots_def)
  show "stripe_queue_empty (stripe_fetch_queue (ch s))"
    using fq.empty_law [OF qok] own by (simp add: owned_def queued_def)
  show "active_reads (ch s) = 0"
    using I q(2,3) b by (simp add: inv_gen_def read_ok_def reads_def unat_eq_0)
qed



text \<open>A write behind the image has been answered.\<close>

lemma demo_far_done:
  "\<exists>s. ubi_run demo_state [Ev_submit (demo_far IO_WRITE), Ev_poll demo_env (Inr []),
     Ev_base demo_env (Req_writev (demo_far IO_WRITE) 20480 8) True] s \<and> pending s = {#}"
proof -
  let ?b = "demo_far IO_WRITE" and ?r = "Req_writev (demo_far IO_WRITE) 20480 8"
  obtain s where s: "ubi_run demo_state [Ev_submit ?b, Ev_poll demo_env (Inr [])] s" "base_reqs s = [?r]"
    using demo_far_run [of IO_WRITE] by auto
  let ?s = "ubi_complete_io ?b True (s\<lparr>base_reqs := []\<rparr>)"
  have "ubi_step s (Ev_base demo_env ?r True) ?s"
    using s(2) by (simp add: ubi_step_iff ev_ok_def demo_uring_ok base_completion_def ubi_io_completion_cb_def)
  from ubi_run_snoc [OF s(1) this]
  have run: "ubi_run demo_state [Ev_submit ?b, Ev_poll demo_env (Inr []), Ev_base demo_env ?r True] ?s" by simp
  have "all_ios ?s = {#?b#}"
    using all_ios_run [OF run channel_start_inv [OF demo_start]] channel_start_ios [OF demo_start]
    by (simp add: accepts_writes_def demo_env_def)
  then have "pending ?s = {#}"
    by (auto simp: all_ios_pending ubi_complete_io_def spdk_bdev_io_complete_def demo_far_def)
  with run show ?thesis by blast
qed


end
