(* ===== verification/Ubi_Progress.thy ===== *)
theory Ubi_Progress
  imports Ubi_Quiet
begin

section \<open>Progress\<close>

text \<open>
  A measure counts what the outside still has to deliver: it bounds the number of completions
  by the number of requests, and it decreases whenever the poller starts a fetch or serves a
  request.
\<close>

subsection \<open>Work that is left\<close>

definition io_cost :: "bdev_io \<Rightarrow> nat" where
  "io_cost b = (case io_type b of IO_READ \<Rightarrow> 3 | IO_WRITE \<Rightarrow> 2 | IO_FLUSH \<Rightarrow> 4 | _ \<Rightarrow> 1)"

fun sqe_cost :: "sqe \<Rightarrow> nat" where
  "sqe_cost (Sqe_read k a n off) = 2"
| "sqe_cost (Sqe_readv b off) = 1"

fun req_cost :: "base_req \<Rightarrow> nat" where
  "req_cost (Req_data_flush b x n) = 3"
| "req_cost (Req_md_write b m x n) = 2"
| "req_cost r = 1"

definition work :: "ubi_state \<Rightarrow> nat" where
  "work s = sum_list (map io_cost (ch_io (ch s))) + 3 * length (queued (ch s)) + 2 * length (buf_wait s) +
     sum_mset (image_mset sqe_cost (ring s)) + sum_list (map req_cost (base_reqs s))"

lemma work_frame [simp]:
  "work (s\<lparr>ub := u\<rparr>) = work s" "work (s\<lparr>driver_ctx := d\<rparr>) = work s" "work (s\<lparr>clock := t\<rparr>) = work s"
  "work (s\<lparr>completed := c\<rparr>) = work s"
  by (simp_all add: work_def ring_def)

lemma work_ch [simp]:
  "ch_io c = ch_io (ch s) \<Longrightarrow> stripe_fetch_queue c = stripe_fetch_queue (ch s) \<Longrightarrow> work (s\<lparr>ch := c\<rparr>) = work s"
  by (simp add: work_def ring_def queued_def)

lemma work_complete [simp]: "work (spdk_bdev_io_complete b ok s) = work s" "work (ubi_complete_io b ok s) = work s"
  by (simp_all add: spdk_bdev_io_complete_def ubi_complete_io_def)

lemma work_base_submit: "base_submit env r s = (ret, s') \<Longrightarrow> work s' \<le> work s + req_cost r"
  by (auto simp: base_submit_def Let_def work_def ring_def)

lemma work_reaped: "e \<in> set (inflight s) \<Longrightarrow> work s = sqe_cost e + work (reaped e s)"
proof -
  assume "e \<in> set (inflight s)"
  then have "ring s = add_mset e (ring (reaped e s))" by (simp add: ring_def mset_remove1)
  then show ?thesis by (simp add: work_def)
qed

lemma work_uring_submit: "io_uring_submit env s = (ret, s') \<Longrightarrow> work s' = work s"
  using io_uring_submit_frame [of env s ret s']
  by (auto simp: work_def io_uring_submit_def Let_def ring_def queued_def split: if_splits)

lemma work_popped: "ch_io (ch s) = b # bs \<Longrightarrow> work s = io_cost b + work (popped bs s)"
  by (simp add: work_def ring_def queued_def)

lemma work_submit_image_reads [simp]: "work (submit_image_reads env s) = work s"
  by (simp add: submit_image_reads_def work_uring_submit split: prod.split)

lemma work_fail_fetch: "ubi_fail_stripe_fetch k s = Some s' \<Longrightarrow> work s' = work s"
  by (auto simp: ubi_fail_stripe_fetch_def bind_eq_Some_conv Let_def work_def ring_def queued_def)

lemma work_complete_fetch: "ubi_complete_fetch_stripe env k res s = Some (ret, s') \<Longrightarrow> work s' \<le> work s + 1"
  by (auto simp: ubi_complete_fetch_stripe_def Let_def bind_eq_Some_conv split: if_splits prod.splits
      dest!: work_fail_fetch work_base_submit)

lemma work_get_buf: "get_buf_for_read_cb env b ok s = Some s' \<Longrightarrow> work s' \<le> work s + 1"
  by (auto simp: get_buf_for_read_cb_def ubi_submit_read_request_def Let_def bind_eq_Some_conv split: if_splits prod.splits
      dest!: work_base_submit) (auto simp: work_def ring_def queued_def)

lemma work_flush_request: "work (ubi_submit_flush_request env b s) \<le> work s + 3"
  by (auto simp: ubi_submit_flush_request_def Let_def split: prod.split dest: work_base_submit)

lemma work_dispatch:
  assumes "ubi_dispatch_io env b s = Some s'"
  shows "work s' < work s + io_cost b"
proof (cases "io_type b")
  case IO_READ
  then show ?thesis
    using assms by (auto simp: ubi_dispatch_io_def Let_def io_cost_def split: option.splits dest!: work_get_buf)
      (simp add: work_def ring_def queued_def)
next
  case IO_WRITE
  then show ?thesis
    using assms by (auto simp: ubi_dispatch_io_def ubi_submit_write_request_def base_submit_def Let_def io_cost_def)
      (auto simp: work_def ring_def queued_def)
next
  case IO_FLUSH
  have "work (ubi_submit_flush_request env b t) < work t + 4" for t
    using work_flush_request [of env b t] by simp
  from this [of "upd_ctx b (\<lambda>ubi_io. ubi_io\<lparr>block_offset := offset_blocks b, block_count := num_blocks b,
                                      io_op_type := UBI_BDEV_IO\<rparr>) s"] IO_FLUSH assms show ?thesis
    by (auto simp: ubi_dispatch_io_def io_cost_def)
qed (use assms in \<open>auto simp: ubi_dispatch_io_def io_cost_def\<close>)

lemma work_assigned:
  assumes "queue_list (stripe_fetch_queue (ch s)) = idx # rest" "queue_list q = rest"
  shows "work s = work (assigned k idx q s) + 3"
  using assms by (simp add: work_def ring_def queued_def)

lemma work_start_fetch: "ubi_start_fetch_stripe env k s = Some s' \<Longrightarrow> work s' \<le> work s + 2"
  by (auto simp: ubi_start_fetch_stripe_def Let_def bind_eq_Some_conv split: if_splits prod.splits
      dest!: work_fail_fetch work_uring_submit) (auto simp: work_def ring_def queued_def)

interpretation wrk: channel_progress "\<lambda>env cqes s s'. work s' + length cqes \<le> work s" "\<lambda>s s'. work s' < work s"
proof
  fix oth X n s k a m off res env ret s'
  assume "Sqe_read k a m off \<in> set (inflight s)"
    and run: "ubi_complete_fetch_stripe env k res (reaped (Sqe_read k a m off) s) = Some (ret, s')"
  from work_reaped [OF this(1)] work_complete_fetch [OF run]
  show "work s' + length [(Sqe_read k a m off, res)] \<le> work s" by simp
next
  fix oth X n s b off res env ret s'
  assume "Sqe_readv b off \<in> set (inflight s)"
    and "ubi_complete_read_from_image b res (reaped (Sqe_readv b off) s) = (ret, s')"
  from work_reaped [OF this(1)] this(2) show "work s' + length [(Sqe_readv b off, res)] \<le> work s"
    by (auto simp: ubi_complete_read_from_image_def split: if_splits)
next
  fix oth X n s k idx rest q env s'
  assume "queue_list (stripe_fetch_queue (ch s)) = idx # rest" "queue_list q = rest"
    and run: "ubi_start_fetch_stripe env k (assigned k idx q s) = Some s'"
  from work_assigned [OF this(1,2), of k] work_start_fetch [OF run]
  have *: "work (counted s') < work s" by simp
  then show "work (counted s') < work s" "work (counted s') + length [] \<le> work s" by simp_all
next
  fix oth X b bs env and s s' :: ubi_state
  assume "ch_io (ch s) = b # bs" and run: "ubi_dispatch_io env b (popped bs s) = Some s'"
  from work_popped [OF this(1)] work_dispatch [OF run] have "work s' < work s" by simp
  then show "work s' < work s" "work s' + length [] \<le> work s" by simp_all
next
  fix oth X b bs env and s :: ubi_state
  assume "ch_io (ch s) = b # bs"
  from work_popped [OF this] have "work (spdk_bdev_io_complete b False (popped bs s)) < work s"
    by (simp add: io_cost_def split: spdk_bdev_io_type.split)
  then show "work (spdk_bdev_io_complete b False (popped bs s)) < work s"
    "work (spdk_bdev_io_complete b False (popped bs s)) + length [] \<le> work s" by simp_all
qed auto

subsection \<open>Completions are paid for\<close>

text \<open>What the outside delivers in an event: image read completions, buffers, base bdev completions.\<close>

fun delivered :: "ubi_event \<Rightarrow> nat" where
  "delivered (Ev_submit b) = 0"
| "delivered (Ev_poll env batch) = length (cqes_of batch)"
| "delivered (Ev_buf env b ok) = 1"
| "delivered (Ev_base env r ok) = 1"

lemma work_submit_request:
  assumes "inv_gen oth X n s" "ubi_submit_request b s = Some s'"
  shows "work s' \<le> work s + 6"
proof -
  have qok: "queue_ok (stripe_fetch_queue (ch s))" using assms(1) by (simp add: inv_gen_def fetch_ok_def)
  have len: "queue_len q \<le> Suc (queue_len (stripe_fetch_queue (ch s)))"
    if "enqueue_stripe (stripe_fetch_queue (ch s)) i = Some q" for q i
    using that enqueue_stripe_ok [OF qok, of i] mod_Suc [of "unat (tail (stripe_fetch_queue (ch s))) + (32768 - unat (head (stripe_fetch_queue (ch s))))" 32768]
    by (auto simp: queue_len_def mod_add_left_eq)
  have io: "io_cost b \<le> 4" "io_type b \<noteq> IO_FLUSH \<Longrightarrow> io_cost b \<le> 3"
    by (simp_all add: io_cost_def split: spdk_bdev_io_type.split)
  show ?thesis
    using assms(2)
  proof (cases rule: submit_request_cases)
    case 1
    then show ?thesis by simp
  next
    case 2
    then show ?thesis using io(1) by (simp add: insert_io_def work_def ring_def queued_def)
  next
    case (3 q u)
    then show ?thesis using io(2) len [OF 3(4)] by (simp add: insert_io_def work_def ring_def queued_def)
  qed
qed

lemma work_base_completion:
  assumes "r \<in> set (base_reqs s)"
    and run: "base_completion env r ok (s\<lparr>base_reqs := remove1 r (base_reqs s)\<rparr>) = Some s'"
  shows "work s' < work s"
proof -
  let ?s = "s\<lparr>base_reqs := remove1 r (base_reqs s)\<rparr>"
  have "sum_list (map req_cost (base_reqs s)) = req_cost r + sum_list (map req_cost (remove1 r (base_reqs s)))"
    using assms(1) by (simp add: sum_list_map_remove1)
  then have "work s = work ?s + req_cost r" by (simp add: work_def ring_def)
  moreover have "work s' < work ?s + req_cost r"
    using run
    by (cases r; auto simp: completion_defs split: if_splits)
      (simp_all add: work_def ring_def queued_def)
  ultimately show ?thesis by simp
qed

lemma work_event:
  assumes I: "inv_gen oth {#} 0 s" and ok: "ev_allowed e s" and run: "ev_exec e s = Some s'"
  shows "work s' + delivered e \<le> work s + 6 * size (submitted e)"
proof (cases e)
  case (Ev_submit b)
  then show ?thesis using work_submit_request [OF I, of b s'] run by simp
next
  case (Ev_poll env batch)
  then obtain r where "ubi_io_poll env batch s = Some (r, s')" using run by auto
  moreover have "uring_ok env" "mset (map fst (cqes_of batch)) \<subseteq># mset (inflight s)"
    using ok Ev_poll by (auto simp: ev_ok_def split: sum.splits)
  ultimately show ?thesis using wrk.walk_poll [OF I] Ev_poll by simp
next
  case (Ev_buf env b success)
  then have b: "b \<in> set (buf_wait s)" and "get_buf_for_read_cb env b success (s\<lparr>buf_wait := remove1 b (buf_wait s)\<rparr>) = Some s'"
    using run ok by simp_all
  from work_get_buf [OF this(2)] have "work s' \<le> work (s\<lparr>buf_wait := remove1 b (buf_wait s)\<rparr>) + 1" .
  moreover have "length (buf_wait s) = Suc (length (remove1 b (buf_wait s)))"
    using b length_pos_if_in_set [OF b] by (simp add: length_remove1)
  ultimately show ?thesis using Ev_buf by (simp add: work_def ring_def)
next
  case (Ev_base env r success)
  then show ?thesis using work_base_completion [of r s env success s'] run ok by simp
qed

lemma work_run:
  assumes "ubi_run s es s'" "inv_gen oth {#} 0 s"
  shows "work s' + sum_list (map delivered es) \<le> work s + 6 * size (sum_list (map submitted es))"
  using assms
proof (induction rule: ubi_run.induct)
  case (cons s e s1 es s')
  then have step: "ev_allowed e s" "ev_exec e s = Some s1" by (simp_all add: ubi_step_iff)
  have "inv_gen oth {#} 0 s1" using ev_exec_good [OF cons.prems step(1)] step(2) by simp
  from cons.IH [OF this] work_event [OF cons.prems step] show ?case by simp
qed simp

text \<open>
  C15: a request costs a bounded number of completions.  Along every run of a fresh channel the
  outside delivers at most six image read completions, buffers and base bdev completions for
  every request that was submitted, and the work that is left is the unused part of this
  budget: no request is retried for ever and nothing is sent twice.
\<close>

theorem bounded_work:
  assumes "channel_start s0" and "ubi_run s0 es s"
  shows "work s + sum_list (map delivered es) \<le> 6 * size (sum_list (map submitted es))"
proof -
  have "work s0 = 0"
    using assms(1) fresh_channel_owns_nothing(2,6)
    by (fastforce simp: channel_start_def work_def fresh_state_def ring_def)
  with work_run [OF assms(2) channel_start_inv [OF assms(1)]] show ?thesis by simp
qed

theorem bounded_work_witness:
  "\<exists>es s. ubi_run demo_state es s \<and> sum_list (map delivered es) = 1 \<and> work s \<le> 5"
proof -
  obtain s where s: "ubi_run demo_state [Ev_submit (demo_far IO_WRITE), Ev_poll demo_env (Inr []),
     Ev_base demo_env (Req_writev (demo_far IO_WRITE) 20480 8) True] s" using demo_far_done by blast
  from bounded_work [OF demo_start s] have "work s \<le> 5" by simp
  with s show ?thesis by (intro exI conjI) auto
qed

end
