(* ===== verification/Ubi_Drain.thy ===== *)
theory Ubi_Drain
  imports Ubi_Progress
begin

section \<open>Draining a channel\<close>

text \<open>
  From every state without prepared image reads a prompt environment lets a channel answer all
  its requests.  A read that is prepared while the poller has nothing to do, on the other hand,
  stays where it is.
\<close>

subsection \<open>A prompt environment\<close>

text \<open>
  io\_uring takes all prepared reads at once, the base bdev refuses nothing and buffers are
  available.
\<close>

definition prompt :: "ext_oracle \<Rightarrow> bool" where
  "prompt env \<longleftrightarrow> uring_ok env \<and> (\<forall>t n. o_submit env t n = int n) \<and> (\<forall>t r. o_base env t r = 0) \<and>
     (\<forall>t. o_buf env t = Some True)"

abbreviation deferred :: "ubi_state \<Rightarrow> int" where
  "deferred s \<equiv> has_reads (ch s)"

text \<open>Reads that are prepared and not submitted are counted, so that the poller will submit them.\<close>

definition counts_on :: "ext_oracle \<Rightarrow> ubi_state \<Rightarrow> ubi_state \<Rightarrow> bool" where
  "counts_on env s s' \<longleftrightarrow> (0 \<le> deferred s \<longrightarrow> 0 \<le> deferred s' \<and>
     (prompt env \<longrightarrow> buf_wait s' = buf_wait s \<and>
        ((sq s \<noteq> [] \<longrightarrow> 0 < deferred s) \<longrightarrow> sq s' \<noteq> [] \<longrightarrow> 0 < deferred s')))"

lemma counts_on_same: "sq s' = sq s \<Longrightarrow> deferred s' = deferred s \<Longrightarrow> buf_wait s' = buf_wait s \<Longrightarrow> counts_on env s s'"
  by (simp add: counts_on_def)

lemma counts_on_trans: "counts_on env s s1 \<Longrightarrow> counts_on env s1 s2 \<Longrightarrow> counts_on env s s2"
  unfolding counts_on_def by metis

lemma base_submit_rest: "base_submit env r s = (ret, s') \<Longrightarrow> sq s' = sq s \<and> deferred s' = deferred s \<and> buf_wait s' = buf_wait s"
  by (auto simp: base_submit_def Let_def)

lemma complete_io_rest [simp]:
  "sq (ubi_complete_io b ok s) = sq s" "deferred (ubi_complete_io b ok s) = deferred s" "buf_wait (ubi_complete_io b ok s) = buf_wait s"
  by (simp_all add: ubi_complete_io_def)

lemma complete_fetch_rest:
  "ubi_complete_fetch_stripe env k res s = Some (ret, s') \<Longrightarrow> sq s' = sq s \<and> deferred s' = deferred s \<and> buf_wait s' = buf_wait s"
  by (auto simp: ubi_complete_fetch_stripe_def ubi_fail_stripe_fetch_def base_submit_def Let_def bind_eq_Some_conv split: if_splits)

lemma get_buf_counts:
  assumes "get_buf_for_read_cb env b ok s = Some s'"
  shows "buf_wait s' = buf_wait s" "deferred s' = deferred s + 1 \<or> sq s' = sq s \<and> deferred s' = deferred s"
proof -
  obtain ret s1 where rd: "ubi_submit_read_request env b s = (ret, s1)" by (metis surj_pair)
  then have s1: "sq s1 = sq s" "deferred s1 = deferred s" "buf_wait s1 = buf_wait s"
    using base_submit_rest by (simp_all add: ubi_submit_read_request_def Let_def)
  consider "\<exists>t ok. s' = ubi_complete_io b ok t \<and> (t = s \<or> t = s1 \<or> t = tick s)" | "s' = s1"
    | off where "s' = (tick s)\<lparr>sq := sq s @ [Sqe_readv b off], ch := (ch s)\<lparr>has_reads := has_reads (ch s) + 1\<rparr>\<rparr>"
    using assms rd by (auto simp: get_buf_for_read_cb_def Let_def bind_eq_Some_conv split: if_splits)
  then have "buf_wait s' = buf_wait s \<and> (deferred s' = deferred s + 1 \<or> sq s' = sq s \<and> deferred s' = deferred s)"
    by cases (use s1 in auto)
  then show "buf_wait s' = buf_wait s" "deferred s' = deferred s + 1 \<or> sq s' = sq s \<and> deferred s' = deferred s" by blast+
qed

lemma flush_request_rest:
  "sq (ubi_submit_flush_request env b s) = sq s" "deferred (ubi_submit_flush_request env b s) = deferred s"
  "buf_wait (ubi_submit_flush_request env b s) = buf_wait s"
  by (simp_all add: ubi_submit_flush_request_def base_submit_def Let_def)

lemma dispatch_counts:
  assumes "ubi_dispatch_io env b s = Some s'"
  shows "counts_on env s s'"
proof (cases "io_type b")
  case IO_READ
  let ?s = "upd_ctx b (\<lambda>ubi_io. ubi_io\<lparr>block_offset := offset_blocks b, block_count := num_blocks b,
      io_op_type := UBI_BDEV_IO\<rparr>) s"
  let ?s1 = "?s\<lparr>ch := (ch ?s)\<lparr>active_reads := active_reads (ch ?s) + 1, blocks_read := blocks_read (ch ?s) + num_blocks b\<rparr>\<rparr>"
  show ?thesis
  proof (cases "o_buf env (clock s)")
    case None
    then have "\<not> prompt env" by (auto simp: prompt_def)
    moreover have "sq s' = sq s" "deferred s' = deferred s" using assms IO_READ None by (auto simp: ubi_dispatch_io_def Let_def)
    ultimately show ?thesis by (simp add: counts_on_def)
  next
    case (Some ok)
    then have "get_buf_for_read_cb env b ok (tick ?s1) = Some s'" using assms IO_READ by (simp add: ubi_dispatch_io_def Let_def)
    note g = get_buf_counts [OF this]
    from g(2) show ?thesis
    proof
      assume "deferred s' = deferred (tick ?s1) + 1"
      with g(1) show ?thesis by (simp add: counts_on_def)
    next
      assume "sq s' = sq (tick ?s1) \<and> deferred s' = deferred (tick ?s1)"
      with g(1) show ?thesis by (simp add: counts_on_same)
    qed
  qed
next
  case IO_WRITE
  then show ?thesis
    using assms by (intro counts_on_same) (auto simp: ubi_dispatch_io_def ubi_submit_write_request_def base_submit_def Let_def)
next
  case IO_FLUSH
  then show ?thesis
    using assms by (intro counts_on_same) (auto simp: ubi_dispatch_io_def flush_request_rest)
qed (use assms in \<open>auto simp: ubi_dispatch_io_def counts_on_def\<close>)

lemma uring_submit_counts:
  assumes "io_uring_submit env s = (ret, s')"
  shows "deferred s' = deferred s" "buf_wait s' = buf_wait s" "prompt env \<Longrightarrow> sq s' = []"
  using assms by (auto simp: io_uring_submit_def prompt_def Let_def split: if_splits)

lemma start_fetch_counts:
  assumes "ubi_start_fetch_stripe env k s = Some s'"
  shows "deferred s' = deferred s" "buf_wait s' = buf_wait s" "prompt env \<Longrightarrow> sq s' = []"
  using assms
  by (auto simp: ubi_start_fetch_stripe_def ubi_fail_stripe_fetch_def io_uring_submit_def prompt_def Let_def bind_eq_Some_conv
      split: if_splits)

interpretation cnt: channel_walk "\<lambda>env cqes. counts_on env"
proof
  fix oth X n s k a m off res env ret s'
  assume "ubi_complete_fetch_stripe env k res (reaped (Sqe_read k a m off) s) = Some (ret, s')"
  from complete_fetch_rest [OF this] show "counts_on env s s'" by (simp add: counts_on_same)
next
  fix oth X n s b off res env ret s'
  assume "ubi_complete_read_from_image b res (reaped (Sqe_readv b off) s) = (ret, s')"
  then show "counts_on env s s'"
    by (auto simp: ubi_complete_read_from_image_def split: if_splits intro!: counts_on_same)
next
  fix oth X n s k idx rest q env s'
  assume "ubi_start_fetch_stripe env k (assigned k idx q s) = Some s'"
  from start_fetch_counts [OF this] show "counts_on env s (counted s')" by (simp add: counts_on_def)
next
  fix oth X b bs env and s s' :: ubi_state
  assume "ubi_dispatch_io env b (popped bs s) = Some s'"
  from dispatch_counts [OF this] show "counts_on env s s'" by (simp add: counts_on_def)
next
  fix oth X n s env
  obtain ret s1 where s1: "io_uring_submit env s = (ret, s1)" by (metis surj_pair)
  from uring_submit_counts [OF this] s1 show "counts_on env s (submit_image_reads env s)"
    by (auto simp: submit_image_reads_def counts_on_def)
next
  fix env and s :: ubi_state
  show "counts_on env s s" by (simp add: counts_on_same)
next
  fix env and s s1 s2 :: ubi_state
  assume "counts_on env s s1" "counts_on env s1 s2"
  then show "counts_on env s s2" by (rule counts_on_trans)
next
  fix b bs env and s :: ubi_state
  show "counts_on env s (spdk_bdev_io_complete b False (popped bs s))" by (simp add: counts_on_same)
qed

lemma complete_cqes_rest:
  "ubi_complete_cqes env cqes ret s = Some (ret', s') \<Longrightarrow> sq s' = sq s"
proof (induction cqes arbitrary: ret s)
  case (Cons c cqes)
  obtain e res where c: "c = (e, res)" by (cases c)
  show ?case
  proof (cases e)
    case (Sqe_read k a m off)
    then obtain r1 s1 where "ubi_complete_fetch_stripe env k res (reaped e s) = Some (r1, s1)"
      and "ubi_complete_cqes env cqes r1 s1 = Some (ret', s')"
      using Cons.prems c by (auto simp: Let_def bind_eq_Some_conv split: if_splits)
    with Cons.IH complete_fetch_rest show ?thesis by fastforce
  next
    case (Sqe_readv b off)
    obtain r1 s1 where s1: "ubi_complete_read_from_image b res (reaped e s) = (r1, s1)" by (metis surj_pair)
    then have "ubi_complete_cqes env cqes r1 s1 = Some (ret', s')" "sq s1 = sq s"
      using Cons.prems c Sqe_readv by (auto simp: Let_def ubi_complete_read_from_image_def split: if_splits)
    with Cons.IH show ?thesis by simp
  qed
qed simp

lemma poll_prompt:
  assumes I: "inv_gen oth {#} 0 s" and env: "prompt env" and q: "sq s = []" "0 \<le> deferred s"
    and cqes: "mset (map fst cqes) \<subseteq># mset (inflight s)" and poll: "ubi_io_poll env (Inr cqes) s = Some (r, s')"
  shows "sq s' = []" "buf_wait s' = buf_wait s" "0 \<le> deferred s'"
proof -
  have ok: "uring_ok env" using env by (simp add: prompt_def)
  have c: "counts_on env s s'" using cnt.walk_poll [OF I ok _ poll] cqes by simp
  then show "buf_wait s' = buf_wait s" "0 \<le> deferred s'" using env q(2) by (simp_all add: counts_on_def)
  show "sq s' = []"
  proof (cases "ch_io (ch s) = [] \<and> stripe_queue_empty (stripe_fetch_queue (ch s))")
    case True
    then obtain ret where "ubi_complete_cqes env cqes 0 s = Some (ret, s')"
      using poll by (auto simp: ubi_io_poll_def ubi_complete_image_io_def bind_eq_Some_conv split: if_splits)
    then show ?thesis using complete_cqes_rest q(1) by simp
  next
    case False
    then obtain s3 where s': "s' = submit_image_reads env s3"
      using poll by (auto simp: ubi_io_poll_def bind_eq_Some_conv)
    obtain ret s4 where s4: "io_uring_submit env s3 = (ret, s4)" by (metis surj_pair)
    then have "0 \<le> ret" using env by (auto simp: io_uring_submit_def prompt_def Let_def)
    then have "deferred s' = 0" using s' s4 by (auto simp: submit_image_reads_def)
    then show ?thesis using c env q by (auto simp: counts_on_def)
  qed
qed

lemma base_completion_rest:
  assumes "base_completion env r ok s = Some s'"
  shows "sq s' = sq s" "deferred s' = deferred s" "buf_wait s' = buf_wait s"
  using assms
  by (cases r; auto simp: completion_defs split: if_splits)+

lemma deferred_event:
  assumes I: "inv_gen oth {#} 0 s" and ok: "ev_allowed e s" and run: "ev_exec e s = Some s'" and d: "0 \<le> deferred s"
  shows "0 \<le> deferred s'"
proof (cases e)
  case (Ev_submit b)
  then have "ubi_submit_request b s = Some s'" using run by simp
  then show ?thesis by (cases rule: submit_request_cases) (use d in \<open>simp_all add: insert_io_def\<close>)
next
  case (Ev_poll env batch)
  then obtain r where "ubi_io_poll env batch s = Some (r, s')" using run by auto
  moreover have "uring_ok env" "mset (map fst (cqes_of batch)) \<subseteq># mset (inflight s)"
    using ok Ev_poll by (auto simp: ev_ok_def split: sum.splits)
  ultimately have "counts_on env s s'" using cnt.walk_poll [OF I] by blast
  then show ?thesis using d by (simp add: counts_on_def)
next
  case (Ev_buf env b success)
  then have "get_buf_for_read_cb env b success (s\<lparr>buf_wait := remove1 b (buf_wait s)\<rparr>) = Some s'" using run by simp
  from get_buf_counts(2) [OF this] d show ?thesis by auto
next
  case (Ev_base env r success)
  then show ?thesis using base_completion_rest(2) [of env r success _ s'] run d by simp
qed

subsection \<open>The helpful event\<close>

text \<open>
  The states from which a channel can be drained: a request waits for every fetch, and no read
  is held back between the poller and io\_uring.
\<close>

definition calm :: "ubi_state \<Rightarrow> bool" where
  "calm s \<longleftrightarrow> waited s \<and> sq s = [] \<and> buf_wait s = [] \<and> 0 \<le> deferred s"

text \<open>A channel that can move on its own: something is outstanding or queued, or no stripe is in flight.\<close>

definition ready :: "ubi_state \<Rightarrow> bool" where
  "ready s \<longleftrightarrow> base_reqs s \<noteq> [] \<or> inflight s \<noteq> [] \<or> \<not> stripe_queue_empty (stripe_fetch_queue (ch s)) \<or>
     inflight_set (ub s) = {} \<and> ch_io (ch s) \<noteq> []"

lemma idle_slots:
  assumes I: "inv_gen oth {#} 0 s" and none: "sq s = []" "buf_wait s = []" "inflight s = []" "base_reqs s = []"
  shows "act (ch s) = {}" "active_reads (ch s) = 0" "pending s = mset (ch_io (ch s))"
    "stripe_queue_empty (stripe_fetch_queue (ch s)) \<Longrightarrow> owned (ch s) = {}"
proof -
  have F: "fetch_slots s = mset_set (act (ch s))" and qok: "queue_ok (stripe_fetch_queue (ch s))"
    and ar: "unat (active_reads (ch s)) = size (reads s)"
    using I by (simp_all add: inv_gen_def fetch_ok_def read_ok_def)
  have ring: "ring s = {#}" using none by (simp add: ring_def)
  have "finite (act (ch s))" by (simp add: act_def)
  then show a: "act (ch s) = {}" using F ring none by (simp add: fetch_slots_def mset_set_empty_iff)
  show "active_reads (ch s) = 0" using ar ring none by (simp add: reads_def unat_eq_0)
  show "pending s = mset (ch_io (ch s))" using ring none by (simp add: pending_def)
  show "owned (ch s) = {}" if "stripe_queue_empty (stripe_fetch_queue (ch s))"
    using fq.empty_law [OF qok] that a by (simp add: owned_def queued_def)
qed

text \<open>Without a stripe in flight no request waits.\<close>

lemma no_wait:
  assumes I: "inv_gen oth X 0 s" and "ch_io (ch s) = b # bs" "inflight_set (ub s) = {}"
  shows "io_verdict (ub s) b \<noteq> Some Io_wait"
proof -
  have conf: "conf_ok (ub s)" and bok: "io_ok (ub s) b" using assms by (simp_all add: inv_gen_def ios_ok_def)
  then have "stripe_status (ub s) (stripe_of (ub s) b) \<noteq> STRIPE_INFLIGHT"
    using stripe_of_bound [OF conf bok] assms(3) by (auto simp: inflight_set_def)
  with bok show ?thesis by (auto simp: io_verdict_eq [OF conf] split: stripe_status.splits if_splits)
qed

text \<open>The event that helps: a base bdev completion, else an image read, else a poll.\<close>

definition helpful :: "ext_oracle \<Rightarrow> ubi_state \<Rightarrow> ubi_event" where
  "helpful env s =
     (case base_reqs s of
        r # rs \<Rightarrow> Ev_base env r True
      | [] \<Rightarrow> Ev_poll env (Inr (case inflight s of e # es \<Rightarrow> [(e, 1)] | [] \<Rightarrow> [])))"

lemma helpful_allowed: "prompt env \<Longrightarrow> ev_allowed (helpful env s) s"
  by (auto simp: helpful_def ev_ok_def prompt_def split: list.split)

lemma helpful_quiet: "prompt env \<Longrightarrow> submitted (helpful env s) = {#} \<and> \<not> may_lose (helpful env s)"
  by (auto simp: helpful_def accepts_writes_def prompt_def split: list.split)

lemma helpful_poll:
  assumes I: "inv_gen oth {#} 0 s" and C: "calm s" and env: "prompt env" and R: "ready s" and nb: "base_reqs s = []"
    and run: "ev_exec (helpful env s) s = Some s'"
  shows "sq s' = [] \<and> buf_wait s' = [] \<and> work s' < work s"
proof -
  have q: "sq s = []" "buf_wait s = []" "0 \<le> deferred s" using C by (simp_all add: calm_def)
  let ?cqes = "case inflight s of e # es \<Rightarrow> [(e, 1)] | [] \<Rightarrow> []"
  have "helpful env s = Ev_poll env (Inr ?cqes)" using nb by (simp add: helpful_def)
  then obtain r where poll: "ubi_io_poll env (Inr ?cqes) s = Some (r, s')" using run by auto
  have cq: "mset (map fst ?cqes) \<subseteq># mset (inflight s)" by (simp split: list.split)
  have uok: "uring_ok env" using env by (simp add: prompt_def)
  have "work s' < work s"
  proof (cases "inflight s")
    case Nil
    then have poll': "ubi_io_poll env (Inr []) s = Some (r, s')" using poll by simp
    note idle = idle_slots [OF I q(1,2) Nil nb]
    have "\<not> stripe_queue_empty (stripe_fetch_queue (ch s)) \<or>
      (\<exists>b bs. ch_io (ch s) = b # bs \<and> active_reads (ch s) < UBI_MAX_CONCURRENT_READS \<and> io_verdict (ub s) b \<noteq> Some Io_wait)"
      using R Nil nb idle(2) no_wait [OF I] by (auto simp: ready_def neq_Nil_conv)
    then show ?thesis by (rule wrk.progress_poll [OF I uok idle(1) _ poll'])
  next
    case (Cons c cs)
    then show ?thesis using wrk.walk_poll [OF I uok _ poll] cq by simp
  qed
  with poll_prompt [OF I env q(1,3) cq poll] q show ?thesis by simp
qed

lemma helpful_step:
  assumes I: "inv_gen oth {#} 0 s" and C: "calm s" and env: "prompt env" and R: "ready s"
  obtains s' where "ubi_step s (helpful env s) s'" "inv_gen oth {#} 0 s'" "calm s'" "work s' < work s"
proof -
  have W: "waited s" and q: "sq s = []" "buf_wait s = []" "0 \<le> deferred s"
    using C by (simp_all add: calm_def)
  note ok = helpful_allowed [OF env, of s]
  obtain s' where s': "ev_exec (helpful env s) s = Some s'" "inv_gen oth {#} 0 s'" using ev_exec_good [OF I ok] by blast
  have W': "waited s'" using waited_event [OF I ok W s'(1)] by simp
  have d: "0 \<le> deferred s'" by (rule deferred_event [OF I ok s'(1) q(3)])
  have "sq s' = [] \<and> buf_wait s' = [] \<and> work s' < work s"
  proof (cases "base_reqs s")
    case (Cons r rs)
    then have run: "base_completion env r True (s\<lparr>base_reqs := remove1 r (base_reqs s)\<rparr>) = Some s'"
      using s'(1) by (simp add: helpful_def)
    from base_completion_rest [OF run] work_base_completion [OF _ run] Cons q show ?thesis by simp
  qed (rule helpful_poll [OF I C env R _ s'(1)])
  with that s' W' d ok show ?thesis by (auto simp: ubi_step_iff calm_def)
qed

text \<open>A channel that is alone is ready as long as a request is pending.\<close>

lemma pending_ready:
  assumes I: "inv s" and C: "calm s" and pend: "pending s \<noteq> {#}"
  shows "ready s"
proof (rule ccontr)
  assume "\<not> ready s"
  then have none: "inflight s = []" "base_reqs s = []" "stripe_queue_empty (stripe_fetch_queue (ch s))"
    "inflight_set (ub s) = {} \<Longrightarrow> ch_io (ch s) = []"
    by (auto simp: ready_def)
  have q: "sq s = []" "buf_wait s = []" using C by (simp_all add: calm_def)
  note idle = idle_slots [OF I q none(1,2)]
  have "inflight_set (ub s) = {}" using idle(4) [OF none(3)] I by (simp add: inv_gen_def fetch_ok_def)
  with none(4) idle(3) pend show False by simp
qed

lemma drain:
  assumes "inv s" "calm s" and env: "prompt env"
  shows "\<exists>es s'. ubi_run s es s' \<and> length es \<le> work s \<and> (\<forall>e \<in> set es. submitted e = {#} \<and> \<not> may_lose e) \<and> pending s' = {#}"
  using assms(1,2)
proof (induction "work s" arbitrary: s rule: less_induct)
  case less
  show ?case
  proof (cases "pending s = {#}")
    case True
    then show ?thesis by (intro exI [of _ "[]"] exI [of _ s]) simp
  next
    case False
    from less.prems env pending_ready [OF less.prems False] obtain s1 where
      s1: "ubi_step s (helpful env s) s1" "inv s1" "calm s1" "work s1 < work s"
      by (rule helpful_step)
    from less.hyps [OF s1(4,2,3)] obtain es s' where es: "ubi_run s1 es s'" "length es \<le> work s1"
      "\<forall>e \<in> set es. submitted e = {#} \<and> \<not> may_lose e" "pending s' = {#}" by blast
    show ?thesis
      using ubi_run.cons [OF s1(1) es(1)] es(2-4) s1(4) helpful_quiet [OF env, of s]
      by (intro exI [of _ "helpful env s # es"] exI [of _ s']) auto
  qed
qed

lemma reachable_deferred:
  assumes "ubi_reachable s0 s" "inv_gen oth {#} 0 s0" "0 \<le> deferred s0"
  shows "0 \<le> deferred s"
  using assms(1)
proof (induction rule: ubi_reachable.induct)
  case start
  then show ?case by (rule assms(3))
next
  case (step s e s')
  then show ?case
    using deferred_event [OF reachable_inv [OF step(1) assms(2)], of e s'] by (simp add: ubi_step_iff)
qed

lemma channel_start_deferred:
  assumes "channel_start s0"
  shows "deferred s0 = 0"
proof -
  obtain u t env bufs held c held' where
    c: "ubi_create_channel_cb t env u (zero_channel bufs) held = Some (0, c, held')" and s0: "s0 = fresh_state u c"
    using assms by (auto simp: channel_start_def)
  from c create_channel_cases [of t env u "zero_channel bufs" held] have "has_reads c = 0"
    by (auto simp: zero_channel_def split: if_splits)
  then show ?thesis by (simp add: s0 fresh_state_def)
qed

text \<open>
  A channel can always be drained.  From every reachable state in which no read is held
  back on its way to io\_uring, an outside that is prompt lets the channel answer every
  pending request, exactly once, without further submissions and in no more events than the
  work that is left: no request waits for a stripe that nobody fetches, and no two requests
  wait for each other.
\<close>

theorem channel_drains:
  assumes "channel_start s0" and "ubi_reachable s0 s" and "sq s = []" and "buf_wait s = []" and "prompt env"
  shows "\<exists>es s'. ubi_run s es s' \<and> length es \<le> work s \<and> (\<forall>e \<in> set es. submitted e = {#}) \<and> pending s' = {#} \<and>
     mset (map fst (completed s')) = mset (map fst (completed s)) + pending s"
proof -
  note I0 = channel_start_inv [OF assms(1)]
  have I: "inv s" by (rule reachable_start_inv [OF assms(1,2)])
  have "calm s"
    using assms(3,4) reachable_waited [OF assms(2) I0 channel_start_waited [OF assms(1)]]
      reachable_deferred [OF assms(2) I0] channel_start_deferred [OF assms(1)]
    by (simp add: calm_def)
  from drain [OF I this assms(5)] obtain es s' where es: "ubi_run s es s'" "length es \<le> work s"
    "\<forall>e \<in> set es. submitted e = {#} \<and> \<not> may_lose e" "pending s' = {#}" by blast
  have "sum_list (map submitted es) = {#}" using es(3) by (induction es) auto
  then have "all_ios s' = all_ios s" using all_ios_run [OF es(1) I] es(3) by simp
  with es show ?thesis by (intro exI [of _ es] exI [of _ s']) (simp add: all_ios_pending add.commute)
qed

lemma demo_prompt: "prompt demo_env"
  by (simp add: prompt_def demo_uring_ok) (simp add: demo_env_def)

theorem channel_drains_witness:
  "\<exists>es s'. ubi_run demo_submitted es s' \<and> pending s' = {#} \<and> mset (map fst (completed s')) = {#demo_write#}"
proof -
  have "sq demo_submitted = []" "buf_wait demo_submitted = []" "completed demo_submitted = []" "pending demo_submitted = {#demo_write#}"
    by (simp_all add: demo_submitted_def insert_io_def demo_state_def fresh_state_def pending_def ring_def
        demo_channel_def zero_channel_def)
  with channel_drains [OF demo_start demo_reachable _ _ demo_prompt] show ?thesis by auto
qed

subsection \<open>A read that is held back\<close>

text \<open>
  C32: a read of the image may be left behind.  If the buffer for a read becomes available only
  after the poller has emptied its queues, the callback prepares the read and leaves its
  submission to the poller, which does not get to it as long as its queues are empty.  When
  nothing else is outstanding, no event but the submission of another request changes the
  channel's state any more: the read stays pending.
\<close>

theorem deferred_read_stuck:
  assumes "ch_io (ch s) = []" and "stripe_queue_empty (stripe_fetch_queue (ch s))"
    and "inflight s = []" and "base_reqs s = []" and "buf_wait s = []" and "Sqe_readv b off \<in> set (sq s)"
    and "ubi_run s es s'" and "\<forall>e \<in> set es. submitted e = {#}"
  shows "s' = s \<and> b \<in># pending s"
proof
  have idle: "s1 = s" if "ubi_step s e s1" "submitted e = {#}" for e s1
  proof (cases e)
    case (Ev_poll env batch)
    then show ?thesis using that(1) assms(1-3)
      by (cases batch) (auto simp: ubi_step_iff ubi_io_poll_def ubi_complete_image_io_def split: if_splits)
  qed (use that assms(4,5) in \<open>auto simp: ubi_step_iff\<close>)
  show "s' = s"
    using assms(7,8) idle
  proof (induction es)
    case (Cons e es)
    then obtain s1 where "ubi_step s e s1" "ubi_run s1 es s'" by (auto simp: ubi_run_cons)
    moreover from this(1) Cons.prems have "s1 = s" by simp
    ultimately show ?case using Cons by simp
  qed simp
  show "b \<in># pending s"
    using assms(6) by (auto simp: pending_def ring_def ring_reads_def intro!: rev_image_eqI)
qed

definition demo_lazy :: ubi_bdev where
  "demo_lazy = demo_ubi\<lparr>copy_on_read := False\<rparr>"

definition demo_read :: bdev_io where
  "demo_read = \<lparr>io_id = 5, io_type = IO_READ, offset_blocks = 256, num_blocks = 8\<rparr>"

text \<open>No buffer is available at once.\<close>

definition demo_late :: ext_oracle where
  "demo_late = demo_env\<lparr>o_buf := \<lambda>_. None\<rparr>"

lemma demo_held_back:
  "\<exists>s. ubi_run (fresh_state demo_lazy demo_channel)
     [Ev_submit demo_read, Ev_poll demo_late (Inr []), Ev_buf demo_late demo_read True] s \<and>
     ch_io (ch s) = [] \<and> stripe_queue_empty (stripe_fetch_queue (ch s)) \<and> inflight s = [] \<and> base_reqs s = [] \<and>
     buf_wait s = [] \<and> sq s = [Sqe_readv demo_read 131072]"
proof -
  let ?s0 = "fresh_state demo_lazy demo_channel" and ?u = "Ev_poll demo_late (Inr [])"
  let ?s1 = "insert_io demo_read ?s0"
  have late: "uring_ok demo_late" by (simp add: uring_ok_def demo_late_def demo_env_def)
  have sub: "ubi_step ?s0 (Ev_submit demo_read) ?s1"
    by (simp add: ubi_step_iff ev_ok_def ubi_submit_request_def fresh_state_def demo_lazy_def demo_simps
        demo_read_def io_ok_def ubi_io_type_supported_def block_stripe_def)
  have sf: "start_fetches demo_late ks ?s1 = Some ?s1" for ks
    by (cases ks) (simp_all add: insert_io_def fresh_state_def demo_channel_def zero_channel_def)
  have "\<exists>s2. ubi_io_poll demo_late (Inr []) ?s1 = Some (SPDK_POLLER_BUSY, s2) \<and> ub s2 = demo_lazy \<and> ch_io (ch s2) = [] \<and>
     stripe_fetch_queue (ch s2) = stripe_fetch_queue demo_channel \<and> inflight s2 = [] \<and> base_reqs s2 = [] \<and>
     buf_wait s2 = [demo_read] \<and> sq s2 = []"
    using sf
    by (auto simp: ubi_io_poll_def ubi_complete_image_io_def insert_io_def fresh_state_def demo_lazy_def demo_simps demo_read_def block_stripe_def demo_channel_def zero_channel_def io_verdict_def status_simps
        ubi_dispatch_io_def demo_late_def submit_image_reads_def)
  then obtain s2 where s2: "ubi_io_poll demo_late (Inr []) ?s1 = Some (SPDK_POLLER_BUSY, s2)"
    and f: "ub s2 = demo_lazy" "ch_io (ch s2) = []" "stripe_fetch_queue (ch s2) = stripe_fetch_queue demo_channel"
      "inflight s2 = []" "base_reqs s2 = []" "buf_wait s2 = [demo_read]" "sq s2 = []" by blast
  have poll: "ubi_step ?s1 (Ev_poll demo_late (Inr [])) s2" using s2 late by (simp add: ubi_step_iff ev_ok_def)
  let ?s3 = "(tick (s2\<lparr>buf_wait := []\<rparr>))\<lparr>sq := [Sqe_readv demo_read 131072], ch := (ch s2)\<lparr>has_reads := has_reads (ch s2) + 1\<rparr>\<rparr>"
  have "ubi_step s2 (Ev_buf demo_late demo_read True) ?s3"
    using f late
    by (simp add: ubi_step_iff ev_ok_def get_buf_for_read_cb_def Let_def status_simps block_stripe_def
        demo_lazy_def demo_simps demo_read_def demo_late_def demo_env_def)
  with sub poll have "ubi_run ?s0 [Ev_submit demo_read, Ev_poll demo_late (Inr []), Ev_buf demo_late demo_read True] ?s3"
    by (blast intro: ubi_run.intros)
  moreover have "stripe_queue_empty (stripe_fetch_queue demo_channel)"
    by (simp add: stripe_queue_empty_def demo_channel_def zero_channel_def)
  ultimately show ?thesis using f by (intro exI [of _ ?s3]) simp
qed

theorem deferred_read_stuck_witness:
  "\<exists>s. ubi_reachable (fresh_state demo_lazy demo_channel) s \<and> demo_read \<in># pending s \<and>
     ev_exec (Ev_poll demo_env (Inr [])) s = Some s"
proof -
  obtain es s where s: "ubi_run (fresh_state demo_lazy demo_channel) es s" and f: "ch_io (ch s) = []"
    "stripe_queue_empty (stripe_fetch_queue (ch s))" "inflight s = []" "base_reqs s = []" "buf_wait s = []"
    "sq s = [Sqe_readv demo_read 131072]"
    using demo_held_back by blast
  have sq: "Sqe_readv demo_read 131072 \<in> set (sq s)" using f(6) by simp
  have one: "ubi_run s [Ev_poll demo_env (Inr [])] s"
    using f by (simp add: ubi_run_cons ubi_step_iff ev_ok_def demo_uring_ok ubi_io_poll_def ubi_complete_image_io_def)
  from deferred_read_stuck [OF f(1-5) sq one] run_reachable [OF s ubi_reachable.start] one show ?thesis
    by (auto simp: ubi_run_cons ubi_step_iff)
qed

end
