(* ===== verification/Ubi_Share.thy ===== *)
theory Ubi_Share
  imports Ubi_View
begin

section \<open>Many channels on one disk\<close>

text \<open>
  The channels of a bdev share the image and the base bdev; each has bounce buffers of its own.
  As long as the handlers of different channels run one after the other, the disk a client sees
  through any of them changes only where a write request of one of them completes.
\<close>

subsection \<open>A store for several channels\<close>

record sys_store =
  s_img :: bytes
  s_disk :: bytes
  s_bounce :: "nat \<Rightarrow> nat \<Rightarrow> bytes"

definition chan_store :: "sys_store \<Rightarrow> nat \<Rightarrow> store" where
  "chan_store D i = \<lparr>img = s_img D, disk = s_disk D, bounce = s_bounce D i\<rparr>"

lemma chan_store_sel [simp]:
  "img (chan_store D i) = s_img D" "disk (chan_store D i) = s_disk D" "bounce (chan_store D i) = s_bounce D i"
  by (simp_all add: chan_store_def)

fun sys_store_exec :: "(bdev_io \<Rightarrow> bytes) \<Rightarrow> bytes \<Rightarrow> nat \<Rightarrow> nat \<times> ubi_event \<Rightarrow> sys_store \<Rightarrow> sys_store" where
  "sys_store_exec w junk bl (i, e) D =
     (let d = store_exec w junk bl e (chan_store D i)
      in D\<lparr>s_disk := disk d, s_bounce := (s_bounce D)(i := bounce d)\<rparr>)"

lemma store_exec_img [simp]: "img (store_exec w junk bl e d) = img d"
  by (cases e) simp_all

lemma chan_store_exec:
  "chan_store (sys_store_exec w junk bl (i, e) D) i = store_exec w junk bl e (chan_store D i)"
  "j \<noteq> i \<Longrightarrow> chan_store (sys_store_exec w junk bl (i, e) D) j =
     (chan_store D j)\<lparr>disk := disk (store_exec w junk bl e (chan_store D i))\<rparr>"
  using store_exec_img [of w junk bl e "chan_store D i"] by (simp_all add: chan_store_def Let_def)

text \<open>What a client sees does not depend on the channel, nor on the bounce buffers.\<close>

lemma view_chan_store: "view u (chan_store D i) = view u (chan_store D j)"
  by (simp add: view_def fun_eq_iff)

lemma data_ok_disk: "data_ok (d\<lparr>disk := x\<rparr>) s \<longleftrightarrow> data_ok d s"
proof -
  have "req_data (d\<lparr>disk := x\<rparr>) u c r \<longleftrightarrow> req_data d u c r" for u c r by (cases r) simp_all
  then show ?thesis by (simp add: data_ok_def)
qed

definition sys_data :: "sys_store \<Rightarrow> ubi_sys \<Rightarrow> bool" where
  "sys_data D S \<longleftrightarrow> (\<forall>i < length (sys_chans S). data_ok (chan_store D i) (sys_chan S i))"

subsection \<open>Runs of a system\<close>

text \<open>A run that starts without a channel: channels are created and handle events, in any order.\<close>

inductive sys_run :: "ubi_bdev \<Rightarrow> (nat \<times> ubi_event) list \<Rightarrow> ubi_sys \<Rightarrow> bool" for u where
  start: "sys_run u [] \<lparr>sys_ub = u, sys_chans = []\<rparr>"
| channel: "sys_run u es S \<Longrightarrow>
    ubi_create_channel_cb t env (sys_ub S) (zero_channel bufs) held = Some (0, c, held') \<Longrightarrow>
    sys_run u es (sys_add_channel c S)"
| event: "sys_run u es S \<Longrightarrow> sys_allowed ie S \<Longrightarrow> sys_exec ie S = Some S' \<Longrightarrow> sys_run u (es @ [ie]) S'"

lemma sys_run_reachable: "sys_run u es S \<Longrightarrow> sys_reachable u S"
  by (induction rule: sys_run.induct) (auto intro: sys_reachable.intros)

lemma sys_data_event:
  assumes I: "sys_inv S" and D: "sys_data D S" and al: "sys_allowed (i, e) S" and hon: "honest e"
    and run: "sys_exec (i, e) S = Some S'" and W: "whole_stripes (sys_ub S)"
    and bl: "bl = unat (blocklen (bdev (sys_ub S)))"
  shows "sys_data (sys_store_exec w junk bl (i, e) D) S'"
    and "view (sys_ub S') (chan_store (sys_store_exec w junk bl (i, e) D) c) =
      disk_spec w junk bl e (view (sys_ub S) (chan_store D c))"
proof -
  let ?D = "sys_store_exec w junk bl (i, e) D"
  have i: "i < length (sys_chans S)" and ev: "ev_allowed e (sys_chan S i)" using al by simp_all
  obtain s' where s': "ev_exec e (sys_chan S i) = Some s'" and S': "S' = S\<lparr>sys_ub := ub s', sys_chans := (sys_chans S)[i := s']\<rparr>"
    using run i by auto
  note Ii = sys_invD [OF I i]
  have Di: "data_ok (chan_store D i) (sys_chan S i)" using D i by (simp add: sys_data_def)
  have ub: "ub (sys_chan S j) = sys_ub S" for j by (simp add: sys_chan_def)
  note up = ev_exec_evolves [OF Ii ev s', unfolded ub]
  show "sys_data ?D S'"
    unfolding sys_data_def
  proof (intro allI impI)
    fix j assume "j < length (sys_chans S')"
    then have j: "j < length (sys_chans S)" by (simp add: S')
    show "data_ok (chan_store ?D j) (sys_chan S' j)"
    proof (cases "j = i")
      case True
      have "data_ok (store_exec w junk bl e (chan_store D i)) s'" by (rule data_ok_event [OF Di Ii ev hon s'])
      moreover have "sys_chan S' i = s'" using i by (simp add: S' sys_chan_def)
      ultimately show ?thesis using True chan_store_exec(1) by simp
    next
      case False
      have Dj: "data_ok (chan_store D j) (sys_chan S j)" using D j by (simp add: sys_data_def)
      have "data_ok (chan_store D j) ((sys_chan S j)\<lparr>ub := ub s'\<rparr>)"
        by (rule data_ok_change [OF Dj]) (use up in \<open>simp_all add: ub ring_def\<close>)
      moreover have "sys_chan S' j = (sys_chan S j)\<lparr>ub := ub s'\<rparr>" using False by (simp add: S' sys_chan_def)
      ultimately show ?thesis using chan_store_exec(2) [OF False] by (simp only: data_ok_disk)
    qed
  qed
  have "view (ub s') (store_exec w junk bl e (chan_store D i)) = disk_spec w junk bl e (view (sys_ub S) (chan_store D i))"
    using view_event [OF Di Ii ev hon _ s'] W bl ub by simp
  then show "view (sys_ub S') (chan_store ?D c) = disk_spec w junk bl e (view (sys_ub S) (chan_store D c))"
    unfolding view_chan_store [of _ _ c i] chan_store_exec(1) by (simp add: S')
qed

lemma sys_data_run:
  assumes "sys_run u es S" "bdev_ok u" "inflight_set u = {}" "whole_stripes u" "\<forall>ie \<in> set es. honest (snd ie)"
    and "bl = unat (blocklen (bdev u))"
  shows "sys_inv S \<and> evolves u (sys_ub S) \<and> sys_data (fold (sys_store_exec w junk bl) es D) S \<and>
    view (sys_ub S) (chan_store (fold (sys_store_exec w junk bl) es D) c) =
      fold (\<lambda>ie. disk_spec w junk bl (snd ie)) es (view u (chan_store D c))"
  using assms
proof (induction rule: sys_run.induct)
  case start
  then show ?case by (simp add: sys_data_def sys_inv_def sys_owned_def)
next
  case (channel es S t env bufs held ch' held')
  then have IH: "sys_inv S" "evolves u (sys_ub S)" "sys_data (fold (sys_store_exec w junk bl) es D) S"
    "view (sys_ub S) (chan_store (fold (sys_store_exec w junk bl) es D) c) =
      fold (\<lambda>ie. disk_spec w junk bl (snd ie)) es (view u (chan_store D c))" by simp_all
  have "sys_inv (sys_add_channel ch' S)" by (rule sys_add_channel_inv [OF IH(1) channel(2)])
  moreover have "sys_data (fold (sys_store_exec w junk bl) es D) (sys_add_channel ch' S)"
    using IH(3) by (auto simp: sys_data_def sys_add_channel_def sys_chan_def nth_append fresh_state_def data_ok_def ring_def
        less_Suc_eq)
  ultimately show ?case using IH(2,4) by (simp add: sys_add_channel_def)
next
  case (event es S ie S')
  obtain i e where ie: "ie = (i, e)" by (cases ie)
  let ?D = "fold (sys_store_exec w junk bl) es D"
  from event have IH: "sys_inv S" "evolves u (sys_ub S)" "sys_data ?D S"
    "view (sys_ub S) (chan_store ?D c) = fold (\<lambda>ie. disk_spec w junk bl (snd ie)) es (view u (chan_store D c))" by simp_all
  have W: "whole_stripes (sys_ub S)" by (rule whole_stripes_evolves [OF IH(2) event.prems(3)])
  have bl: "bl = unat (blocklen (bdev (sys_ub S)))" using event.prems(5) evolves_config(1) [OF IH(2)] by simp
  have hon: "honest e" using event.prems(4) ie by simp
  note st = sys_data_event [OF IH(1,3) event(2) [unfolded ie] hon event(3) [unfolded ie] W bl]
  obtain S2 where "sys_exec (i, e) S = Some S2" "sys_inv S2" "evolves (sys_ub S) (sys_ub S2)"
    using sys_exec_good [OF IH(1) event(2) [unfolded ie]] by blast
  then have "sys_inv S'" "evolves u (sys_ub S')" using event(3) ie IH(2) by (auto intro: evolves_trans)
  with st IH(4) show ?case by (simp add: ie)
qed

text \<open>The run of one channel as a run of the system.\<close>

lemma channel_run:
  assumes "ubi_run s es s'" "sys_run u es0 S" "i < length (sys_chans S)" "sys_chan S i = s"
  shows "\<exists>S'. sys_run u (es0 @ map (Pair i) es) S' \<and> sys_chan S' i = s' \<and> length (sys_chans S') = length (sys_chans S)"
  using assms
proof (induction arbitrary: S es0 rule: ubi_run.induct)
  case (nil s)
  then show ?case by auto
next
  case (cons s e s1 es s')
  let ?S = "S\<lparr>sys_ub := ub s1, sys_chans := (sys_chans S)[i := s1]\<rparr>"
  have "sys_allowed (i, e) S" "sys_exec (i, e) S = Some ?S"
    using cons.hyps(1) cons.prems by (simp_all add: ubi_step_iff)
  then have "sys_run u (es0 @ [(i, e)]) ?S" using sys_run.event [OF cons.prems(1)] by blast
  from cons.IH [OF this] cons.prems(2) show ?case by (simp add: sys_chan_def)
qed

subsection \<open>Properties\<close>


definition demo_sys_store :: sys_store where
  "demo_sys_store = \<lparr>s_img = \<lambda>_. 1, s_disk = \<lambda>_. 0, s_bounce = \<lambda>_ _ _. 0\<rparr>"

lemma demo_sys_run: "sys_run demo_ubi [] demo_sys"
proof -
  have add: "sys_run demo_ubi [] (sys_add_channel demo_channel S)" if "sys_run demo_ubi [] S" "sys_ub S = demo_ubi" for S
    using sys_run.channel [OF that(1)] demo_create that(2) by metis
  show ?thesis unfolding demo_sys_def by (intro add sys_run.start) (simp_all add: sys_add_channel_def)
qed

lemma demo_sys_chan: "i < 2 \<Longrightarrow> sys_chan demo_sys i = demo_state" "length (sys_chans demo_sys) = 2"
  by (auto simp: demo_sys_def sys_add_channel_def sys_chan_def demo_state_def fresh_state_def less_2_cases_iff)


end
