(* ===== verification/Ubi_Race.thy ===== *)
theory Ubi_Race
  imports Ubi_Share
begin

section \<open>Submissions on different threads\<close>

text \<open>
  SPDK runs every channel on a thread of its own and the module takes no lock, so the handlers
  of two channels may overlap.  The two accesses of \<^verbatim>\<open>ubi_submit_request\<close> to the status table
  they share, the look at the status of the stripe and the update, are separate steps here.
\<close>

subsection \<open>The two halves of a submission\<close>

datatype look_result = Look_reject | Look_fetch | Look_queue

definition submit_look :: "bdev_io \<Rightarrow> ubi_bdev \<Rightarrow> look_result option" where
  "submit_look b u =
     (if io_type b = IO_WRITE \<or> (io_type b = IO_READ \<and> copy_on_read u) then
        (let start_block = offset_blocks b;
             end_block = start_block + num_blocks b - 1;
             start_stripe = block_stripe u start_block;
             end_stripe = block_stripe u end_block
         in
         if start_stripe \<noteq> end_stripe then Some Look_reject
         else if start_block < image_block_count u then do {
           status \<leftarrow> ubi_get_stripe_status u (ucast start_stripe);
           Some (if status = STRIPE_NOT_FETCHED then Look_fetch else Look_queue)
         } else Some Look_queue)
      else Some Look_queue)"

definition submit_act :: "bdev_io \<Rightarrow> look_result \<Rightarrow> ubi_state \<Rightarrow> ubi_state option" where
  "submit_act b l s =
     (case l of
        Look_reject \<Rightarrow> Some (spdk_bdev_io_complete b False s)
      | Look_fetch \<Rightarrow> do {
          let start_stripe = block_stripe (ub s) (offset_blocks b);
          q \<leftarrow> enqueue_stripe (stripe_fetch_queue (ch s)) (ucast start_stripe);
          u \<leftarrow> ubi_set_stripe_status (ub s) (ucast start_stripe) STRIPE_INFLIGHT;
          Some (insert_io b (s\<lparr>ub := u, ch := (ch s)\<lparr>stripe_fetch_queue := q\<rparr>\<rparr>))
        }
      | Look_queue \<Rightarrow> Some (insert_io b s))"

lemma submit_request_eq:
  "ubi_submit_request b s = Option.bind (submit_look b (ub s)) (\<lambda>l. submit_act b l s)"
proof (cases "ubi_get_stripe_status (ub s) (ucast (block_stripe (ub s) (offset_blocks b)))")
  case None
  then show ?thesis by (auto simp: ubi_submit_request_def submit_look_def submit_act_def Let_def)
next
  case (Some status)
  then show ?thesis by (auto simp: ubi_submit_request_def submit_look_def submit_act_def Let_def)
qed


subsection \<open>Threads\<close>

text \<open>
  The state of the channels, and for each channel the submission that has looked and not acted
  yet.  The other handlers run without interruption.
\<close>

type_synonym threads = "ubi_sys \<times> (nat \<rightharpoonup> bdev_io \<times> look_result)"

inductive thread_step :: "threads \<Rightarrow> threads \<Rightarrow> bool" where
  look: "i < length (sys_chans S) \<Longrightarrow> P i = None \<Longrightarrow> io_ok (sys_ub S) b \<Longrightarrow> submit_look b (sys_ub S) = Some l \<Longrightarrow>
    thread_step (S, P) (S, P(i \<mapsto> (b, l)))"
| act: "i < length (sys_chans S) \<Longrightarrow> P i = Some (b, l) \<Longrightarrow> submit_act b l (sys_chan S i) = Some s' \<Longrightarrow>
    thread_step (S, P) (S\<lparr>sys_ub := ub s', sys_chans := (sys_chans S)[i := s']\<rparr>, P(i := None))"
| event: "P i = None \<Longrightarrow> sys_allowed (i, e) S \<Longrightarrow> submitted e = {#} \<Longrightarrow> sys_exec (i, e) S = Some S' \<Longrightarrow>
    thread_step (S, P) (S', P)"

text \<open>
  A submission that found its stripe not fetched leaves the stripe with its channel, also when
  the bdev has changed since it looked.
\<close>

lemma act_owns:
  assumes I: "inv_gen oth X n s" and ok: "io_ok (ub s) b" and look: "submit_look b (ub s) = Some Look_fetch"
    and shift: "stripe_shift u' = stripe_shift (ub s)"
  obtains s' where "submit_act b Look_fetch (s\<lparr>ub := u'\<rparr>) = Some s'" "stripe_of (ub s) b \<in> owned (ch s')"
    "ub s' = put_status (stripe_of (ub s) b) STRIPE_INFLIGHT u'"
proof -
  have conf: "conf_ok (ub s)" and F: "fetch_ok oth X (ub s) (ch s) (fetch_slots s)"
    using I by (simp_all add: inv_gen_def)
  let ?i = "ucast (block_stripe (ub s) (offset_blocks b)) :: i32"
  note ix = stripe_of_index [OF conf ok]
  have new: "stripe_of (ub s) b < image_stripes (ub s)" "stripe_of (ub s) b \<notin> inflight_set (ub s)"
    using look get_status_io [OF conf ok] stripe_of_image [of b "ub s"]
    by (auto simp: submit_look_def inflight_set_def Let_def split: if_splits)
  have bs: "block_stripe u' = block_stripe (ub s)" using shift by (simp add: block_stripe_def fun_eq_iff)
  have "queue_ok (stripe_fetch_queue (ch s))" using F by (simp add: fetch_ok_def)
  moreover have "length (queue_list (stripe_fetch_queue (ch s))) < 32767" using queued_bound [OF F conf new] by simp
  ultimately obtain q where q: "enqueue_stripe (stripe_fetch_queue (ch s)) ?i = Some q"
    "queue_list q = queue_list (stripe_fetch_queue (ch s)) @ [?i]"
    using fq.enq_law by blast
  let ?s = "insert_io b (s\<lparr>ub := put_status (stripe_of (ub s) b) STRIPE_INFLIGHT u', ch := (ch s)\<lparr>stripe_fetch_queue := q\<rparr>\<rparr>)"
  have "submit_act b Look_fetch (s\<lparr>ub := u'\<rparr>) = Some ?s"
    using q(1) ix by (simp add: submit_act_def bs ubi_set_stripe_status_eq)
  moreover have "stripe_of (ub s) b \<in> owned (ch ?s)" using ix(1) q(2) by (simp add: insert_io_def owned_def queued_def)
  ultimately show ?thesis using that by (simp add: insert_io_def)
qed

subsection \<open>The race\<close>

text \<open>
  C31: the look at the status table and the update are not atomic.  In every reachable state of
  a system, two requests on different channels for the same stripe that is not fetched yet can
  both find it not fetched, when the second looks before the first has acted, and then both
  channels queue the stripe: one stripe in flight has two owners.
\<close>

theorem racing_submissions_share_stripe:
  assumes "bdev_ok u" and "inflight_set u = {}" and "sys_reachable u S"
    and "i < length (sys_chans S)" and "j < length (sys_chans S)" and "i \<noteq> j"
    and "io_ok (sys_ub S) b" and "io_ok (sys_ub S) b'"
    and "submit_look b (sys_ub S) = Some Look_fetch" and "submit_look b' (sys_ub S) = Some Look_fetch"
    and "stripe_of (sys_ub S) b = stripe_of (sys_ub S) b'"
  shows "\<exists>S' P'. thread_step\<^sup>*\<^sup>* (S, Map.empty) (S', P') \<and> P' = Map.empty \<and>
     stripe_of (sys_ub S) b \<in> owned (ch (sys_chans S' ! i)) \<inter> owned (ch (sys_chans S' ! j))"
proof -
  have inv: "sys_inv S" by (rule sys_reachable_inv [OF assms(3,1,2)])
  have ub: "ub (sys_chan S k) = sys_ub S" for k by (simp add: sys_chan_def)
  let ?k = "stripe_of (sys_ub S) b"
  let ?l = "Look_fetch"
  obtain s1 where s1: "submit_act b ?l (sys_chan S i) = Some s1" "?k \<in> owned (ch s1)" "ub s1 = put_status ?k STRIPE_INFLIGHT (sys_ub S)"
    by (rule act_owns [OF sys_invD [OF inv assms(4)], of b "sys_ub S"]) (use assms(7,9) ub in \<open>simp_all add: sys_chan_def\<close>)
  let ?S1 = "S\<lparr>sys_ub := ub s1, sys_chans := (sys_chans S)[i := s1]\<rparr>"
  have j1: "sys_chan ?S1 j = (sys_chan S j)\<lparr>ub := ub s1\<rparr>" using assms(6) by (simp add: sys_chan_def)
  obtain s2 where s2: "submit_act b' ?l ((sys_chan S j)\<lparr>ub := ub s1\<rparr>) = Some s2" "stripe_of (sys_ub S) b' \<in> owned (ch s2)"
    by (rule act_owns [OF sys_invD [OF inv assms(5)], of b' "ub s1"]) (use assms(8,10) ub s1(3) in \<open>simp_all add: put_status_def\<close>)
  let ?S2 = "?S1\<lparr>sys_ub := ub s2, sys_chans := (sys_chans ?S1)[j := s2]\<rparr>"
  let ?P1 = "Map.empty(i \<mapsto> (b, ?l))"
  let ?P2 = "?P1(j \<mapsto> (b', ?l))"
  have "thread_step (S, Map.empty) (S, ?P1)" using assms(4,7,9) by (intro thread_step.look) simp_all
  moreover have "thread_step (S, ?P1) (S, ?P2)" using assms(5,6,8,10) by (intro thread_step.look) simp_all
  moreover have "thread_step (S, ?P2) (?S1, ?P2(i := None))" using assms(4,6) s1(1) by (intro thread_step.act) simp_all
  moreover have "thread_step (?S1, ?P2(i := None)) (?S2, ?P2(i := None, j := None))"
    using assms(5,6) s2(1) j1 by (intro thread_step.act) simp_all
  ultimately have "thread_step\<^sup>*\<^sup>* (S, Map.empty) (?S2, ?P2(i := None, j := None))"
    by (meson converse_rtranclp_into_rtranclp rtranclp.rtrancl_refl)
  moreover have "?P2(i := None, j := None) = Map.empty" by (simp add: fun_eq_iff)
  moreover have "?k \<in> owned (ch (sys_chans ?S2 ! i)) \<inter> owned (ch (sys_chans ?S2 ! j))"
    using s1(2) s2(2) assms(4-6,11) by simp
  ultimately show ?thesis by metis
qed

theorem racing_submissions_share_stripe_witness:
  "\<exists>S' P'. thread_step\<^sup>*\<^sup>* (demo_sys, Map.empty) (S', P') \<and> 2 \<in> owned (ch (sys_chans S' ! 0)) \<inter> owned (ch (sys_chans S' ! 1))"
proof -
  have ub: "sys_ub demo_sys = demo_ubi" by (simp add: demo_sys_def sys_add_channel_def)
  have ok: "io_ok (sys_ub demo_sys) demo_write" using demo_write_ok ub by simp
  have look: "submit_look demo_write (sys_ub demo_sys) = Some Look_fetch"
    by (simp add: ub submit_look_def demo_write_def demo_ubi_def demo_ubi0_def block_stripe_def Let_def status_simps)
  have st: "stripe_of (sys_ub demo_sys) demo_write = 2"
    by (simp add: ub stripe_of_def demo_write_def demo_ubi_def demo_ubi0_def)
  have len: "0 < length (sys_chans demo_sys)" "1 < length (sys_chans demo_sys)" by (simp_all add: demo_sys_chan(2))
  from racing_submissions_share_stripe [OF demo_bdev_ok demo_sys_reachable len _ ok ok look look refl]
  show ?thesis unfolding st by auto
qed

end
