(* ===== verification/Ubi_Together.thy ===== *)
theory Ubi_Together
  imports Ubi_Drain Ubi_Race
begin

section \<open>Channels that come and go\<close>

text \<open>
  A bdev over its life: threads open channels, use them and close them again.  SPDK closes a
  channel only when no request is pending on it.  The theory lifts what holds for one channel to
  all of them: no request is lost, every stripe in flight is fetched by exactly one of the
  channels, and together they can always be drained.
\<close>

subsection \<open>What every channel keeps\<close>

definition settled :: "ubi_state \<Rightarrow> bool" where
  "settled s \<longleftrightarrow> waited s \<and> 0 \<le> deferred s"

lemma settled_event:
  assumes "inv_gen oth {#} 0 s" "ev_allowed e s" "ev_exec e s = Some s'" "settled s"
  shows "settled s'"
  using waited_event [OF assms(1,2) _ assms(3)] deferred_event [OF assms(1-3)] assms(4) by (simp add: settled_def)

lemma waited_other: "evolves (ub s) u' \<Longrightarrow> waited (s\<lparr>ub := u'\<rparr>) \<longleftrightarrow> waited s"
  by (simp add: waited_def waits_for_evolves)

lemma settled_other: "evolves (ub s) u' \<Longrightarrow> settled (s\<lparr>ub := u'\<rparr>) \<longleftrightarrow> settled s"
  by (simp add: settled_def waited_other)

definition sys_settled :: "ubi_sys \<Rightarrow> bool" where
  "sys_settled S \<longleftrightarrow> sys_inv S \<and> (\<forall>i < length (sys_chans S). settled (sys_chan S i))"

lemma sys_exec_split:
  assumes "sys_inv S" "sys_allowed (i, e) S" "sys_exec (i, e) S = Some S'"
  obtains s' where "ev_exec e (sys_chan S i) = Some s'" "sys_inv S'" "evolves (sys_ub S) (sys_ub S')"
    "sys_chans S' = (sys_chans S)[i := s']" "sys_chan S' i = s'" "\<And>j. j \<noteq> i \<Longrightarrow> sys_chan S' j = (sys_chan S j)\<lparr>ub := sys_ub S'\<rparr>"
proof -
  have i: "i < length (sys_chans S)" using assms(2) by simp
  obtain s' where s': "ev_exec e (sys_chan S i) = Some s'" and S': "S' = S\<lparr>sys_ub := ub s', sys_chans := (sys_chans S)[i := s']\<rparr>"
    using assms(3) i by auto
  obtain "sys_inv S'" "evolves (sys_ub S) (sys_ub S')" using sys_exec_good [OF assms(1,2)] assms(3) by auto
  with that [OF s'] i S' show ?thesis by (simp add: sys_chan_def)
qed

lemma sys_settled_event:
  assumes A: "sys_settled S" and al: "sys_allowed (i, e) S" and run: "sys_exec (i, e) S = Some S'"
  shows "sys_settled S'"
proof -
  have I: "sys_inv S" and W: "\<And>j. j < length (sys_chans S) \<Longrightarrow> settled (sys_chan S j)" using A by (simp_all add: sys_settled_def)
  have i: "i < length (sys_chans S)" and ev: "ev_allowed e (sys_chan S i)" using al by simp_all
  from I al run show ?thesis
  proof (cases rule: sys_exec_split)
    case (1 s')
    have "settled (sys_chan S' j)" if "j < length (sys_chans S)" for j
    proof (cases "j = i")
      case True
      then show ?thesis using settled_event [OF sys_invD [OF I i] ev 1(1) W [OF i]] 1(5) by simp
    next
      case False
      have "evolves (ub (sys_chan S j)) (sys_ub S')" using 1(3) by (simp add: sys_chan_def)
      then show ?thesis using W [OF that] settled_other 1(6) [OF False] by simp
    qed
    then show ?thesis using 1(2,4) by (simp add: sys_settled_def)
  qed
qed

lemma sys_settled_add:
  assumes "sys_settled S" "ubi_create_channel_cb t env (sys_ub S) (zero_channel bufs) held = Some (0, c, held')"
  shows "sys_settled (sys_add_channel c S)"
proof -
  have "waited (fresh_state (sys_ub S) c)"
    using fresh_channel_owns_nothing(7) [OF assms(2)] by (simp add: waited_def fresh_state_def)
  moreover have "has_reads c = 0"
    using assms(2) create_channel_cases [of t env "sys_ub S" "zero_channel bufs" held] by (auto simp: zero_channel_def split: if_splits)
  ultimately have "settled (fresh_state (sys_ub S) c)" by (simp add: settled_def fresh_state_def)
  then have "settled (sys_chan (sys_add_channel c S) i)" if "i < length (sys_chans (sys_add_channel c S))" for i
    using that assms(1)
    by (auto simp: sys_settled_def sys_add_channel_def sys_chan_def nth_append less_Suc_eq fresh_state_def)
  then show ?thesis using sys_add_channel_inv assms by (auto simp: sys_settled_def)
qed

subsection \<open>Closing a channel\<close>

definition sys_drop_channel :: "nat \<Rightarrow> ubi_sys \<Rightarrow> ubi_sys" where
  "sys_drop_channel i S = S\<lparr>sys_chans := take i (sys_chans S) @ drop (Suc i) (sys_chans S)\<rparr>"

definition skip :: "nat \<Rightarrow> nat \<Rightarrow> nat" where
  "skip i j = (if j < i then j else Suc j)"

lemma drop_channel_nth:
  assumes "i < length (sys_chans S)" "j < length (sys_chans S) - 1"
  shows "sys_chans (sys_drop_channel i S) ! j = sys_chans S ! skip i j" "skip i j < length (sys_chans S)" "skip i j \<noteq> i"
  using assms by (auto simp: sys_drop_channel_def nth_append min_def skip_def)

lemma drop_channel_sys [simp]:
  "sys_ub (sys_drop_channel i S) = sys_ub S"
  "i < length (sys_chans S) \<Longrightarrow> length (sys_chans (sys_drop_channel i S)) = length (sys_chans S) - 1"
  by (simp_all add: sys_drop_channel_def)

lemma skip_onto: "i < n \<Longrightarrow> skip i ` {..<n - 1} = {..<n} - {i}"
proof (intro equalityI subsetI)
  fix k assume i: "i < n" and k: "k \<in> {..<n} - {i}"
  show "k \<in> skip i ` {..<n - 1}"
  proof (cases "k < i")
    case True
    then show ?thesis using i by (intro image_eqI [of _ _ k]) (auto simp: skip_def)
  next
    case False
    then show ?thesis using k by (intro image_eqI [of _ _ "k - 1"]) (auto simp: skip_def)
  qed
qed (auto simp: skip_def split: if_splits)

lemma skip_inj: "inj (skip i)"
  by (auto simp: inj_def skip_def split: if_splits)

lemma skip_but: "i < n \<Longrightarrow> skip i ` ({..<n - 1} - {j}) = {..<n} - {i} - {skip i j}"
  using skip_onto [of i n] by (simp add: image_set_diff [OF skip_inj])

lemma sys_settled_drop:
  assumes A: "sys_settled S" and i: "i < length (sys_chans S)" and none: "pending (sys_chans S ! i) = {#}"
  shows "sys_settled (sys_drop_channel i S)"
proof -
  let ?n = "length (sys_chans S)" and ?S = "sys_drop_channel i S"
  let ?own = "\<lambda>j. owned (ch (sys_chans S ! j))"
  have I: "sys_inv S" and W: "\<And>j. j < ?n \<Longrightarrow> settled (sys_chan S j)" using A by (simp_all add: sys_settled_def)
  have "waited (sys_chan S i)" "pending (sys_chan S i) = {#}"
    using W [OF i] none by (simp_all add: settled_def sys_chan_def pending_def ring_def)
  from quiet_state(4) [OF sys_invD [OF I i] this] have own: "?own i = {}" by (simp add: sys_chan_def)
  note nth = drop_channel_nth [OF i]
  have chan: "sys_chan ?S j = sys_chan S (skip i j)" if "j < ?n - 1" for j
    using nth(1) [OF that] by (simp add: sys_chan_def)
  have owned: "sys_owned ?S = (\<Union>k \<in> {..<?n} - {i}. ?own k)"
    unfolding sys_owned_def skip_onto [OF i, symmetric] using nth(1) i by simp
  have others: "sys_others ?S j = (\<Union>k \<in> {..<?n} - {i} - {skip i j}. ?own k)" for j
    unfolding sys_others_def skip_but [OF i, symmetric] using nth(1) i by simp
  have same: "(\<Union>k \<in> {..<?n} - {i} - {l}. ?own k) = sys_others S l" for l
    unfolding sys_others_def using own by auto
  have "sys_owned ?S = sys_owned S" unfolding owned using own i by (auto simp: sys_owned_def)
  moreover have "inv_gen (sys_others ?S j) {#} 0 (sys_chan ?S j)" "settled (sys_chan ?S j)" if j: "j < ?n - 1" for j
    using sys_invD [OF I nth(2) [OF j]] W [OF nth(2) [OF j]] unfolding chan [OF j] others same by blast+
  ultimately show ?thesis using I i by (simp add: sys_settled_def sys_inv_def)
qed

text \<open>The life of a bdev, from the moment it was created.\<close>

inductive sys_life :: "ubi_bdev \<Rightarrow> ubi_sys \<Rightarrow> bool" for u where
  start: "sys_life u \<lparr>sys_ub = u, sys_chans = []\<rparr>"
| opened: "sys_life u S \<Longrightarrow>
    ubi_create_channel_cb t env (sys_ub S) (zero_channel bufs) held = Some (0, c, held') \<Longrightarrow>
    sys_life u (sys_add_channel c S)"
| event: "sys_life u S \<Longrightarrow> sys_allowed ie S \<Longrightarrow> sys_exec ie S = Some S' \<Longrightarrow> sys_life u S'"
| closed: "sys_life u S \<Longrightarrow> i < length (sys_chans S) \<Longrightarrow> pending (sys_chans S ! i) = {#} \<Longrightarrow>
    ubi_destroy_channel_cb (ch (sys_chans S ! i)) held = Some (c, held') \<Longrightarrow>
    sys_life u (sys_drop_channel i S)"

lemma sys_life_settled:
  assumes "sys_life u S" "bdev_ok u" "inflight_set u = {}"
  shows "sys_settled S"
  using assms
proof (induction rule: sys_life.induct)
  case start
  then show ?case by (simp add: sys_settled_def sys_inv_def sys_owned_def)
next
  case (opened S t env bufs held c held')
  then show ?case using sys_settled_add by blast
next
  case (event S ie S')
  then show ?case using sys_settled_event by (cases ie) blast
next
  case (closed S i held c held')
  then show ?case using sys_settled_drop by blast
qed

lemma sys_reachable_life: "sys_reachable u S \<Longrightarrow> sys_life u S"
  by (induction rule: sys_reachable.induct) (auto intro: sys_life.intros)

subsection \<open>No request is lost\<close>

definition events_of :: "nat \<Rightarrow> (nat \<times> ubi_event) list \<Rightarrow> ubi_event list" where
  "events_of i es = map snd (filter (\<lambda>ie. fst ie = i) es)"

lemma events_of_snoc: "events_of i (es @ [ie]) = events_of i es @ (if fst ie = i then [snd ie] else [])"
  by (simp add: events_of_def)

lemma events_of_none: "\<forall>ie \<in> set es. fst ie < i \<Longrightarrow> events_of i es = []"
  by (auto simp: events_of_def filter_empty_conv)

definition kept :: "ubi_state \<Rightarrow> ubi_event list \<Rightarrow> bool" where
  "kept s es \<longleftrightarrow> all_ios s \<subseteq># sum_list (map submitted es) \<and>
     ((\<forall>e \<in> set es. \<not> may_lose e) \<longrightarrow> all_ios s = sum_list (map submitted es))"

lemma kept_event:
  assumes "inv_gen oth {#} 0 s" "ev_allowed e s" "ev_exec e s = Some s'" and K: "kept s es"
  shows "kept s' (es @ [e])"
proof -
  note one = all_ios_event [OF assms(1-3)]
  have "all_ios s + submitted e \<subseteq># sum_list (map submitted es) + submitted e" using K by (simp add: kept_def)
  then have "all_ios s' \<subseteq># sum_list (map submitted es) + submitted e" using one(1) subset_mset.order_trans by blast
  then show ?thesis using one(2) K by (simp add: kept_def)
qed

lemma sys_kept:
  assumes "sys_run u es S" "bdev_ok u" "inflight_set u = {}"
  shows "sys_inv S \<and> (\<forall>ie \<in> set es. fst ie < length (sys_chans S)) \<and>
    (\<forall>i < length (sys_chans S). kept (sys_chans S ! i) (events_of i es))"
  using assms
proof (induction rule: sys_run.induct)
  case start
  then show ?case by (simp add: sys_inv_def sys_owned_def)
next
  case (channel es S t env bufs held c held')
  then have IH: "sys_inv S" "\<forall>ie \<in> set es. fst ie < length (sys_chans S)"
    "\<forall>i < length (sys_chans S). kept (sys_chans S ! i) (events_of i es)" by simp_all
  have "sys_inv (sys_add_channel c S)" by (rule sys_add_channel_inv [OF IH(1) channel(2)])
  moreover have "kept (fresh_state u' c) []" for u'
    using fresh_channel_owns_nothing(6) [OF channel(2)] by (simp add: kept_def all_ios_def fresh_state_def ring_def)
  then have "kept (sys_chans (sys_add_channel c S) ! i) (events_of i es)" if "i < Suc (length (sys_chans S))" for i
    using that IH(3) events_of_none [OF IH(2)]
    by (cases "i = length (sys_chans S)") (simp_all add: sys_add_channel_def nth_append)
  ultimately show ?case using IH(2) by (auto simp: sys_add_channel_def)
next
  case (event es S ie S')
  obtain i e where ie: "ie = (i, e)" by (cases ie)
  have IH: "sys_inv S" "\<forall>ie \<in> set es. fst ie < length (sys_chans S)"
    and K: "\<And>j. j < length (sys_chans S) \<Longrightarrow> kept (sys_chans S ! j) (events_of j es)"
    using event by simp_all
  have i: "i < length (sys_chans S)" and ev: "ev_allowed e (sys_chan S i)" using event ie by simp_all
  from IH(1) event(2,3) [unfolded ie] show ?case
  proof (cases rule: sys_exec_split)
    case (1 s')
    have "kept (sys_chan S i) (events_of i es)" using K [OF i] by (simp add: kept_def sys_chan_def all_ios_def ring_def)
    then have "kept s' (events_of i es @ [e])" by (rule kept_event [OF sys_invD [OF IH(1) i] ev 1(1)])
    then have "kept (sys_chans S' ! j) (events_of j (es @ [ie]))" if "j < length (sys_chans S)" for j
      using that K [OF that] 1(4) i ie by (cases "j = i") (simp_all add: events_of_snoc)
    then show ?thesis using IH(2) 1(2,4) i ie by simp
  qed
qed

text \<open>
  C17: no request is answered twice and none is made up.  Along every run of any number of
  channels on one bdev, the requests that a channel has answered and those still pending on it
  are among those submitted to it.  No request is lost either, unless the base bdev refuses
  a write of that channel or fails the data flush of one of its flush requests: without such an
  event every request submitted to the channel has been answered or is pending, exactly once,
  whatever happens to the stripes it shares with the other channels.
\<close>

theorem shared_requests_conserved:
  assumes "bdev_ok u" and "inflight_set u = {}" and "sys_run u es S" and "i < length (sys_chans S)"
    and "s = sys_chans S ! i"
  shows "mset (map fst (completed s)) + pending s \<subseteq># sum_list (map submitted (events_of i es)) \<and>
    ((\<forall>e \<in> set (events_of i es). \<not> may_lose e) \<longrightarrow>
       mset (map fst (completed s)) + pending s = sum_list (map submitted (events_of i es)))"
  using sys_kept [OF assms(3,1,2)] assms(4,5) by (simp add: kept_def all_ios_pending add.commute)

text \<open>Two channels, and a write request on the first.\<close>

definition demo_busy :: ubi_sys where
  "demo_busy = \<lparr>sys_ub = ub demo_submitted, sys_chans = [demo_submitted, demo_state]\<rparr>"

lemma demo_busy_step:
  "sys_allowed (0, Ev_submit demo_write) demo_sys" "sys_exec (0, Ev_submit demo_write) demo_sys = Some demo_busy"
  using demo_submit demo_sys_chan demo_write_ok
  by (simp_all add: demo_busy_def ev_ok_def)
    (simp_all add: demo_sys_def sys_add_channel_def demo_state_def fresh_state_def)

lemma demo_busy_life: "sys_life demo_ubi demo_busy"
  by (rule sys_life.event [OF sys_reachable_life [OF demo_sys_reachable] demo_busy_step])

theorem shared_requests_conserved_witness:
  "mset (map fst (completed demo_submitted)) + pending demo_submitted = {#demo_write#}"
proof -
  have "sys_run demo_ubi [(0, Ev_submit demo_write)] demo_busy"
    using sys_run.event [OF demo_sys_run demo_busy_step] by simp
  from shared_requests_conserved [OF demo_bdev_ok this _ refl, of 0] show ?thesis
    by (simp add: demo_busy_def events_of_def)
qed

subsection \<open>Draining all channels\<close>

inductive sys_path :: "ubi_sys \<Rightarrow> (nat \<times> ubi_event) list \<Rightarrow> ubi_sys \<Rightarrow> bool" where
  nil: "sys_path S [] S"
| cons: "sys_allowed ie S \<Longrightarrow> sys_exec ie S = Some S1 \<Longrightarrow> sys_path S1 es S' \<Longrightarrow> sys_path S (ie # es) S'"

definition sys_work :: "ubi_sys \<Rightarrow> nat" where
  "sys_work S = sum_list (map work (sys_chans S))"

definition sys_calm :: "ubi_sys \<Rightarrow> bool" where
  "sys_calm S \<longleftrightarrow> sys_inv S \<and> (\<forall>i < length (sys_chans S). calm (sys_chan S i))"

lemma calm_other: "evolves (ub s) u' \<Longrightarrow> calm (s\<lparr>ub := u'\<rparr>) \<longleftrightarrow> calm s"
  by (simp add: calm_def waited_other)

text \<open>As long as a request is pending anywhere, one of the channels can move.\<close>

lemma sys_ready:
  assumes C: "sys_calm S" and i: "i < length (sys_chans S)" and pend: "pending (sys_chans S ! i) \<noteq> {#}"
  obtains j where "j < length (sys_chans S)" "ready (sys_chan S j)"
proof -
  have I: "sys_inv S" and calm: "\<And>j. j < length (sys_chans S) \<Longrightarrow> calm (sys_chan S j)"
    using C by (simp_all add: sys_calm_def)
  have "\<exists>j < length (sys_chans S). ready (sys_chan S j)"
  proof (rule ccontr)
    assume "\<not> (\<exists>j < length (sys_chans S). ready (sys_chan S j))"
    then have not: "\<not> ready (sys_chan S j)" if "j < length (sys_chans S)" for j using that by blast
    have idle: "owned (ch (sys_chan S j)) = {} \<and> pending (sys_chan S j) = mset (ch_io (ch (sys_chan S j)))"
      if j: "j < length (sys_chans S)" for j
      using not [OF j] calm [OF j] idle_slots(3,4) [OF sys_invD [OF I j]] by (simp add: ready_def calm_def)
    then have "inflight_set (sys_ub S) = {}" using I by (auto simp: sys_inv_def sys_owned_def sys_chan_def)
    then have "ch_io (ch (sys_chan S i)) = []" using not [OF i] by (simp add: ready_def sys_chan_def)
    then have "pending (sys_chan S i) = {#}" using idle [OF i] by simp
    then show False using pend by (simp add: sys_chan_def pending_def ring_def)
  qed
  then show ?thesis using that by blast
qed

lemma sys_helpful_step:
  assumes C: "sys_calm S" and i: "i < length (sys_chans S)" and R: "ready (sys_chan S i)" and env: "prompt env"
    and e: "e = helpful env (sys_chan S i)"
  obtains S' where "sys_allowed (i, e) S" "sys_exec (i, e) S = Some S'" "sys_calm S'" "sys_work S' < sys_work S"
    "map all_ios (sys_chans S') = map all_ios (sys_chans S)"
proof -
  have I: "sys_inv S" and calm: "\<And>j. j < length (sys_chans S) \<Longrightarrow> calm (sys_chan S j)"
    using C by (simp_all add: sys_calm_def)
  note Ii = sys_invD [OF I i]
  obtain s1 where s1: "ubi_step (sys_chan S i) e s1" "calm s1" "work s1 < work (sys_chan S i)"
    using helpful_step [OF Ii calm [OF i] env R] e by blast
  then have ev: "ev_allowed e (sys_chan S i)" "ev_exec e (sys_chan S i) = Some s1" by (simp_all add: ubi_step_iff)
  have al: "sys_allowed (i, e) S" using i ev(1) by simp
  obtain S' where S': "sys_exec (i, e) S = Some S'" using sys_exec_good [OF I al] by blast
  from I al S' show ?thesis
  proof (cases rule: sys_exec_split)
    case (1 s')
    then have s': "s' = s1" using ev(2) by simp
    have "calm (sys_chan S' j)" if "j < length (sys_chans S)" for j
    proof (cases "j = i")
      case False
      have "evolves (ub (sys_chan S j)) (sys_ub S')" using 1(3) by (simp add: sys_chan_def)
      then show ?thesis using calm [OF that] calm_other 1(6) [OF False] by simp
    qed (use 1(5) s' s1(2) in simp)
    then have C': "sys_calm S'" using 1(2,4) by (simp add: sys_calm_def)
    have wi: "work s1 < work (sys_chans S ! i)" using s1(3) by (simp add: sys_chan_def)
    moreover have "work (sys_chans S ! i) \<le> sys_work S"
      using i by (auto simp: sys_work_def intro!: member_le_sum_list)
    ultimately have "sys_work S' < sys_work S"
      using 1(4) s' i by (simp add: sys_work_def map_update sum_list_update)
    moreover have "all_ios s1 = all_ios (sys_chans S ! i)"
      using all_ios_event(2) [OF Ii ev] helpful_quiet [OF env, of "sys_chan S i"] e by (simp add: sys_chan_def)
    then have "map all_ios (sys_chans S') = map all_ios (sys_chans S)"
      using 1(4) s' i by (simp add: map_update list_update_same_conv)
    ultimately show ?thesis using that al S' C' by blast
  qed
qed

lemma sys_drain:
  assumes "sys_calm S" and env: "prompt env"
  shows "\<exists>es S'. sys_path S es S' \<and> length es \<le> sys_work S \<and> (\<forall>ie \<in> set es. submitted (snd ie) = {#}) \<and>
    map all_ios (sys_chans S') = map all_ios (sys_chans S) \<and> (\<forall>s \<in> set (sys_chans S'). pending s = {#})"
  using assms(1)
proof (induction "sys_work S" arbitrary: S rule: less_induct)
  case less
  show ?case
  proof (cases "\<forall>s \<in> set (sys_chans S). pending s = {#}")
    case True
    then show ?thesis by (intro exI [of _ "[]"] exI [of _ S]) (simp add: sys_path.nil)
  next
    case False
    then obtain i where "i < length (sys_chans S)" "pending (sys_chans S ! i) \<noteq> {#}" by (auto simp: in_set_conv_nth)
    with less.prems obtain j where j: "j < length (sys_chans S)" "ready (sys_chan S j)" by (rule sys_ready)
    let ?e = "helpful env (sys_chan S j)"
    from less.prems j env refl obtain S1 where S1: "sys_allowed (j, ?e) S" "sys_exec (j, ?e) S = Some S1" "sys_calm S1"
      "sys_work S1 < sys_work S" "map all_ios (sys_chans S1) = map all_ios (sys_chans S)"
      by (rule sys_helpful_step)
    from less.hyps [OF S1(4,3)] obtain es S' where es: "sys_path S1 es S'" "length es \<le> sys_work S1"
      "\<forall>ie \<in> set es. submitted (snd ie) = {#}" "map all_ios (sys_chans S') = map all_ios (sys_chans S1)"
      "\<forall>s \<in> set (sys_chans S'). pending s = {#}" by blast
    show ?thesis
      using sys_path.cons [OF S1(1,2) es(1)] es(2-5) S1(4,5) helpful_quiet [OF env, of "sys_chan S j"]
      by (intro exI [of _ "(j, ?e) # es"] exI [of _ S']) auto
  qed
qed



end
