(* ===== verification/Ubi_Create.thy ===== *)
theory Ubi_Create
  imports Ubi_Start
begin

section \<open>Creating and deleting a bdev (\<^verbatim>\<open>bdev_ubi.c\<close>)\<close>

text \<open>
  \<^verbatim>\<open>bdev_ubi_create\<close> with all its error paths, the two stages of reading the metadata,
  \<^verbatim>\<open>ubi_finish_create\<close>, \<^verbatim>\<open>ubi_destruct\<close> and the registry of bdevs.  What the module holds
  outside its own memory is the multiset of resources of the channel theory; giving back
  what is not held is undefined.  What SPDK, the allocator and the kernel return is a
  \<open>create_env\<close>.
\<close>

subsection \<open>State\<close>

record ubi_create_context =
  ctx_ubi_bdev :: "ubi_bdev option"
  registered_io_device :: bool
  ctx_base_ch :: bool

text \<open>Work the module has handed to SPDK to be run later.\<close>

datatype mod_msg =
    Msg_close_base_bdev
  | Msg_device_unregister ubi_bdev

record mod_state =
  held :: "resource multiset"
  g_ubi_bdev_head :: "ubi_bdev list"
  reading :: "ubi_create_context list"
  done_calls :: "(ubi_bdev option \<times> int) list"
  msgs :: "mod_msg list"

record create_env =
  c_calloc :: bool
  c_strdup :: bool
  c_thread :: nat
  c_app_thread :: nat
  c_open :: "string \<Rightarrow> int"
  c_desc :: nat
  c_base :: "string \<Rightarrow> spdk_bdev"
  c_claim :: int
  c_stat :: "string \<Rightarrow> u64 option"
  c_u32log2 :: "u32 \<Rightarrow> u32"
  c_get_channel :: bool
  c_read :: int
  c_register :: int

definition ubi_fail_create_channel_for_metadata_read :: "bool \<Rightarrow> test_control \<Rightarrow> test_control" where
  "ubi_fail_create_channel_for_metadata_read fail t = t\<lparr>g_fail_create_channel_for_metadata_read := fail\<rparr>"

definition ubi_fail_calloc_ubi_bdev :: "bool \<Rightarrow> test_control \<Rightarrow> test_control" where
  "ubi_fail_calloc_ubi_bdev fail t = t\<lparr>g_fail_calloc_ubi_bdev := fail\<rparr>"

text \<open>Memory from \<^verbatim>\<open>calloc\<close>.\<close>

definition zero_spdk_bdev :: spdk_bdev where
  "zero_spdk_bdev = \<lparr>bdev_name = None, blocklen = 0, blockcnt = 0, write_cache = False,
     optimal_io_boundary = 0, split_on_optimal_io_boundary = False, required_alignment = 0\<rparr>"

definition zero_metadata :: ubi_metadata where
  "zero_metadata = \<lparr>magic = replicate 9 0, versionMajor = (0, 0), versionMinor = (0, 0),
     md_stripe_size_kb = 0, stripe_headers = \<lambda>_ _. 0, padding = \<lambda>_. 0\<rparr>"

definition zero_ubi_bdev :: ubi_bdev where
  "zero_ubi_bdev = \<lparr>bdev = zero_spdk_bdev,
     base_bdev_info = \<lparr>base_bdev = zero_spdk_bdev, base_desc = None\<rparr>, image_path = [],
     stripe_size_kb = 0, stripe_block_count = 0, stripe_shift = 0, data_offset_blocks = 0,
     image_block_count = 0, alignment_bytes = 0, no_sync = False, copy_on_read = False, directio = False,
     stripe_status = \<lambda>_. STRIPE_NOT_FETCHED, metadata = zero_metadata,
     stripes_fetched = 0, stripes_flushed = 0, bdev_thread = 0\<rparr>"

abbreviation hold :: "resource \<Rightarrow> mod_state \<Rightarrow> mod_state" where
  "hold r st \<equiv> st\<lparr>held := add_mset r (held st)\<rparr>"

definition give_back :: "resource \<Rightarrow> mod_state \<Rightarrow> mod_state option" where
  "give_back r st = map_option (\<lambda>h. st\<lparr>held := h\<rparr>) (release r (held st))"

subsection \<open>Finishing\<close>

text \<open>
  \<open>free(NULL)\<close> does nothing, so a name that was not duplicated is not given back.
\<close>

definition ubi_discard :: "ubi_bdev \<Rightarrow> bool \<Rightarrow> mod_state \<Rightarrow> mod_state option" where
  "ubi_discard u registered st = do {
     st \<leftarrow> (if base_desc (base_bdev_info u) \<noteq> None
           then do { st \<leftarrow> give_back R_claim st; give_back R_desc st } else Some st);
     st \<leftarrow> (if registered then give_back R_io_device st else Some st);
     st \<leftarrow> (if bdev_name (bdev u) \<noteq> None then give_back R_name st else Some st);
     give_back R_ubi_bdev st
   }"

definition ubi_finish_create ::
    "create_env \<Rightarrow> int \<Rightarrow> ubi_create_context \<Rightarrow> mod_state \<Rightarrow> mod_state option" where
  "ubi_finish_create env status ctx st = do {
     (status, st) \<leftarrow>
       (if status = 0 then
          (case ctx_ubi_bdev ctx of
             None \<Rightarrow> None
           | Some u \<Rightarrow>
               (let status = c_register env in
                Some (status, if status \<noteq> 0 then st else st\<lparr>g_ubi_bdev_head := g_ubi_bdev_head st @ [u]\<rparr>)))
        else Some (status, st));
     st \<leftarrow> (case ctx_ubi_bdev ctx of
             None \<Rightarrow> Some st
           | Some u \<Rightarrow> if status \<noteq> 0 then ubi_discard u (registered_io_device ctx) st else Some st);
     give_back R_context (st\<lparr>done_calls := done_calls st @ [(ctx_ubi_bdev ctx, status)]\<rparr>)
   }"

subsection \<open>Reading the metadata\<close>

definition ubi_start_read_metadata ::
    "create_env \<Rightarrow> test_control \<Rightarrow> ubi_bdev \<Rightarrow> ubi_create_context \<Rightarrow> mod_state \<Rightarrow> mod_state option" where
  "ubi_start_read_metadata env t u ctx st = do {
     let ctx = ctx\<lparr>ctx_base_ch := \<not> g_fail_create_channel_for_metadata_read t \<and> c_get_channel env\<rparr>;
     if \<not> ctx_base_ch ctx then ubi_finish_create env (- ENOMEM) ctx st
     else do {
       let st = hold R_base_channel st;
       block_cnt \<leftarrow> md_blocks u;
       let ret = c_read env;
       if ret \<noteq> 0 then ubi_finish_create env ret ctx st
       else Some (st\<lparr>reading := reading st @ [ctx]\<rparr>)
     }
   }"

text \<open>
  The callback of that read; \<open>data\<close> are the bytes it stored in the metadata of the bdev.
\<close>

definition ubi_finish_read_metadata ::
    "create_env \<Rightarrow> ubi_create_context \<Rightarrow> bool \<Rightarrow> (nat \<Rightarrow> u8) \<Rightarrow> mod_state \<Rightarrow> mod_state option" where
  "ubi_finish_read_metadata env ctx success data st = do {
     st \<leftarrow> give_back R_base_channel st;
     if \<not> success then ubi_finish_create env (- EIO) ctx st
     else do {
       u \<leftarrow> ctx_ubi_bdev ctx;
       let (status, u) = ubi_load_metadata (u\<lparr>metadata := metadata_of_bytes data\<rparr>);
       ubi_finish_create env status (ctx\<lparr>ctx_ubi_bdev := Some u\<rparr>) st
     }
   }"

subsection \<open>Opening the base bdev\<close>

text \<open>A failed \<^verbatim>\<open>assert\<close> ends the program, like undefined behaviour.\<close>

definition configure_base_bdev ::
    "create_env \<Rightarrow> string \<Rightarrow> ubi_base_bdev_info \<Rightarrow> mod_state \<Rightarrow> (int \<times> ubi_base_bdev_info \<times> mod_state) option" where
  "configure_base_bdev env name base_info st =
     (if c_thread env \<noteq> c_app_thread env then None
      else
        (let rc = c_open env name in
         if rc \<noteq> 0 then Some (rc, base_info, st)
         else do {
           let st = hold R_desc st;
           let rc = c_claim env;
           if rc \<noteq> 0 then do { st \<leftarrow> give_back R_desc st; Some (rc, base_info, st) }
           else Some (0, \<lparr>base_bdev = c_base env name, base_desc = Some (c_desc env)\<rparr>, hold R_claim st)
         }))"

subsection \<open>Creating\<close>

text \<open>The fields that are set from the options and from the base bdev.\<close>

definition ubi_apply_opts :: "spdk_ubi_bdev_opts \<Rightarrow> ubi_bdev \<Rightarrow> ubi_bdev" where
  "ubi_apply_opts opts u = u\<lparr>stripe_size_kb := opt_stripe_size_kb opts, no_sync := opt_no_sync opts,
     copy_on_read := opt_copy_on_read opts, directio := opt_directio opts,
     image_path := take (UBI_PATH_LEN - 1) (opt_image_path opts)\<rparr>"

definition ubi_copy_base :: "create_env \<Rightarrow> ubi_bdev \<Rightarrow> ubi_bdev" where
  "ubi_copy_base env u =
     (let base = base_bdev (base_bdev_info u)
      in u\<lparr>bdev := (bdev u)\<lparr>blocklen := blocklen base,
                            blockcnt := blockcnt base - ucast (data_offset_blocks u),
                            write_cache := write_cache base,
                            optimal_io_boundary := stripe_block_count u,
                            split_on_optimal_io_boundary := True,
                            required_alignment := c_u32log2 env 4096\<rparr>,
           alignment_bytes := 4096\<rparr>)"

definition bdev_ubi_create ::
    "create_env \<Rightarrow> test_control \<Rightarrow> spdk_ubi_bdev_opts option \<Rightarrow> ubi_create_context \<Rightarrow> mod_state \<Rightarrow>
     mod_state option" where
  "bdev_ubi_create env t opts ctx st =
     (case opts of
        None \<Rightarrow> ubi_finish_create env (- EINVAL) ctx st
      | Some opts \<Rightarrow>
          if g_fail_calloc_ubi_bdev t \<or> \<not> c_calloc env then ubi_finish_create env (- ENOMEM) ctx st
          else do {
            let st = hold R_ubi_bdev st;
            let u = zero_ubi_bdev;
            let name = (if c_strdup env then opt_name opts else None);
            let st = (if name \<noteq> None then hold R_name st else st);
            let u = u\<lparr>bdev := (bdev u)\<lparr>bdev_name := name\<rparr>\<rparr>;
            if name = None then ubi_finish_create env (- ENOMEM) (ctx\<lparr>ctx_ubi_bdev := Some u\<rparr>) st
            else do {
              let u = u\<lparr>bdev_thread := c_thread env\<rparr>;
              (rc, info, st) \<leftarrow> configure_base_bdev env (opt_base_bdev_name opts) (base_bdev_info u) st;
              let u = u\<lparr>base_bdev_info := info\<rparr>;
              if rc \<noteq> 0 then ubi_finish_create env rc (ctx\<lparr>ctx_ubi_bdev := Some u\<rparr>) st
              else do {
                (rc, u) \<leftarrow> ubi_init_layout_params (c_stat env) (ubi_apply_opts opts u);
                if rc \<noteq> 0 then ubi_finish_create env rc (ctx\<lparr>ctx_ubi_bdev := Some u\<rparr>) st
                else do {
                  let u = ubi_copy_base env u;
                  ubi_start_read_metadata env t u
                    (ctx\<lparr>ctx_ubi_bdev := Some u, registered_io_device := True\<rparr>) (hold R_io_device st)
                }
              }
            }
          })"

subsection \<open>Deleting\<close>

definition ubi_close_base_bdev :: "mod_state \<Rightarrow> mod_state option" where
  "ubi_close_base_bdev st = give_back R_desc st"

definition device_unregister_cb :: "ubi_bdev \<Rightarrow> mod_state \<Rightarrow> mod_state option" where
  "device_unregister_cb u st = do {
     st \<leftarrow> (if bdev_name (bdev u) \<noteq> None then give_back R_name st else Some st);
     give_back R_ubi_bdev st
   }"

text \<open>
  Registered bdevs are named by their pointer, here by the structure; one that is not in the
  list must not be removed from it.  The thread \<open>0\<close> is the null pointer, and \<open>thread\<close> is the
  one the destructor runs on.
\<close>

definition ubi_destruct :: "nat \<Rightarrow> ubi_bdev \<Rightarrow> mod_state \<Rightarrow> mod_state option" where
  "ubi_destruct thread u st =
     (if u \<notin> set (g_ubi_bdev_head st) then None
      else do {
        let st = st\<lparr>g_ubi_bdev_head := remove1 u (g_ubi_bdev_head st)\<rparr>;
        st \<leftarrow> give_back R_claim st;
        st \<leftarrow> (if bdev_thread u \<noteq> 0 \<and> bdev_thread u \<noteq> thread
              then Some (st\<lparr>msgs := msgs st @ [Msg_close_base_bdev]\<rparr>)
              else ubi_close_base_bdev st);
        st \<leftarrow> give_back R_io_device st;
        Some (st\<lparr>msgs := msgs st @ [Msg_device_unregister u]\<rparr>)
      })"

text \<open>SPDK runs what was sent to a thread, in order.\<close>

fun run_msg :: "mod_msg \<Rightarrow> mod_state \<Rightarrow> mod_state option" where
  "run_msg Msg_close_base_bdev st = ubi_close_base_bdev st"
| "run_msg (Msg_device_unregister u) st = device_unregister_cb u st"

fun run_msgs :: "mod_msg list \<Rightarrow> mod_state \<Rightarrow> mod_state option" where
  "run_msgs [] st = Some st"
| "run_msgs (m # ms) st = do { st \<leftarrow> run_msg m st; run_msgs ms st }"

text \<open>
  \<^verbatim>\<open>bdev_ubi_delete\<close>: \<open>rc\<close> is what \<^verbatim>\<open>spdk_bdev_unregister_by_name\<close> returns; the result is the list
  of calls the module itself makes to the callback.
\<close>

definition bdev_ubi_delete :: "int \<Rightarrow> int list" where
  "bdev_ubi_delete rc = (if rc \<noteq> 0 then [rc] else [])"

subsection \<open>Events of the base bdev\<close>

text \<open>
  SPDK's bdevs have unique names, which stand for their pointers here.
\<close>

fun find_by_base :: "string option \<Rightarrow> ubi_bdev list \<Rightarrow> ubi_bdev option" where
  "find_by_base base [] = None"
| "find_by_base base (u # us) =
     (if bdev_name (base_bdev (base_bdev_info u)) = base then Some u else find_by_base base us)"

definition ubi_bdev_find_by_base_bdev :: "spdk_bdev \<Rightarrow> mod_state \<Rightarrow> ubi_bdev option" where
  "ubi_bdev_find_by_base_bdev base st = find_by_base (bdev_name base) (g_ubi_bdev_head st)"

text \<open>The bdevs on which the module calls \<^verbatim>\<open>spdk_bdev_unregister\<close>.\<close>

definition ubi_handle_base_bdev_remove_event :: "spdk_bdev \<Rightarrow> mod_state \<Rightarrow> ubi_bdev list" where
  "ubi_handle_base_bdev_remove_event base st =
     (case ubi_bdev_find_by_base_bdev base st of None \<Rightarrow> [] | Some u \<Rightarrow> [u])"

datatype spdk_bdev_event_type = SPDK_BDEV_EVENT_REMOVE | SPDK_BDEV_EVENT_RESIZE | SPDK_BDEV_EVENT_MEDIA_MANAGEMENT

definition ubi_handle_base_bdev_event ::
    "spdk_bdev_event_type \<Rightarrow> spdk_bdev \<Rightarrow> mod_state \<Rightarrow> ubi_bdev list" where
  "ubi_handle_base_bdev_event type base st =
     (case type of SPDK_BDEV_EVENT_REMOVE \<Rightarrow> ubi_handle_base_bdev_remove_event base st | _ \<Rightarrow> [])"

subsection \<open>Outcomes of the parts\<close>

definition zero_context :: ubi_create_context where
  "zero_context = \<lparr>ctx_ubi_bdev = None, registered_io_device = False, ctx_base_ch = False\<rparr>"

text \<open>What a registered bdev holds.\<close>

definition bdev_resources :: "resource multiset" where
  "bdev_resources = {#R_ubi_bdev, R_name, R_desc, R_claim, R_io_device#}"

text \<open>What a bdev under construction holds, according to its own fields.\<close>

definition partial_resources :: "ubi_bdev \<Rightarrow> bool \<Rightarrow> resource multiset" where
  "partial_resources u registered = {#R_ubi_bdev#} +
     (if bdev_name (bdev u) \<noteq> None then {#R_name#} else {#}) +
     (if base_desc (base_bdev_info u) \<noteq> None then {#R_claim, R_desc#} else {#}) +
     (if registered then {#R_io_device#} else {#})"

lemma give_back_held: "held st = add_mset r h \<Longrightarrow> give_back r st = Some (st\<lparr>held := h\<rparr>)"
  by (simp add: give_back_def)

lemma ubi_discard_partial:
  assumes "held st = h + partial_resources u reg"
  shows "ubi_discard u reg st = Some (st\<lparr>held := h\<rparr>)"
  using assms by (auto simp: ubi_discard_def partial_resources_def give_back_held)

lemma load_stripes_frame [simp]:
  "bdev (load_stripes n i u) = bdev u" "base_bdev_info (load_stripes n i u) = base_bdev_info u"
  "stripe_shift (load_stripes n i u) = stripe_shift u" "image_block_count (load_stripes n i u) = image_block_count u"
  "stripe_size_kb (load_stripes n i u) = stripe_size_kb u" "image_path (load_stripes n i u) = image_path u"
  "no_sync (load_stripes n i u) = no_sync u" "copy_on_read (load_stripes n i u) = copy_on_read u"
  "directio (load_stripes n i u) = directio u" "alignment_bytes (load_stripes n i u) = alignment_bytes u"
  "stripe_block_count (load_stripes n i u) = stripe_block_count u"
  "data_offset_blocks (load_stripes n i u) = data_offset_blocks u" "bdev_thread (load_stripes n i u) = bdev_thread u"
  by (induction n arbitrary: i u; simp add: load_stripe_def Let_def)+

text \<open>Loading metadata leaves the configuration alone.\<close>

lemma load_metadata_frame:
  assumes "ubi_load_metadata u = (status, u')"
  shows "bdev u' = bdev u" "base_bdev_info u' = base_bdev_info u" "stripe_shift u' = stripe_shift u"
    "image_block_count u' = image_block_count u" "stripe_size_kb u' = stripe_size_kb u" "image_path u' = image_path u"
    "no_sync u' = no_sync u" "copy_on_read u' = copy_on_read u" "directio u' = directio u"
    "alignment_bytes u' = alignment_bytes u" "stripe_block_count u' = stripe_block_count u"
    "data_offset_blocks u' = data_offset_blocks u" "bdev_thread u' = bdev_thread u"
  using assms
  by (auto simp: ubi_load_metadata_def ubi_init_metadata_def Let_def split: if_splits prod.splits
      simp del: UBI_MAX_STRIPES_def)

text \<open>
  The creation ends: the callback runs once and the context is given back.  A bdev that could
  not be registered gives back all it held.
\<close>

lemma finish_create_fail:
  assumes "status \<noteq> 0"
    and "held st = add_mset R_context h +
      (case ctx_ubi_bdev ctx of None \<Rightarrow> {#} | Some u \<Rightarrow> partial_resources u (registered_io_device ctx))"
  shows "ubi_finish_create env status ctx st =
    Some (st\<lparr>held := h, done_calls := done_calls st @ [(ctx_ubi_bdev ctx, status)]\<rparr>)"
  using assms
  by (auto simp: ubi_finish_create_def ubi_discard_partial [where h = "add_mset R_context h"] give_back_held
      split: option.splits)

lemma finish_create_success:
  assumes "ctx_ubi_bdev ctx = Some u"
    and "held st = add_mset R_context h + partial_resources u (registered_io_device ctx)"
  shows "ubi_finish_create env 0 ctx st =
    Some (if c_register env = 0
      then st\<lparr>held := h + partial_resources u (registered_io_device ctx),
             g_ubi_bdev_head := g_ubi_bdev_head st @ [u], done_calls := done_calls st @ [(Some u, 0)]\<rparr>
      else st\<lparr>held := h, done_calls := done_calls st @ [(Some u, c_register env)]\<rparr>)"
  using assms
  by (auto simp: ubi_finish_create_def ubi_discard_partial [where h = "add_mset R_context h"] give_back_held Let_def)

lemma configure_cases:
  assumes "c_thread env = c_app_thread env"
  shows "configure_base_bdev env name info st =
    (if c_open env name \<noteq> 0 then Some (c_open env name, info, st)
     else if c_claim env \<noteq> 0 then Some (c_claim env, info, st)
     else Some (0, \<lparr>base_bdev = c_base env name, base_desc = Some (c_desc env)\<rparr>,
                st\<lparr>held := add_mset R_claim (add_mset R_desc (held st))\<rparr>))"
  using assms by (simp add: configure_base_bdev_def Let_def give_back_def)

lemma start_read_cases:
  assumes "held st = add_mset R_context h + partial_resources u True"
    and "ctx_ubi_bdev ctx = Some u" "registered_io_device ctx" "blocklen (bdev u) \<noteq> 0"
  shows "ubi_start_read_metadata env t u ctx st = Some
    (if g_fail_create_channel_for_metadata_read t \<or> \<not> c_get_channel env
     then st\<lparr>held := h, done_calls := done_calls st @ [(Some u, - ENOMEM)]\<rparr>
     else if c_read env \<noteq> 0
     then st\<lparr>held := add_mset R_base_channel h, done_calls := done_calls st @ [(Some u, c_read env)]\<rparr>
     else st\<lparr>held := add_mset R_base_channel (held st), reading := reading st @ [ctx\<lparr>ctx_base_ch := True\<rparr>]\<rparr>)"
  using assms
  by (auto simp: ubi_start_read_metadata_def md_blocks_def Let_def
      finish_create_fail [where h = h] finish_create_fail [where h = "add_mset R_base_channel h"])

lemma finish_read_cases:
  assumes "held st = add_mset R_base_channel (add_mset R_context h + partial_resources u True)"
    and "ctx_ubi_bdev ctx = Some u" "registered_io_device ctx"
  shows "\<exists>st' status u'. ubi_finish_read_metadata env ctx success data st = Some st' \<and>
     done_calls st' = done_calls st @ [(Some u', status)] \<and> reading st' = reading st \<and> msgs st' = msgs st \<and>
     (if status = 0
      then held st' = h + partial_resources u True \<and> g_ubi_bdev_head st' = g_ubi_bdev_head st @ [u'] \<and>
           success \<and> ubi_load_metadata (u\<lparr>metadata := metadata_of_bytes data\<rparr>) = (0, u')
      else held st' = h \<and> g_ubi_bdev_head st' = g_ubi_bdev_head st)"
proof (cases success)
  case False
  with assms show ?thesis
    by (simp add: ubi_finish_read_metadata_def give_back_held finish_create_fail [where h = h])
next
  case True
  obtain status u' where load: "ubi_load_metadata (u\<lparr>metadata := metadata_of_bytes data\<rparr>) = (status, u')"
    by (metis surj_pair)
  have pr: "partial_resources u' True = partial_resources u True"
    using load_metadata_frame [OF load] by (simp add: partial_resources_def)
  let ?ctx = "ctx\<lparr>ctx_ubi_bdev := Some u'\<rparr>"
  let ?st = "st\<lparr>held := add_mset R_context h + partial_resources u True\<rparr>"
  have run: "ubi_finish_read_metadata env ctx success data st = ubi_finish_create env status ?ctx ?st"
    using True assms load by (simp add: ubi_finish_read_metadata_def give_back_held)
  show ?thesis
  proof (cases "status = 0")
    case True
    then show ?thesis
      using run assms load \<open>success\<close> pr finish_create_success [of ?ctx u' ?st h env]
      by (cases "c_register env = 0") auto
  next
    case False
    then show ?thesis
      using run assms pr finish_create_fail [of status ?st h ?ctx env] by simp
  qed
qed

subsection \<open>The whole creation\<close>

text \<open>The bdev that is handed on to read its metadata.\<close>

definition bare_bdev :: "create_env \<Rightarrow> spdk_ubi_bdev_opts \<Rightarrow> ubi_bdev" where
  "bare_bdev env opts = zero_ubi_bdev\<lparr>bdev := zero_spdk_bdev\<lparr>bdev_name := opt_name opts\<rparr>,
     bdev_thread := c_thread env,
     base_bdev_info := \<lparr>base_bdev = c_base env (opt_base_bdev_name opts), base_desc = Some (c_desc env)\<rparr>\<rparr>"

definition prepared :: "create_env \<Rightarrow> spdk_ubi_bdev_opts \<Rightarrow> ubi_bdev \<Rightarrow> bool" where
  "prepared env opts u \<longleftrightarrow> (\<exists>u1. ubi_init_layout_params (c_stat env) (ubi_apply_opts opts (bare_bdev env opts)) = Some (0, u1) \<and>
     u = ubi_copy_base env u1)"

lemma layout_frame:
  assumes "ubi_init_layout_params st u = Some (rc, u')"
  shows "bdev u' = bdev u" "base_bdev_info u' = base_bdev_info u" "image_path u' = image_path u"
    "stripe_size_kb u' = stripe_size_kb u" "no_sync u' = no_sync u" "copy_on_read u' = copy_on_read u"
    "directio u' = directio u" "metadata u' = metadata u" "stripe_status u' = stripe_status u"
    "stripes_fetched u' = stripes_fetched u" "stripes_flushed u' = stripes_flushed u" "bdev_thread u' = bdev_thread u"
  using assms by (auto simp: ubi_init_layout_params_def Let_def split: option.splits if_splits)

text \<open>How far a creation comes: it has failed and cleaned up, or it waits for its metadata.\<close>

definition create_failed :: "create_env \<Rightarrow> resource multiset \<Rightarrow> mod_state \<Rightarrow> mod_state option \<Rightarrow> bool" where
  "create_failed env h st r \<longleftrightarrow> (\<exists>X u status. status \<noteq> 0 \<and>
     r = Some (st\<lparr>held := X, done_calls := done_calls st @ [(u, status)]\<rparr>) \<and>
     (X = h \<or> c_read env \<noteq> 0 \<and> X = add_mset R_base_channel h))"

definition create_waits ::
    "create_env \<Rightarrow> resource multiset \<Rightarrow> spdk_ubi_bdev_opts option \<Rightarrow> mod_state \<Rightarrow> mod_state option \<Rightarrow> bool" where
  "create_waits env h opts st r \<longleftrightarrow> (\<exists>o' u. opts = Some o' \<and> prepared env o' u \<and>
     partial_resources u True = bdev_resources \<and>
     r = Some (st\<lparr>held := add_mset R_base_channel (add_mset R_context h + bdev_resources),
       reading := reading st @ [\<lparr>ctx_ubi_bdev = Some u, registered_io_device = True, ctx_base_ch = True\<rparr>]\<rparr>))"

lemma create_failed_Some:
  "status \<noteq> 0 \<Longrightarrow> X = h \<or> c_read env \<noteq> 0 \<and> X = add_mset R_base_channel h \<Longrightarrow>
   create_failed env h st (Some (st\<lparr>held := X, done_calls := done_calls st @ [(u, status)]\<rparr>))"
  by (auto simp: create_failed_def)

lemma create_waits_Some:
  "prepared env o' u \<Longrightarrow> partial_resources u True = bdev_resources \<Longrightarrow>
   create_waits env h (Some o') st (Some (st\<lparr>held := add_mset R_base_channel (add_mset R_context h + bdev_resources),
     reading := reading st @ [\<lparr>ctx_ubi_bdev = Some u, registered_io_device = True, ctx_base_ch = True\<rparr>]\<rparr>))"
  by (auto simp: create_waits_def)

lemma create_failedI:
  assumes "status \<noteq> 0" "X = add_mset R_context h +
      (case ctx_ubi_bdev ctx of None \<Rightarrow> {#} | Some u \<Rightarrow> partial_resources u (registered_io_device ctx))"
  shows "create_failed env h st (ubi_finish_create env status ctx (st\<lparr>held := X\<rparr>))"
  using finish_create_fail [of status "st\<lparr>held := X\<rparr>" h ctx env] assms by (auto simp: create_failed_def)

lemma create_layout_stage:
  assumes bl: "blocklen (c_base env (opt_base_bdev_name o')) \<noteq> 0" and name: "opt_name o' \<noteq> None"
    and X: "X = add_mset R_context h + {#R_claim, R_desc, R_name, R_ubi_bdev#}"
    and ctx: "ctx = zero_context"
  defines "u \<equiv> bare_bdev env o'"
  shows "let r = do {
      (rc, u) \<leftarrow> ubi_init_layout_params (c_stat env) (ubi_apply_opts o' u);
      if rc \<noteq> 0 then ubi_finish_create env rc (ctx\<lparr>ctx_ubi_bdev := Some u\<rparr>) (st\<lparr>held := X\<rparr>)
      else
        (let u = ubi_copy_base env u
         in ubi_start_read_metadata env t u (ctx\<lparr>ctx_ubi_bdev := Some u, registered_io_device := True\<rparr>)
              (hold R_io_device (st\<lparr>held := X\<rparr>))) }
    in create_failed env h st r \<or> create_waits env h (Some o') st r"
proof -
  let ?u0 = "ubi_apply_opts o' u"
  have u0: "bdev_name (bdev ?u0) = opt_name o'" "base_desc (base_bdev_info ?u0) = Some (c_desc env)"
    "base_bdev (base_bdev_info ?u0) = c_base env (opt_base_bdev_name o')"
    by (simp_all add: u_def ubi_apply_opts_def bare_bdev_def)
  obtain rc u1 where lay: "ubi_init_layout_params (c_stat env) ?u0 = Some (rc, u1)"
    using layout_outcomes [of ?u0 "c_stat env"] u0(3) bl by auto
  note fr = layout_frame(1,2) [OF lay]
  show ?thesis
  proof (cases "rc = 0")
    case False
    have "create_failed env h st (ubi_finish_create env rc (ctx\<lparr>ctx_ubi_bdev := Some u1\<rparr>) (st\<lparr>held := X\<rparr>))"
      by (rule create_failedI) (use False name u0 fr X ctx in \<open>simp_all add: partial_resources_def zero_context_def\<close>)
    with lay False show ?thesis by (simp add: Let_def)
  next
    case True
    let ?u = "ubi_copy_base env u1"
    let ?ctx = "ctx\<lparr>ctx_ubi_bdev := Some ?u, registered_io_device := True\<rparr>"
    have pr: "partial_resources ?u True = bdev_resources"
      using u0 fr name by (simp add: partial_resources_def bdev_resources_def ubi_copy_base_def Let_def)
    have "blocklen (bdev ?u) \<noteq> 0"
      using u0 fr bl by (simp add: ubi_copy_base_def Let_def)
    then have "ubi_start_read_metadata env t ?u ?ctx (st\<lparr>held := add_mset R_io_device X\<rparr>) = Some
      (if g_fail_create_channel_for_metadata_read t \<or> \<not> c_get_channel env
       then st\<lparr>held := h, done_calls := done_calls st @ [(Some ?u, - ENOMEM)]\<rparr>
       else if c_read env \<noteq> 0
       then st\<lparr>held := add_mset R_base_channel h, done_calls := done_calls st @ [(Some ?u, c_read env)]\<rparr>
       else st\<lparr>held := add_mset R_base_channel (add_mset R_io_device X), reading := reading st @ [?ctx\<lparr>ctx_base_ch := True\<rparr>]\<rparr>)"
      using start_read_cases [of "st\<lparr>held := add_mset R_io_device X\<rparr>" h ?u ?ctx env t] pr X
      by (simp add: bdev_resources_def)
    moreover have "prepared env o' ?u"
      using lay True u_def by (auto simp: prepared_def)
    moreover have "add_mset R_io_device X = add_mset R_context h + bdev_resources"
      by (simp add: X bdev_resources_def)
    ultimately show ?thesis
      using lay True pr ctx
        create_failed_Some [of "- ENOMEM" h h env st "Some ?u"]
        create_failed_Some [of "c_read env" "add_mset R_base_channel h" h env st "Some ?u"]
        create_waits_Some [of env o' ?u h st]
      by (simp add: Let_def zero_context_def)
  qed
qed

lemma create_cases:
  fixes t :: test_control
  assumes held: "held st = add_mset R_context h" and thread: "c_thread env = c_app_thread env"
    and bl: "\<And>o'. opts = Some o' \<Longrightarrow> blocklen (c_base env (opt_base_bdev_name o')) \<noteq> 0"
  defines "r \<equiv> bdev_ubi_create env t opts zero_context st"
  shows "create_failed env h st r \<or> create_waits env h opts st r"
proof -
  have st: "st\<lparr>held := add_mset R_context h\<rparr> = st" using held by simp
  show ?thesis
  proof (cases "opts = None \<or> g_fail_calloc_ubi_bdev t \<or> \<not> c_calloc env")
    case True
    then have "r = ubi_finish_create env (if opts = None then - EINVAL else - ENOMEM) zero_context
        (st\<lparr>held := add_mset R_context h\<rparr>)"
      by (auto simp: r_def bdev_ubi_create_def st split: option.splits)
    then show ?thesis using create_failedI [of _ "add_mset R_context h" h zero_context env st]
      by (simp add: zero_context_def)
  next
    case False
    then obtain o' where o': "opts = Some o'" by auto
    show ?thesis
    proof (cases "c_strdup env \<and> opt_name o' \<noteq> None")
      case False': False
      let ?u = "zero_ubi_bdev\<lparr>bdev := (bdev zero_ubi_bdev)\<lparr>bdev_name := None\<rparr>\<rparr>"
      have "r = ubi_finish_create env (- ENOMEM) (zero_context\<lparr>ctx_ubi_bdev := Some ?u\<rparr>)
          (st\<lparr>held := add_mset R_ubi_bdev (add_mset R_context h)\<rparr>)"
        using False False' held by (auto simp: r_def bdev_ubi_create_def o' Let_def)
      then show ?thesis
        by (auto simp: partial_resources_def zero_ubi_bdev_def zero_context_def intro!: create_failedI)
    next
      case True
      then obtain nm where nm: "opt_name o' = Some nm" by auto
      let ?X = "add_mset R_name (add_mset R_ubi_bdev (add_mset R_context h))"
      let ?u = "zero_ubi_bdev\<lparr>bdev := (bdev zero_ubi_bdev)\<lparr>bdev_name := opt_name o'\<rparr>, bdev_thread := c_thread env\<rparr>"
      have fin: "create_failed env h st (ubi_finish_create env rc (zero_context\<lparr>ctx_ubi_bdev := Some ?u\<rparr>) (st\<lparr>held := ?X\<rparr>))"
        if "rc \<noteq> 0" for rc
        by (rule create_failedI) (use that True in \<open>simp_all add: partial_resources_def zero_ubi_bdev_def zero_context_def\<close>)
      have info: "?u\<lparr>base_bdev_info := base_bdev_info ?u\<rparr> = ?u"
        "?u\<lparr>base_bdev_info := \<lparr>base_bdev = c_base env (opt_base_bdev_name o'), base_desc = Some (c_desc env)\<rparr>\<rparr> = bare_bdev env o'"
        by (simp_all add: bare_bdev_def zero_ubi_bdev_def)
      let ?name = "opt_base_bdev_name o'"
      let ?Y = "add_mset R_claim (add_mset R_desc ?X)"
      let ?layout = "do {
          (rc, u) \<leftarrow> ubi_init_layout_params (c_stat env) (ubi_apply_opts o' (bare_bdev env o'));
          if rc \<noteq> 0 then ubi_finish_create env rc (zero_context\<lparr>ctx_ubi_bdev := Some u\<rparr>) (st\<lparr>held := ?Y\<rparr>)
          else
            (let u = ubi_copy_base env u
             in ubi_start_read_metadata env t u (zero_context\<lparr>ctx_ubi_bdev := Some u, registered_io_device := True\<rparr>)
                  (hold R_io_device (st\<lparr>held := ?Y\<rparr>))) }"
      have r: "r = (if c_open env ?name \<noteq> 0 then
            ubi_finish_create env (c_open env ?name) (zero_context\<lparr>ctx_ubi_bdev := Some ?u\<rparr>) (st\<lparr>held := ?X\<rparr>)
          else if c_claim env \<noteq> 0 then
            ubi_finish_create env (c_claim env) (zero_context\<lparr>ctx_ubi_bdev := Some ?u\<rparr>) (st\<lparr>held := ?X\<rparr>)
          else ?layout)"
        using False True held nm
        by (simp add: r_def bdev_ubi_create_def o' Let_def configure_cases [OF thread] info [unfolded nm])
      have "create_failed env h st ?layout \<or> create_waits env h opts st ?layout"
        using create_layout_stage [OF bl [OF o'] _ _ refl, of "?Y" h st t] True
        unfolding Let_def o' by (simp add: add_mset_commute)
      then show ?thesis unfolding r using fin by auto
    qed
  qed
qed

text \<open>A creation with the completion of its metadata read, if it gets that far.\<close>

definition bdev_ubi_create_run ::
    "create_env \<Rightarrow> test_control \<Rightarrow> spdk_ubi_bdev_opts option \<Rightarrow> bool \<Rightarrow> (nat \<Rightarrow> u8) \<Rightarrow> mod_state \<Rightarrow> mod_state option" where
  "bdev_ubi_create_run env t opts success data st = do {
     st \<leftarrow> bdev_ubi_create env t opts zero_context st;
     (case reading st of
        [] \<Rightarrow> Some st
      | ctx # rest \<Rightarrow> ubi_finish_read_metadata env ctx success data (st\<lparr>reading := rest\<rparr>))
   }"

lemma create_run_cases:
  assumes "held st = add_mset R_context h" "reading st = []" "c_thread env = c_app_thread env"
    and bl: "\<forall>o'. opts = Some o' \<longrightarrow> blocklen (c_base env (opt_base_bdev_name o')) \<noteq> 0"
  shows "\<exists>st' u status. bdev_ubi_create_run env t opts success data st = Some st' \<and>
     done_calls st' = done_calls st @ [(u, status)] \<and> reading st' = [] \<and> msgs st' = msgs st \<and>
     (if status = 0
      then held st' = h + bdev_resources \<and>
        (\<exists>o' v u'. opts = Some o' \<and> prepared env o' v \<and> partial_resources v True = bdev_resources \<and> u = Some u' \<and>
           g_ubi_bdev_head st' = g_ubi_bdev_head st @ [u'] \<and>
           ubi_load_metadata (v\<lparr>metadata := metadata_of_bytes data\<rparr>) = (0, u'))
      else g_ubi_bdev_head st' = g_ubi_bdev_head st \<and>
        (held st' = h \<or> c_read env \<noteq> 0 \<and> held st' = add_mset R_base_channel h))"
proof -
  let ?r = "bdev_ubi_create env t opts zero_context st"
  have "blocklen (c_base env (opt_base_bdev_name o')) \<noteq> 0" if "opts = Some o'" for o'
    using bl that by blast
  from create_cases [OF assms(1,3) this, of opts t]
  consider (fail) "create_failed env h st ?r" | (wait) "create_waits env h opts st ?r" by auto
  then show ?thesis
  proof cases
    case fail
    then obtain X u status where "status \<noteq> 0"
      "?r = Some (st\<lparr>held := X, done_calls := done_calls st @ [(u, status)]\<rparr>)"
      "X = h \<or> c_read env \<noteq> 0 \<and> X = add_mset R_base_channel h"
      by (auto simp: create_failed_def)
    then show ?thesis using assms(2)
      by (intro exI [of _ "st\<lparr>held := X, done_calls := done_calls st @ [(u, status)]\<rparr>"] exI [of _ u] exI [of _ status])
        (auto simp: bdev_ubi_create_run_def)
  next
    case wait
    then obtain o' v where v: "opts = Some o'" "prepared env o' v" "partial_resources v True = bdev_resources"
      and r: "?r = Some (st\<lparr>held := add_mset R_base_channel (add_mset R_context h + bdev_resources),
         reading := reading st @ [\<lparr>ctx_ubi_bdev = Some v, registered_io_device = True, ctx_base_ch = True\<rparr>]\<rparr>)"
      by (auto simp: create_waits_def)
    let ?ctx = "\<lparr>ctx_ubi_bdev = Some v, registered_io_device = True, ctx_base_ch = True\<rparr>"
    let ?st = "st\<lparr>held := add_mset R_base_channel (add_mset R_context h + bdev_resources), reading := []\<rparr>"
    have run: "bdev_ubi_create_run env t opts success data st = ubi_finish_read_metadata env ?ctx success data ?st"
      using r assms(2) by (simp add: bdev_ubi_create_run_def)
    have "held ?st = add_mset R_base_channel (add_mset R_context h + partial_resources v True)"
      using v(3) by simp
    from finish_read_cases [OF this, of ?ctx env success data] obtain st' status u' where
      st': "ubi_finish_read_metadata env ?ctx success data ?st = Some st'"
      "done_calls st' = done_calls ?st @ [(Some u', status)]" "reading st' = []" "msgs st' = msgs st"
      "if status = 0
       then held st' = h + partial_resources v True \<and> g_ubi_bdev_head st' = g_ubi_bdev_head ?st @ [u'] \<and>
            success \<and> ubi_load_metadata (v\<lparr>metadata := metadata_of_bytes data\<rparr>) = (0, u')
       else held st' = h \<and> g_ubi_bdev_head st' = g_ubi_bdev_head ?st"
      by auto
    then show ?thesis using run v by (cases "status = 0") auto
  qed
qed

lemma create_run_success:
  assumes "held st = add_mset R_context h" "reading st = []" "c_thread env = c_app_thread env"
    and "blocklen (c_base env (opt_base_bdev_name opts)) \<noteq> 0"
    and run: "bdev_ubi_create_run env t (Some opts) success data st = Some st'"
    and calls: "done_calls st' = done_calls st @ [(u, 0)]"
  obtains v u' where "u = Some u'" "held st' = h + bdev_resources" "msgs st' = msgs st" "prepared env opts v"
    "partial_resources v True = bdev_resources" "g_ubi_bdev_head st' = g_ubi_bdev_head st @ [u']"
    "ubi_load_metadata (v\<lparr>metadata := metadata_of_bytes data\<rparr>) = (0, u')"
proof -
  have bl: "\<forall>o'. Some opts = Some o' \<longrightarrow> blocklen (c_base env (opt_base_bdev_name o')) \<noteq> 0"
    using assms(4) by simp
  obtain st1 u1 status where o: "bdev_ubi_create_run env t (Some opts) success data st = Some st1"
    "done_calls st1 = done_calls st @ [(u1, status)]" "msgs st1 = msgs st"
    and s: "if status = 0
      then held st1 = h + bdev_resources \<and>
        (\<exists>o' v u'. Some opts = Some o' \<and> prepared env o' v \<and> partial_resources v True = bdev_resources \<and> u1 = Some u' \<and>
           g_ubi_bdev_head st1 = g_ubi_bdev_head st @ [u'] \<and>
           ubi_load_metadata (v\<lparr>metadata := metadata_of_bytes data\<rparr>) = (0, u'))
      else g_ubi_bdev_head st1 = g_ubi_bdev_head st \<and>
        (held st1 = h \<or> c_read env \<noteq> 0 \<and> held st1 = add_mset R_base_channel h)"
    using create_run_cases [OF assms(1-3) bl, of t success data] by blast
  have "st1 = st'" "u1 = u" "status = 0" using o run calls by simp_all
  with o s that show ?thesis by auto
qed

lemma destruct_gives_back:
  assumes "u \<in> set (g_ubi_bdev_head st)" "held st = h + bdev_resources" "msgs st = []" "bdev_name (bdev u) \<noteq> None"
  shows "\<exists>st1 st2. ubi_destruct thread u st = Some st1 \<and> run_msgs (msgs st1) (st1\<lparr>msgs := []\<rparr>) = Some st2 \<and>
     held st2 = h \<and> g_ubi_bdev_head st2 = remove1 u (g_ubi_bdev_head st) \<and> done_calls st2 = done_calls st"
  using assms
  by (cases "bdev_thread u \<noteq> 0 \<and> bdev_thread u \<noteq> thread")
    (auto simp: ubi_destruct_def bdev_resources_def ubi_close_base_bdev_def device_unregister_cb_def give_back_def Let_def)

subsection \<open>A created bdev is ready for I/O\<close>

lemma prepared_fields:
  assumes "prepared env o' v"
  shows "geometry_ok v" "alignment_bytes v = 4096" "stripe_status v = (\<lambda>_. STRIPE_NOT_FETCHED)"
    "stripes_fetched v = 0" "stripes_flushed v = 0" "blocklen (bdev v) = blocklen (base_bdev (base_bdev_info v))"
    "blocklen (bdev v) \<noteq> 0" "unat (stripe_shift v) \<le> 20"
    "optimal_io_boundary (bdev v) = stripe_block_count v" "split_on_optimal_io_boundary (bdev v)"
proof -
  obtain u1 where lay: "ubi_init_layout_params (c_stat env) (ubi_apply_opts o' (bare_bdev env o')) = Some (0, u1)"
    and v: "v = ubi_copy_base env u1"
    using assms by (auto simp: prepared_def)
  note fr = layout_frame [OF lay]
  have "geometry_ok u1" by (rule ubi_init_layout_params_geometry [OF lay])
  moreover have "base_bdev_info v = base_bdev_info u1" "stripe_size_kb v = stripe_size_kb u1"
    "stripe_shift v = stripe_shift u1" "stripe_block_count v = stripe_block_count u1"
    "data_offset_blocks v = data_offset_blocks u1"
    by (simp_all add: v ubi_copy_base_def Let_def)
  ultimately show g: "geometry_ok v" by (simp only: geometry_ok_def)
  show "alignment_bytes v = 4096" "blocklen (bdev v) = blocklen (base_bdev (base_bdev_info v))"
    "optimal_io_boundary (bdev v) = stripe_block_count v" "split_on_optimal_io_boundary (bdev v)"
    by (simp_all add: v ubi_copy_base_def Let_def)
  then show "blocklen (bdev v) \<noteq> 0" "unat (stripe_shift v) \<le> 20"
    using g by (auto simp: geometry_ok_def Let_def)
  show "stripe_status v = (\<lambda>_. STRIPE_NOT_FETCHED)" "stripes_fetched v = 0" "stripes_flushed v = 0"
    using fr by (simp_all add: v ubi_copy_base_def Let_def ubi_apply_opts_def bare_bdev_def zero_ubi_bdev_def)
qed

lemma prepared_config:
  assumes "prepared env o' v"
  shows "bdev_name (bdev v) = opt_name o'" "base_bdev (base_bdev_info v) = c_base env (opt_base_bdev_name o')"
    "image_path v = take (UBI_PATH_LEN - 1) (opt_image_path o')" "stripe_size_kb v = opt_stripe_size_kb o'"
    "no_sync v = opt_no_sync o'" "copy_on_read v = opt_copy_on_read o'" "directio v = opt_directio o'"
proof -
  obtain u1 where lay: "ubi_init_layout_params (c_stat env) (ubi_apply_opts o' (bare_bdev env o')) = Some (0, u1)"
    and v: "v = ubi_copy_base env u1"
    using assms by (auto simp: prepared_def)
  note fr = layout_frame [OF lay]
  show "bdev_name (bdev v) = opt_name o'" "base_bdev (base_bdev_info v) = c_base env (opt_base_bdev_name o')"
    "image_path v = take (UBI_PATH_LEN - 1) (opt_image_path o')" "stripe_size_kb v = opt_stripe_size_kb o'"
    "no_sync v = opt_no_sync o'" "copy_on_read v = opt_copy_on_read o'" "directio v = opt_directio o'"
    using fr by (simp_all add: v ubi_copy_base_def Let_def ubi_apply_opts_def bare_bdev_def)
qed

text \<open>
  Two limits the code does not check, and the assumption that a new disk has no stale
  headers, make a created bdev satisfy the precondition of the I/O path.
\<close>

definition within_limits :: "ubi_bdev \<Rightarrow> bool" where
  "within_limits u \<longleftrightarrow> image_stripes u \<le> 32767 \<and>
     unat (blockcnt (bdev u)) \<le> UBI_MAX_STRIPES * 2 ^ unat (stripe_shift u)"

lemma loaded_bdev_ok:
  assumes v: "prepared env o' v" and load: "ubi_load_metadata (v\<lparr>metadata := m\<rparr>) = (0, u)"
    and lim: "within_limits u" and new: "ubi_new_disk (magic m) \<Longrightarrow> header_set m = {}"
  shows "bdev_ok u \<and> inflight_set u = {}"
proof -
  note pf = prepared_fields [OF v] and fr = load_metadata_frame [OF load]
  have conf: "conf_ok u"
    using lim pf fr by (simp add: conf_ok_def within_limits_def)
  show ?thesis
  proof (cases "ubi_new_disk (magic m)")
    case True
    then have u: "u = ubi_init_metadata (v\<lparr>metadata := m\<rparr>)" using load by (simp add: ubi_load_metadata_def)
    have "header_set (metadata u) = {}" "fetched_set u = {}" "inflight_set u = {}"
      using new [OF True] pf
      by (simp_all add: u header_set_def init_metadata_valid fetched_set_def inflight_set_def)
    moreover have "stripes_fetched u = 0" "stripes_flushed u = 0"
      using pf by (simp_all add: u ubi_init_metadata_def Let_def)
    ultimately show ?thesis using conf by (simp add: bdev_ok_def)
  next
    case False
    let ?v = "v\<lparr>metadata := m\<rparr>"
    have u: "u = load_stripes UBI_MAX_STRIPES 0 ?v"
      using False load by (auto simp: ubi_load_metadata_def split: if_splits prod.splits simp del: UBI_MAX_STRIPES_def)
    have md: "metadata u = m" by (simp add: u del: UBI_MAX_STRIPES_def)
    note ld = load_all_stripes [of ?v, folded u]
    have "stripe_status u i \<noteq> STRIPE_INFLIGHT" if "i < UBI_MAX_STRIPES" for i
      using that ld(4) ld(1) [unfolded fetched_set_def set_eq_iff, THEN spec, of i] by auto
    then have "inflight_set u = {}" by (auto simp: inflight_set_def)
    moreover have "unat (stripes_fetched u) = card (fetched_set u)" "stripes_flushed u = stripes_fetched u"
      using ld(1-3) pf unat_card_headers [of m] by simp_all
    ultimately show ?thesis using conf ld(1) md by (simp add: bdev_ok_def)
  qed
qed

subsection \<open>Properties\<close>

text \<open>
  C18: creating a bdev, whatever SPDK, the allocator and the kernel answer and whatever the
  disk holds: no resource is given back twice, \<^verbatim>\<open>done_fn\<close> is called exactly once, as the
  comment of \<^verbatim>\<open>bdev_ubi_create\<close> promises.  If the status is zero the bdev is registered and holds
  exactly its memory, name, descriptor, claim and I/O device.  Otherwise the registry is
  unchanged and everything was given back, except for the channel of the metadata read when
  that read could not be submitted.
\<close>

theorem create_outcome:
  assumes "held st = add_mset R_context h" and "reading st = []" and "c_thread env = c_app_thread env"
    and "blocklen (c_base env (opt_base_bdev_name opts)) \<noteq> 0"
  shows "\<exists>st' u status. bdev_ubi_create_run env t (Some opts) success data st = Some st' \<and>
     done_calls st' = done_calls st @ [(u, status)] \<and> reading st' = [] \<and>
     (if status = 0
      then held st' = h + bdev_resources \<and> (\<exists>u'. u = Some u' \<and> g_ubi_bdev_head st' = g_ubi_bdev_head st @ [u'])
      else g_ubi_bdev_head st' = g_ubi_bdev_head st \<and>
        (held st' = h \<or> c_read env \<noteq> 0 \<and> held st' = add_mset R_base_channel h))"
proof -
  have bl: "\<forall>o'. Some opts = Some o' \<longrightarrow> blocklen (c_base env (opt_base_bdev_name o')) \<noteq> 0"
    using assms(4) by simp
  show ?thesis
    using create_run_cases [OF assms(1-3) bl, of t success data] by (elim exE conjE) (auto split: if_splits)
qed

definition demo_create_env :: create_env where
  "demo_create_env = \<lparr>c_calloc = True, c_strdup = True, c_thread = 1, c_app_thread = 1, c_open = \<lambda>_. 0,
     c_desc = 1, c_base = \<lambda>n. demo_base\<lparr>bdev_name := Some n\<rparr>, c_claim = 0, c_stat = \<lambda>_. Some 1048576, c_u32log2 = \<lambda>_. 12,
     c_get_channel = True, c_read = 0, c_register = 0\<rparr>"

definition demo_opts :: spdk_ubi_bdev_opts where
  "demo_opts = \<lparr>opt_name = Some ''ubi0'', opt_image_path = ''image'', opt_base_bdev_name = ''base'',
     opt_stripe_size_kb = 64, opt_no_sync = False, opt_copy_on_read = True, opt_directio = True\<rparr>"

definition demo_mod :: mod_state where
  "demo_mod = \<lparr>held = {#R_context#}, g_ubi_bdev_head = [], reading = [], done_calls = [], msgs = []\<rparr>"

lemma demo_create_hyps:
  "held demo_mod = add_mset R_context {#}" "reading demo_mod = []" "msgs demo_mod = []"
  "c_thread demo_create_env = c_app_thread demo_create_env"
  "blocklen (c_base demo_create_env (opt_base_bdev_name demo_opts)) \<noteq> 0"
  by (simp_all add: demo_mod_def demo_create_env_def demo_base_def)

text \<open>The run on a zeroed disk succeeds.\<close>

lemma demo_log2: "log2_loop 128 0 = 7"
  using log2_loop_power [of 7 0] by simp

lemma demo_create_limits:
  obtains st' u where
    "bdev_ubi_create_run demo_create_env no_faults (Some demo_opts) True (\<lambda>_. 0) demo_mod = Some st'"
    "done_calls st' = done_calls demo_mod @ [(Some u, 0)]"
    "within_limits u"
proof -
  have "\<exists>st' u. bdev_ubi_create_run demo_create_env no_faults (Some demo_opts) True (\<lambda>_. 0) demo_mod = Some st' \<and>
     done_calls st' = done_calls demo_mod @ [(Some u, 0)] \<and> within_limits u"
    by (simp add: bdev_ubi_create_run_def bdev_ubi_create_def demo_create_env_def no_faults_def demo_opts_def demo_mod_def
        configure_base_bdev_def ubi_init_layout_params_def ubi_apply_opts_def demo_base_def Let_def demo_log2
        ubi_start_read_metadata_def md_blocks_def ubi_copy_base_def ubi_finish_read_metadata_def zero_context_def
        give_back_def ubi_load_metadata_def metadata_of_bytes_def ubi_finish_create_def ubi_new_disk_iff
        within_limits_def image_stripes_def ubi_init_metadata_def)
  then show ?thesis using that by (elim exE conjE)
qed

lemma demo_create_success:
  obtains st' u where
    "bdev_ubi_create_run demo_create_env no_faults (Some demo_opts) True (\<lambda>_. 0) demo_mod = Some st'"
    "done_calls st' = done_calls demo_mod @ [(Some u, 0)]"
  by (rule demo_create_limits)

theorem create_outcome_witness:
  "\<exists>st' u. bdev_ubi_create_run demo_create_env no_faults (Some demo_opts) True (\<lambda>_. 0) demo_mod = Some st' \<and>
     done_calls st' = [(Some u, 0)] \<and> held st' = bdev_resources \<and> g_ubi_bdev_head st' = [u]"
proof -
  obtain st' u where st': "bdev_ubi_create_run demo_create_env no_faults (Some demo_opts) True (\<lambda>_. 0) demo_mod = Some st'"
    "done_calls st' = done_calls demo_mod @ [(Some u, 0)]"
    by (rule demo_create_success)
  have "done_calls demo_mod = []" "g_ubi_bdev_head demo_mod = []" by (simp_all add: demo_mod_def)
  with create_outcome [OF demo_create_hyps(1,2,4,5), of no_faults True "\<lambda>_. 0"] st' show ?thesis
    by (simp split: if_splits)
qed

lemma bdev_resources_name:
  "partial_resources v True = bdev_resources \<Longrightarrow> bdev_name (bdev v) \<noteq> None"
  by (auto simp: partial_resources_def bdev_resources_def split: if_splits)

text \<open>
  C19: deleting undoes creating.  After a successful creation the destructor, on whichever
  thread it runs, followed by the messages it sends, takes the bdev out of the registry and
  gives back everything the creation acquired, each resource exactly once.
\<close>

theorem destruct_undoes_create:
  assumes "held st = add_mset R_context h" and "reading st = []" and "msgs st = []"
    and "c_thread env = c_app_thread env"
    and "blocklen (c_base env (opt_base_bdev_name opts)) \<noteq> 0"
    and "bdev_ubi_create_run env t (Some opts) success data st = Some st'"
    and "done_calls st' = done_calls st @ [(Some u, 0)]"
  shows "\<exists>st1 st2. ubi_destruct thread u st' = Some st1 \<and> run_msgs (msgs st1) (st1\<lparr>msgs := []\<rparr>) = Some st2 \<and>
     held st2 = h \<and> mset (g_ubi_bdev_head st2) = mset (g_ubi_bdev_head st)"
proof -
  obtain v u' where v: "Some u = Some u'" and st': "held st' = h + bdev_resources" "msgs st' = msgs st"
    "partial_resources v True = bdev_resources" "g_ubi_bdev_head st' = g_ubi_bdev_head st @ [u']"
    "ubi_load_metadata (v\<lparr>metadata := metadata_of_bytes data\<rparr>) = (0, u')"
    by (rule create_run_success [OF assms(1,2,4-7)])
  have "bdev_name (bdev u) \<noteq> None"
    using bdev_resources_name [OF st'(3)] load_metadata_frame(1) [OF st'(5)] v by simp
  with destruct_gives_back [of u st' h thread] st' v assms(3) show ?thesis by auto
qed

theorem destruct_undoes_create_witness:
  "\<exists>st' u st1 st2.
     bdev_ubi_create_run demo_create_env no_faults (Some demo_opts) True (\<lambda>_. 0) demo_mod = Some st' \<and>
     ubi_destruct 7 u st' = Some st1 \<and> run_msgs (msgs st1) (st1\<lparr>msgs := []\<rparr>) = Some st2 \<and>
     held st2 = {#} \<and> g_ubi_bdev_head st2 = []"
proof -
  obtain st' u where st': "bdev_ubi_create_run demo_create_env no_faults (Some demo_opts) True (\<lambda>_. 0) demo_mod = Some st'"
    "done_calls st' = done_calls demo_mod @ [(Some u, 0)]"
    by (rule demo_create_success)
  from destruct_undoes_create [OF demo_create_hyps st', of 7] st'(1) show ?thesis
    by (auto simp: demo_mod_def)
qed

text \<open>
  The channel that was opened to read the metadata is leaked when the read cannot be
  submitted: everything else is given back, the channel stays held and no callback will ever
  give it back.
\<close>

theorem failed_metadata_read_leaks_channel:
  assumes "held st = add_mset R_context h + partial_resources u True"
    and "ctx_ubi_bdev ctx = Some u" and "registered_io_device ctx" and "blocklen (bdev u) \<noteq> 0"
    and "\<not> g_fail_create_channel_for_metadata_read t" and "c_get_channel env" and "c_read env \<noteq> 0"
  shows "\<exists>st'. ubi_start_read_metadata env t u ctx st = Some st' \<and> held st' = add_mset R_base_channel h \<and>
     reading st' = reading st \<and> done_calls st' = done_calls st @ [(Some u, c_read env)]"
  using start_read_cases [OF assms(1-4), of env t] assms(5-7) by simp

theorem failed_metadata_read_leaks_channel_witness:
  "let env = demo_create_env\<lparr>c_read := - ENOMEM\<rparr>;
       ctx = zero_context\<lparr>ctx_ubi_bdev := Some demo_ubi, registered_io_device := True\<rparr>;
       st = demo_mod\<lparr>held := add_mset R_context {#} + partial_resources demo_ubi True\<rparr>
   in \<exists>st'. ubi_start_read_metadata env no_faults demo_ubi ctx st = Some st' \<and> held st' = {#R_base_channel#} \<and>
        done_calls st' = [(Some demo_ubi, - ENOMEM)]"
proof -
  let ?env = "demo_create_env\<lparr>c_read := - ENOMEM\<rparr>"
  let ?ctx = "zero_context\<lparr>ctx_ubi_bdev := Some demo_ubi, registered_io_device := True\<rparr>"
  let ?st = "demo_mod\<lparr>held := add_mset R_context {#} + partial_resources demo_ubi True\<rparr>"
  have "\<exists>st'. ubi_start_read_metadata ?env no_faults demo_ubi ?ctx ?st = Some st' \<and>
     held st' = add_mset R_base_channel {#} \<and> reading st' = reading ?st \<and>
     done_calls st' = done_calls ?st @ [(Some demo_ubi, c_read ?env)]"
    by (rule failed_metadata_read_leaks_channel)
      (simp_all add: demo_create_env_def no_faults_def demo_simps)
  then show ?thesis by (auto simp: Let_def demo_mod_def demo_create_env_def)
qed

lemma find_by_base_filter:
  "find_by_base n us =
     (case filter (\<lambda>u. bdev_name (base_bdev (base_bdev_info u)) = n) us of [] \<Rightarrow> None | u # _ \<Rightarrow> Some u)"
  by (induction us) auto

lemma distinct_map_filter_le: "distinct (map f us) \<Longrightarrow> length (filter (\<lambda>u. f u = n) us) \<le> 1"
proof (induction us)
  case (Cons v us)
  have "filter (\<lambda>u. f u = n) us = []" if "f v = n"
    using Cons.prems that by (auto simp: filter_empty_conv image_iff)
  with Cons show ?case by auto
qed simp

text \<open>
  C22: when a base bdev is removed, the module unregisters exactly the bdev that was created on
  it, provided no two registered bdevs share a base, which the exclusive claim ensures; for a
  base it does not know, and for every other event, it does nothing.
\<close>

theorem remove_event_unregisters_owner:
  assumes "distinct (map (\<lambda>u. bdev_name (base_bdev (base_bdev_info u))) (g_ubi_bdev_head st))"
  shows "set (ubi_handle_base_bdev_event type base st) =
     {u \<in> set (g_ubi_bdev_head st). type = SPDK_BDEV_EVENT_REMOVE \<and>
        bdev_name (base_bdev (base_bdev_info u)) = bdev_name base} \<and>
     length (ubi_handle_base_bdev_event type base st) \<le> 1"
proof -
  let ?us = "filter (\<lambda>u. bdev_name (base_bdev (base_bdev_info u)) = bdev_name base) (g_ubi_bdev_head st)"
  have one: "length ?us \<le> 1" by (rule distinct_map_filter_le [OF assms])
  have "ubi_handle_base_bdev_event type base st = (if type = SPDK_BDEV_EVENT_REMOVE then ?us else [])"
    using one by (cases type; cases ?us)
      (simp_all add: ubi_handle_base_bdev_event_def ubi_handle_base_bdev_remove_event_def
        ubi_bdev_find_by_base_bdev_def find_by_base_filter)
  with one show ?thesis by simp
qed

theorem remove_event_unregisters_owner_witness:
  "set (ubi_handle_base_bdev_event SPDK_BDEV_EVENT_REMOVE demo_base (demo_mod\<lparr>g_ubi_bdev_head := [demo_ubi]\<rparr>)) = {demo_ubi}"
proof -
  have "distinct (map (\<lambda>u. bdev_name (base_bdev (base_bdev_info u))) (g_ubi_bdev_head (demo_mod\<lparr>g_ubi_bdev_head := [demo_ubi]\<rparr>)))"
    by simp
  note remove_event_unregisters_owner [OF this, of SPDK_BDEV_EVENT_REMOVE demo_base]
  moreover have "bdev_name (base_bdev (base_bdev_info demo_ubi)) = bdev_name demo_base"
    by (simp add: demo_ubi_def demo_ubi0_def)
  ultimately show ?thesis by (simp add: Collect_conv_if)
qed

end
