(* ===== verification/Ubi_Restart.thy ===== *)
theory Ubi_Restart
  imports Ubi_Share Ubi_Create
begin

section \<open>Crashes and restarts\<close>

text \<open>
  The metadata on the base bdev while channels serve requests: only metadata writes touch it,
  and it never claims a stripe that is not there.  So a bdev that is created again on the same
  disk after a crash shows, stripe by stripe, what the client saw last or the image, and after
  a metadata write that was not overtaken by a fetch all of what the client saw.  The base bdev
  is taken to keep what it has completed.
\<close>

subsection \<open>Metadata a restart accepts\<close>

definition md_valid :: "ubi_metadata \<Rightarrow> bool" where
  "md_valid m \<longleftrightarrow> magic m = UBI_MAGIC \<and> ubi_get_version m = (UBI_VERSION_MAJOR, UBI_VERSION_MINOR)"

definition disk_ok :: "ubi_bdev \<Rightarrow> bytes \<Rightarrow> bool" where
  "disk_ok u x \<longleftrightarrow> header_set (metadata_of_bytes x) \<subseteq> fetched_set u \<and>
     (ubi_new_disk (magic (metadata_of_bytes x)) \<or> md_valid (metadata_of_bytes x))"

definition saved :: "ubi_bdev \<Rightarrow> ubi_metadata \<Rightarrow> bool" where
  "saved u m \<longleftrightarrow> md_valid m \<and> header_set m \<subseteq> fetched_set u"

abbreviation md_reqs :: "ubi_state \<Rightarrow> base_req list" where
  "md_reqs s \<equiv> filter is_Req_md_write (base_reqs s)"

text \<open>A metadata write that fails may leave anything.\<close>

fun md_written :: "ubi_event \<Rightarrow> bool" where
  "md_written (Ev_base env r ok) \<longleftrightarrow> (is_Req_md_write r \<longrightarrow> ok)"
| "md_written e \<longleftrightarrow> True"

lemma metadata_of_bytes_cong:
  assumes "\<And>k. k < 8388608 \<Longrightarrow> x k = y k"
  shows "metadata_agree (metadata_of_bytes x) (metadata_of_bytes y)"
  using assms by (simp add: metadata_agree_def metadata_of_bytes_def)

lemma md_valid_agree: "metadata_agree m m' \<Longrightarrow> md_valid m \<longleftrightarrow> md_valid m'"
  by (simp add: metadata_agree_def md_valid_def ubi_get_version_def)

lemma disk_ok_cong:
  assumes "\<And>k. k < 8388608 \<Longrightarrow> x k = y k"
  shows "disk_ok u x \<longleftrightarrow> disk_ok u y"
proof -
  note A = metadata_of_bytes_cong [of x y, OF assms]
  show ?thesis using header_set_agree [OF A] md_valid_agree [OF A] A by (simp add: disk_ok_def metadata_agree_def)
qed

lemma saved_disk_ok:
  assumes "saved u m" shows "disk_ok u (metadata_bytes m)" "header_set (metadata_of_bytes (metadata_bytes m)) = header_set m"
    "md_valid (metadata_of_bytes (metadata_bytes m))"
proof -
  have A: "metadata_agree (metadata_of_bytes (metadata_bytes m)) m"
    using assms by (intro metadata_roundtrip) (simp add: saved_def md_valid_def)
  show "md_valid (metadata_of_bytes (metadata_bytes m))" using assms md_valid_agree [OF A] by (simp add: saved_def)
  moreover show "header_set (metadata_of_bytes (metadata_bytes m)) = header_set m" by (rule header_set_agree [OF A])
  ultimately show "disk_ok u (metadata_bytes m)" using assms by (simp add: saved_def disk_ok_def)
qed

lemma fetched_set_evolves: "evolves u u' \<Longrightarrow> fetched_set u \<subseteq> fetched_set u'"
  using evolves_derived(7) by (auto simp: fetched_set_def)

lemma saved_evolves: "evolves u u' \<Longrightarrow> saved u m \<Longrightarrow> saved u' m"
  using fetched_set_evolves by (auto simp: saved_def)

lemma disk_ok_evolves: "evolves u u' \<Longrightarrow> disk_ok u x \<Longrightarrow> disk_ok u' x"
  using fetched_set_evolves by (auto simp: disk_ok_def)

lemma md_valid_evolves:
  assumes "evolves u u'" shows "md_valid (metadata u') \<longleftrightarrow> md_valid (metadata u)"
proof -
  note same = assms [unfolded evolves_def, THEN conjunct1]
  have "magic (metadata u') = magic (metadata u)" "versionMajor (metadata u') = versionMajor (metadata u)"
    "versionMinor (metadata u') = versionMinor (metadata u)"
    using arg_cong [OF same, of "\<lambda>u. magic (metadata u)"] arg_cong [OF same, of "\<lambda>u. versionMajor (metadata u)"]
      arg_cong [OF same, of "\<lambda>u. versionMinor (metadata u)"]
    by (simp_all add: config_def)
  then show ?thesis by (simp add: md_valid_def ubi_get_version_def)
qed

subsection \<open>Which metadata is written\<close>

text \<open>Only a completed data flush submits a metadata write, of the metadata as it is then.\<close>

lemma md_reqs_fail: "ubi_fail_stripe_fetch k s = Some s' \<Longrightarrow> md_reqs s' = md_reqs s"
  by (auto simp: ubi_fail_stripe_fetch_def Let_def bind_eq_Some_conv)

lemma md_reqs_complete_fetch:
  "ubi_complete_fetch_stripe env k res s = Some (ret, s') \<Longrightarrow> md_reqs s' = md_reqs s"
  by (auto simp: ubi_complete_fetch_stripe_def base_submit_def Let_def bind_eq_Some_conv split: if_splits
      dest!: md_reqs_fail)

lemma md_reqs_get_buf:
  assumes "get_buf_for_read_cb env b ok s = Some s'"
  shows "md_reqs s' = md_reqs s"
proof -
  obtain ret s1 where rd: "ubi_submit_read_request env b s = (ret, s1)" by (metis surj_pair)
  then have s1: "md_reqs s1 = md_reqs s"
    by (auto simp: ubi_submit_read_request_def base_submit_def Let_def split: if_splits)
  consider "\<exists>t ok. s' = ubi_complete_io b ok t \<and> (t = s \<or> t = s1 \<or> t = tick s)" | "s' = s1"
    | off where "s' = (tick s)\<lparr>sq := sq s @ [Sqe_readv b off], ch := (ch s)\<lparr>has_reads := has_reads (ch s) + 1\<rparr>\<rparr>"
    using assms rd by (auto simp: get_buf_for_read_cb_def Let_def bind_eq_Some_conv split: if_splits)
  then show ?thesis by cases (use s1 in auto)
qed

lemma md_reqs_flush_request: "md_reqs (ubi_submit_flush_request env b s) = md_reqs s"
  by (simp add: ubi_submit_flush_request_def base_submit_def Let_def)

lemma md_reqs_write_request: "md_reqs (snd (ubi_submit_write_request env b s)) = md_reqs s"
  by (simp add: ubi_submit_write_request_def base_submit_def Let_def)

lemma md_reqs_dispatch: "ubi_dispatch_io env b s = Some s' \<Longrightarrow> md_reqs s' = md_reqs s"
  by (auto simp: ubi_dispatch_io_def Let_def md_reqs_flush_request md_reqs_write_request
      split: spdk_bdev_io_type.splits option.splits dest!: md_reqs_get_buf)

interpretation mdr: channel_walk "\<lambda>env cqes s s'. md_reqs s' = md_reqs s"
proof
  fix oth X n s k a m off res env ret s'
  assume "ubi_complete_fetch_stripe env k res (reaped (Sqe_read k a m off) s) = Some (ret, s')"
  from md_reqs_complete_fetch [OF this] show "md_reqs s' = md_reqs s" by simp
next
  fix oth X b bs env and s s' :: ubi_state
  assume "ubi_dispatch_io env b (popped bs s) = Some s'"
  from md_reqs_dispatch [OF this] show "md_reqs s' = md_reqs s" by simp
next
  fix oth X n k idx rest q env and s s' :: ubi_state
  assume "uring_ok env" "ubi_start_fetch_stripe env k (assigned k idx q s) = Some s'"
  from start_fetch_frame(5) [OF this(2,1)] show "md_reqs (counted s') = md_reqs s" by simp
qed (auto simp: ubi_complete_read_from_image_def submit_image_reads_def ubi_complete_io_def
    spdk_bdev_io_complete_def io_uring_submit_def Let_def split: if_splits)

lemma md_reqs_base:
  assumes "base_completion env r ok s = Some s'"
  shows "set (md_reqs s') \<subseteq> set (md_reqs s) \<union> {q. req_md q = metadata (ub s)}"
  using assms
  by (cases r) (auto simp: base_completion_def ubi_io_completion_cb_def write_stripe_io_completion_def
      ubi_data_flush_completion_def ubi_metadata_write_completion_def ubi_metadata_flush_completion_def
      base_submit_def Let_def bind_eq_Some_conv split: if_splits)

lemma md_reqs_event:
  assumes I: "inv_gen oth {#} 0 s" and al: "ev_allowed e s" and run: "ev_exec e s = Some s'"
  shows "set (md_reqs s') \<subseteq> set (md_reqs s) \<union> {q. req_md q = metadata (ub s)}"
proof (cases e)
  case (Ev_submit b)
  then show ?thesis
    using run by (auto simp: ubi_submit_request_def insert_io_def Let_def bind_eq_Some_conv split: if_splits)
next
  case (Ev_poll env batch)
  then obtain r where poll: "ubi_io_poll env batch s = Some (r, s')" using run by auto
  have "uring_ok env" "mset (map fst (cqes_of batch)) \<subseteq># mset (inflight s)"
    using al Ev_poll by (auto simp: ev_ok_def split: sum.splits)
  from mdr.walk_poll [OF I this poll] show ?thesis by simp
next
  case (Ev_buf env b ok)
  then have "md_reqs s' = md_reqs (s\<lparr>buf_wait := remove1 b (buf_wait s)\<rparr>)" using run by (intro md_reqs_get_buf) simp
  then show ?thesis by simp
next
  case (Ev_base env r ok)
  then have "base_completion env r ok (s\<lparr>base_reqs := remove1 r (base_reqs s)\<rparr>) = Some s'" using run by simp
  from md_reqs_base [OF this] show ?thesis using set_remove1_subset [of r "base_reqs s"] by auto
qed

subsection \<open>The metadata region of the base bdev\<close>

lemma metadata_region:
  assumes D: "data_ok d s" and I: "inv_gen oth {#} 0 s" and al: "ev_allowed e s" and ok: "md_written e"
    and W: "whole_stripes (ub s)" and bl: "bl = unat (blocklen (bdev (ub s)))"
  obtains "\<And>env r ok. e = Ev_base env r ok \<Longrightarrow> \<not> is_Req_md_write r"
    "\<And>x. x < 8388608 \<Longrightarrow> disk (store_exec w junk bl e d) x = disk d x"
  | env b md st m where "e = Ev_base env (Req_md_write b md st m) True" "Req_md_write b md st m \<in> set (base_reqs s)"
    "\<And>x. x < 8388608 \<Longrightarrow> disk (store_exec w junk bl e d) x = metadata_bytes md x"
proof (cases "\<exists>env r ok. e = Ev_base env r ok")
  case False
  then show ?thesis using that(1) by (cases e) auto
next
  case True
  then obtain env r ok' where e: "e = Ev_base env r ok'" by blast
  have r: "r \<in> set (base_reqs s)" using al e by simp
  have rd: "req_data d (ub s) (ch s) r" using D r by (simp add: data_ok_def)
  have conf: "conf_ok (ub s)" using I by (simp add: inv_gen_def)
  note wf = whole_stripes_facts [OF W]
  show ?thesis
  proof (cases r)
    case (Req_write_stripe k a off m)
    let ?s = "s\<lparr>base_reqs := remove1 r (base_reqs s)\<rparr>"
    have "inv_gen oth (add_mset k {#}) 0 ?s" using inv_remove_base [OF I r] Req_write_stripe by simp
    then have F: "fetch_ok oth (add_mset k {#}) (ub s) (ch s) (fetch_slots ?s)" by (simp add: inv_gen_def)
    have "8388608 \<le> unat off"
      using rd Req_write_stripe wf(6) [of "slot_idx (ch s) k"] fetch_ok_stripe(2) [OF F fetch_ok_active(1) [OF F]]
      by (simp add: slot_stripe_def)
    then show ?thesis using that(1) e Req_write_stripe by (simp add: base_effect_def overwrite_def)
  next
    case (Req_writev b st m)
    then have "8388608 \<le> unat st * bl" using rd base_range [OF W conf, of b] bl by simp
    then show ?thesis using that(1) e Req_writev by (simp add: base_effect_def overwrite_def)
  next
    case (Req_md_write b md st m)
    have "(8388608 :: nat) div bl * bl = 8388608" using wf(1,2) bl by (metis dvd_div_mult_self dvd_triv_right)
    then have "st = 0" "unat m * bl = 8388608"
      using rd bl Req_md_write by (auto simp: md_blocks_def unat_div split: if_splits)
    moreover have "ok'" using ok e Req_md_write by simp
    ultimately show ?thesis using that(2) e r Req_md_write by (simp add: base_effect_def overwrite_def)
  qed (use that(1) e in \<open>simp_all add: base_effect_def\<close>)
qed

definition saved_reqs :: "ubi_state \<Rightarrow> bool" where
  "saved_reqs s \<longleftrightarrow> (\<forall>q \<in> set (md_reqs s). saved (ub s) (req_md q))"

lemma saved_event:
  assumes "inv_gen oth {#} 0 s" "ev_allowed e s" "ev_exec e s = Some s'" "saved_reqs s" and V: "md_valid (metadata (ub s))"
  shows "saved_reqs s'"
proof -
  note ev = ev_exec_evolves [OF assms(1-3)]
  have "saved (ub s) (metadata (ub s))"
    using V assms(1) by (simp add: saved_def inv_gen_def md_ok_def)
  then show ?thesis
    using md_reqs_event [OF assms(1-3)] assms(4) saved_evolves [OF ev] unfolding saved_reqs_def by fastforce
qed

lemma saved_other: "evolves (ub s) u' \<Longrightarrow> saved_reqs s \<Longrightarrow> saved_reqs (s\<lparr>ub := u'\<rparr>)"
  using saved_evolves by (auto simp: saved_reqs_def)

lemma disk_event:
  assumes D: "data_ok d s" and I: "inv_gen oth {#} 0 s" and al: "ev_allowed e s" and ok: "md_written e"
    and W: "whole_stripes (ub s)" and bl: "bl = unat (blocklen (bdev (ub s)))" and Sv: "saved_reqs s"
    and ev: "evolves (ub s) u'" and K: "disk_ok (ub s) (disk d)"
  shows "disk_ok u' (disk (store_exec w junk bl e d))"
  using D I al ok W bl
proof (cases rule: metadata_region [where w = w and junk = junk])
  case 1
  from 1(2) show ?thesis using disk_ok_cong [of "disk (store_exec w junk bl e d)" "disk d"] disk_ok_evolves [OF ev K] by simp
next
  case (2 env b md st m)
  then have "saved (ub s) md" using Sv by (force simp: saved_reqs_def)
  from saved_disk_ok(1) [OF saved_evolves [OF ev this]] 2(3) show ?thesis
    using disk_ok_cong [of "disk (store_exec w junk bl e d)" "metadata_bytes md"] by simp
qed

lemma sys_saved_run:
  assumes "sys_run u es S" "bdev_ok u" "inflight_set u = {}" "whole_stripes u"
    and "\<forall>ie \<in> set es. honest (snd ie) \<and> md_written (snd ie)" "bl = unat (blocklen (bdev u))"
    and "md_valid (metadata u)" "disk_ok u (s_disk D)"
  shows "disk_ok (sys_ub S) (s_disk (fold (sys_store_exec w junk bl) es D)) \<and>
    (\<forall>i < length (sys_chans S). saved_reqs (sys_chan S i))"
  using assms
proof (induction rule: sys_run.induct)
  case start
  then show ?case by simp
next
  case (channel es S t env bufs held c held')
  then show ?case
    by (auto simp: sys_add_channel_def sys_chan_def nth_append less_Suc_eq saved_reqs_def fresh_state_def)
next
  case (event es S ie S')
  obtain i e where ie: "ie = (i, e)" by (cases ie)
  let ?D = "fold (sys_store_exec w junk bl) es D"
  have IH: "disk_ok (sys_ub S) (s_disk ?D)" and Sv: "\<And>j. j < length (sys_chans S) \<Longrightarrow> saved_reqs (sys_chan S j)"
    using event by simp_all
  have "\<forall>ie \<in> set es. honest (snd ie)" using event.prems(4) by simp
  from sys_data_run [OF event(1) event.prems(1-3) this event.prems(5)]
  have I: "sys_inv S" and ev0: "evolves u (sys_ub S)" and DD: "sys_data ?D S" by blast+
  have i: "i < length (sys_chans S)" and al: "ev_allowed e (sys_chan S i)" using event(2) ie by simp_all
  have ok: "md_written e" using event.prems(4) ie by simp
  have ub: "ub (sys_chan S j) = sys_ub S" for j by (simp add: sys_chan_def)
  have V: "md_valid (metadata (sys_ub S))" using md_valid_evolves [OF ev0] event.prems(6) by simp
  have W: "whole_stripes (sys_ub S)" by (rule whole_stripes_evolves [OF ev0 event.prems(3)])
  have bl: "bl = unat (blocklen (bdev (sys_ub S)))" using event.prems(5) evolves_config(1) [OF ev0] by simp
  obtain s' where s': "ev_exec e (sys_chan S i) = Some s'" and S': "S' = S\<lparr>sys_ub := ub s', sys_chans := (sys_chans S)[i := s']\<rparr>"
    using event(3) i ie by auto
  note Ii = sys_invD [OF I i] and up = ev_exec_evolves [OF sys_invD [OF I i] al s']
  have "disk_ok (ub s') (disk (store_exec w junk bl e (chan_store ?D i)))"
    by (rule disk_event [OF _ Ii al ok _ _ Sv [OF i] up]) (use DD i W bl ub IH in \<open>simp_all add: sys_data_def\<close>)
  then have "disk_ok (sys_ub S') (s_disk (fold (sys_store_exec w junk bl) (es @ [ie]) D))"
    by (simp add: ie S' Let_def)
  moreover have "saved_reqs (sys_chan S' j)" if j: "j < length (sys_chans S)" for j
  proof (cases "j = i")
    case True
    then show ?thesis using saved_event [OF Ii al s' Sv [OF i]] V ub i by (simp add: S' sys_chan_def)
  next
    case False
    then show ?thesis using saved_other [OF _ Sv [OF j], of "ub s'"] up ub by (simp add: S' sys_chan_def)
  qed
  ultimately show ?case by (simp add: S')
qed

subsection \<open>Loading what is on disk\<close>

lemma loaded_disk_ok:
  assumes load: "ubi_load_metadata (v\<lparr>metadata := metadata_of_bytes x\<rparr>) = (0, u)"
    and new: "ubi_new_disk (magic (metadata_of_bytes x)) \<Longrightarrow> header_set (metadata_of_bytes x) = {}"
  shows "md_valid (metadata u)" "disk_ok u x"
proof -
  let ?m = "metadata_of_bytes x"
  have "md_valid (metadata u) \<and> disk_ok u x"
  proof (cases "ubi_new_disk (magic ?m)")
    case True
    then have "u = ubi_init_metadata (v\<lparr>metadata := ?m\<rparr>)" using load by (simp add: ubi_load_metadata_def)
    then show ?thesis using new [OF True] True by (simp add: md_valid_def init_metadata_valid disk_ok_def)
  next
    case False
    then have "magic ?m = UBI_MAGIC" "ubi_get_version ?m = (UBI_VERSION_MAJOR, UBI_VERSION_MINOR)"
      and u: "u = load_stripes UBI_MAX_STRIPES 0 (v\<lparr>metadata := ?m\<rparr>)"
      using load by (auto simp: ubi_load_metadata_def split: if_splits prod.splits simp del: UBI_MAX_STRIPES_def)
    then show ?thesis
      using load_all_stripes(1) [of "v\<lparr>metadata := ?m\<rparr>"] by (simp add: md_valid_def disk_ok_def del: UBI_MAX_STRIPES_def)
  qed
  then show "md_valid (metadata u)" "disk_ok u x" by blast+
qed

lemma reload_disk_ok:
  assumes K: "disk_ok u x" and v: "stripe_status v = (\<lambda>_. STRIPE_NOT_FETCHED)"
  obtains u' where "ubi_load_metadata (v\<lparr>metadata := metadata_of_bytes x\<rparr>) = (0, u')"
    "\<And>k. stripe_status u' k = STRIPE_FETCHED \<Longrightarrow> stripe_status u k = STRIPE_FETCHED"
    "md_valid (metadata_of_bytes x) \<Longrightarrow> fetched_set u' = header_set (metadata_of_bytes x)"
proof -
  let ?m = "metadata_of_bytes x"
  let ?v = "v\<lparr>metadata := ?m\<rparr>"
  have sub: "header_set ?m \<subseteq> fetched_set u" using K by (simp add: disk_ok_def)
  show ?thesis
  proof (cases "md_valid ?m")
    case True
    then have load: "ubi_load_metadata ?v = (0, load_stripes UBI_MAX_STRIPES 0 ?v)"
      by (intro load_valid) (simp_all add: md_valid_def)
    moreover have "stripe_status u k = STRIPE_FETCHED"
      if "stripe_status (load_stripes UBI_MAX_STRIPES 0 ?v) k = STRIPE_FETCHED" for k
      using that sub v
      by (auto simp: load_stripes_status header_set_def fetched_set_def simp del: UBI_MAX_STRIPES_def split: if_splits)
    ultimately show ?thesis using that load_all_stripes(1) [of ?v] by simp
  next
    case False
    then have "ubi_load_metadata ?v = (0, ubi_init_metadata ?v)" using K by (simp add: disk_ok_def ubi_load_metadata_def)
    then show ?thesis using that False v by (simp add: init_metadata_valid)
  qed
qed

lemma image_stripe:
  "x div unat (blocklen (bdev u)) < unat (image_block_count u) \<Longrightarrow> x div stripe_bytes u < image_stripes u"
  by (simp add: stripe_bytes_def div_mult2_eq block_in_image)

lemma view_reload:
  assumes g: "bdev u' = bdev u" "image_block_count u' = image_block_count u" "stripe_shift u' = stripe_shift u"
    and F: "\<And>k. stripe_status u' k = STRIPE_FETCHED \<Longrightarrow> stripe_status u k = STRIPE_FETCHED"
  shows "view u' d x = (if from_image u' x then img d x else view u d x)"
    and "conf_ok u \<Longrightarrow> fetched_set u \<subseteq> fetched_set u' \<Longrightarrow> view u' d = view u d"
proof -
  have S: "stripe_bytes u' = stripe_bytes u" using g by (simp add: stripe_bytes_def)
  have sub: "from_image u x \<Longrightarrow> from_image u' x" for x using F g S by (auto simp: from_image_def)
  then show "view u' d x = (if from_image u' x then img d x else view u d x)" by (auto simp: view_def)
  assume "conf_ok u" and fs: "fetched_set u \<subseteq> fetched_set u'"
  then have "from_image u' x \<Longrightarrow> from_image u x" for x
    using image_stripe [of x u] g S by (force simp: from_image_def conf_ok_def fetched_set_def)
  with sub show "view u' d = view u d" by (fastforce simp: view_def)
qed

lemma restart:
  assumes v: "prepared env opts v" and load: "ubi_load_metadata (v\<lparr>metadata := metadata_of_bytes (s_disk D)\<rparr>) = (0, u)"
    and lim: "within_limits u" and new: "ubi_new_disk (magic (metadata_of_bytes (s_disk D))) \<Longrightarrow> header_set (metadata_of_bytes (s_disk D)) = {}"
    and W: "whole_stripes u" and run: "sys_run u es S" and es: "\<forall>ie \<in> set es. honest (snd ie) \<and> md_written (snd ie)"
    and bl: "bl = unat (blocklen (bdev u))" and D': "D' = fold (sys_store_exec w junk bl) es D"
  shows "\<exists>u'. ubi_load_metadata (v\<lparr>metadata := metadata_of_bytes (s_disk D')\<rparr>) = (0, u') \<and>
    (\<forall>x. view u' (chan_store D' c) x = (if from_image u' x then s_img D' x else view (sys_ub S) (chan_store D' c) x)) \<and>
    (md_valid (metadata_of_bytes (s_disk D')) \<and> header_set (metadata (sys_ub S)) \<subseteq> header_set (metadata_of_bytes (s_disk D')) \<longrightarrow>
       view u' (chan_store D' c) = view (sys_ub S) (chan_store D' c))"
proof -
  have ok: "bdev_ok u" "inflight_set u = {}" using loaded_bdev_ok [OF v load lim new] by simp_all
  note ld = loaded_disk_ok [OF load new]
  have hon: "\<forall>ie \<in> set es. honest (snd ie)" using es by simp
  have ev: "evolves u (sys_ub S)" and I: "sys_inv S" using sys_data_run [OF run ok W hon bl] by blast+
  have K: "disk_ok (sys_ub S) (s_disk D')" using sys_saved_run [OF run ok W es bl ld] D' by simp
  from K prepared_fields(3) [OF v]
  obtain u' where u': "ubi_load_metadata (v\<lparr>metadata := metadata_of_bytes (s_disk D')\<rparr>) = (0, u')"
    "\<And>k. stripe_status u' k = STRIPE_FETCHED \<Longrightarrow> stripe_status (sys_ub S) k = STRIPE_FETCHED"
    "md_valid (metadata_of_bytes (s_disk D')) \<Longrightarrow> fetched_set u' = header_set (metadata_of_bytes (s_disk D'))"
    by (rule reload_disk_ok) blast
  have "bdev u' = bdev (sys_ub S)" "image_block_count u' = image_block_count (sys_ub S)" "stripe_shift u' = stripe_shift (sys_ub S)"
    using load_metadata_frame [OF u'(1)] load_metadata_frame [OF load] evolves_config [OF ev] by simp_all
  note vr = view_reload [OF this u'(2)]
  have "conf_ok (sys_ub S)" "fetched_set (sys_ub S) = header_set (metadata (sys_ub S))"
    using I by (simp_all add: sys_inv_def bdev_ok_def)
  then show ?thesis using u'(1,3) vr by (intro exI [of _ u']) simp
qed

subsection \<open>Properties\<close>



subsection \<open>A concrete run\<close>

text \<open>
  A write to stripe 2 of a new disk: the stripe is fetched and the write done, then a flush has
  its data flush answered and its metadata write is outstanding.
\<close>

definition demo_events :: "ubi_event list" where
  "demo_events = [Ev_submit demo_write, Ev_poll demo_env (Inr []),
     Ev_poll demo_env (Inr [(Sqe_read 0 8192 65536 131072, 65536)]),
     Ev_base demo_env (Req_write_stripe 0 8192 8519680 65536) True,
     Ev_submit demo_flush, Ev_poll demo_env (Inr []),
     Ev_base demo_env (Req_writev demo_write 16640 8) True,
     Ev_base demo_env (Req_data_flush demo_flush 16384 2048) True]"

lemma upt_8: "[0..<8] = [0, 1, 2, 3, 4, 5, 6, 7 :: nat]"
  by code_simp

lemma demo_events_run:
  "\<exists>s. ubi_run demo_state demo_events s \<and> base_reqs s = [Req_md_write demo_flush (metadata (ub s)) 0 16384]"
  by (simp add: demo_events_def ubi_run_cons ubi_step_iff ev_ok_def uring_ok_def io_ok_def ubi_io_type_supported_def
      ubi_submit_request_def insert_io_def enqueue_stripe_def dequeue_stripe_def stripe_queue_empty_def
      ubi_io_poll_def ubi_complete_image_io_def ubi_complete_fetch_stripe_def free_stripe_fetches_def upt_8
      ubi_start_fetch_stripe_def align_buf_def stripe_offset_def stripe_nbytes_def block_stripe_def io_verdict_def
      ubi_dispatch_io_def ubi_submit_write_request_def ubi_submit_flush_request_def ubi_io_completion_cb_def
      spdk_bdev_io_complete_def ubi_complete_io_def
      base_submit_def submit_image_reads_def io_uring_submit_def base_completion_def write_stripe_io_completion_def
      ubi_data_flush_completion_def md_blocks_def status_simps put_status_def Let_def
      demo_state_def fresh_state_def demo_channel_def zero_channel_def demo_env_def demo_write_def demo_flush_def demo_simps)

lemma demo_events_fine: "\<forall>ie \<in> set (map (Pair 0) demo_events). honest (snd ie) \<and> md_written (snd ie)"
  by (simp add: demo_events_def)

lemma demo_events_spec:
  "fold (\<lambda>ie. disk_spec (\<lambda>_ _. 7) junk 512 (snd ie)) (map (Pair 0) demo_events) x (256 * 512) = 7"
  by (simp add: demo_events_def disk_spec_def overwrite_def demo_write_def)

lemma demo_events_sys:
  "\<exists>S. sys_run demo_ubi (map (Pair 0) demo_events) S \<and>
     sys_allowed (0, Ev_base demo_env (Req_md_write demo_flush (metadata (sys_ub S)) 0 16384) True) S"
proof -
  obtain s where s: "ubi_run demo_state demo_events s" "base_reqs s = [Req_md_write demo_flush (metadata (ub s)) 0 16384]"
    using demo_events_run by blast
  from channel_run [OF s(1) demo_sys_run, of 0] demo_sys_chan
  obtain S where S: "sys_run demo_ubi (map (Pair 0) demo_events) S" "sys_chan S 0 = s" "length (sys_chans S) = 2" by auto
  then have "sys_ub S = ub s" by (auto simp: sys_chan_def)
  then show ?thesis using S s(2) demo_uring_ok by (intro exI [of _ S]) (simp add: ev_ok_def)
qed

text \<open>The bdev of the examples is the one that a creation on a zeroed disk makes.\<close>

definition demo_prepared :: ubi_bdev where
  "demo_prepared = demo_ubi\<lparr>metadata := zero_metadata\<rparr>"

lemma demo_loaded:
  "prepared demo_create_env demo_opts demo_prepared"
  "ubi_load_metadata (demo_prepared\<lparr>metadata := metadata_of_bytes (s_disk demo_sys_store)\<rparr>) = (0, demo_ubi)"
  "within_limits demo_ubi" "header_set (metadata_of_bytes (s_disk demo_sys_store)) = {}"
proof -
  show "prepared demo_create_env demo_opts demo_prepared"
    by (simp add: prepared_def demo_prepared_def bare_bdev_def demo_create_env_def demo_opts_def ubi_init_layout_params_def
        ubi_apply_opts_def ubi_copy_base_def zero_ubi_bdev_def zero_spdk_bdev_def Let_def demo_log2 demo_simps)
  show "ubi_load_metadata (demo_prepared\<lparr>metadata := metadata_of_bytes (s_disk demo_sys_store)\<rparr>) = (0, demo_ubi)"
    by (simp add: ubi_load_metadata_def metadata_of_bytes_def demo_sys_store_def ubi_new_disk_iff ubi_init_metadata_def
        ubi_set_version_def store_littleendian_shortint_def demo_prepared_def demo_metadata_def Let_def demo_simps)
  show "within_limits demo_ubi" by (simp add: within_limits_def image_stripes_def demo_simps)
  show "header_set (metadata_of_bytes (s_disk demo_sys_store)) = {}"
    by (simp add: header_set_def metadata_of_bytes_def demo_sys_store_def)
qed



end
