(* ===== verification/Ubi_Rpc.thy ===== *)
theory Ubi_Rpc
  imports Ubi_Create
begin

section \<open>RPC methods and configuration (\<^verbatim>\<open>bdev_ubi_rpc.c\<close>, \<^verbatim>\<open>ubi_write_config_json\<close>)\<close>

text \<open>
  The handlers of the methods \<^verbatim>\<open>bdev_ubi_create\<close> and \<^verbatim>\<open>bdev_ubi_delete\<close>, the responses they
  send and the strings they own, and the configuration a bdev writes about itself.  SPDK's
  decoder of JSON objects is a parameter.  The text of error messages is left out.
\<close>

subsection \<open>JSON values and decoders\<close>

datatype json =
    J_object "(string \<times> json) list"
  | J_string string
  | J_number int
  | J_bool bool

datatype decode_fn = Json_decode_string | Json_decode_uint32 | Json_decode_bool

text \<open>A field of the structure that is filled in stands for its offset.\<close>

record 'f json_object_decoder =
  dec_name :: string
  dec_field :: 'f
  dec_func :: decode_fn
  dec_optional :: bool

record rpc_construct_ubi =
  req_name :: "string option"
  req_image_path :: "string option"
  req_base_bdev_name :: "string option"
  req_stripe_size_kb :: u32
  req_no_sync :: bool
  req_copy_on_read :: bool
  req_directio :: bool

datatype construct_field =
    F_name | F_image_path | F_base_bdev_name | F_stripe_size_kb | F_no_sync | F_copy_on_read | F_directio

definition decoder :: "string \<Rightarrow> 'f \<Rightarrow> decode_fn \<Rightarrow> bool \<Rightarrow> 'f json_object_decoder" where
  "decoder n f d opt = \<lparr>dec_name = n, dec_field = f, dec_func = d, dec_optional = opt\<rparr>"

definition rpc_construct_ubi_decoders :: "construct_field json_object_decoder list" where
  "rpc_construct_ubi_decoders =
    [decoder ''name'' F_name Json_decode_string False,
     decoder ''image_path'' F_image_path Json_decode_string False,
     decoder ''base_bdev'' F_base_bdev_name Json_decode_string False,
     decoder ''stripe_size_kb'' F_stripe_size_kb Json_decode_uint32 False,
     decoder ''no_sync'' F_no_sync Json_decode_bool True,
     decoder ''copy_on_read'' F_copy_on_read Json_decode_bool True,
     decoder ''directio'' F_directio Json_decode_bool True]"

datatype delete_field = D_name

record rpc_delete_ubi =
  del_name :: "string option"

definition rpc_delete_ubi_decoders :: "delete_field json_object_decoder list" where
  "rpc_delete_ubi_decoders = [decoder ''name'' D_name Json_decode_string False]"

subsection \<open>State\<close>

datatype rpc_response =
    Error_response int
  | Error_response_fmt int int
  | String_result string
  | Bool_response bool

definition SPDK_JSONRPC_ERROR_INVALID_PARAMS :: int where
  "SPDK_JSONRPC_ERROR_INVALID_PARAMS = - 32602"

definition SPDK_JSONRPC_ERROR_INTERNAL_ERROR :: int where
  "SPDK_JSONRPC_ERROR_INTERNAL_ERROR = - 32603"

text \<open>The module, the strings of requests that are allocated, and the responses sent.\<close>

record rpc_state =
  rpc_mod :: mod_state
  rpc_strings :: "string multiset"
  rpc_responses :: "rpc_response list"

type_synonym ('f, 'r) json_decode = "json \<Rightarrow> 'f json_object_decoder list \<Rightarrow> 'r \<Rightarrow> int \<times> 'r"

record rpc_env =
  r_decode_construct :: "(construct_field, rpc_construct_ubi) json_decode"
  r_decode_delete :: "(delete_field, rpc_delete_ubi) json_decode"
  r_calloc_context :: bool
  r_create :: create_env
  r_unregister :: "string \<Rightarrow> int"

subsection \<open>Handlers\<close>

definition free_string :: "string option \<Rightarrow> rpc_state \<Rightarrow> rpc_state option" where
  "free_string p rs =
     (case p of
        None \<Rightarrow> Some rs
      | Some x \<Rightarrow> if x \<in># rpc_strings rs then Some (rs\<lparr>rpc_strings := rpc_strings rs - {#x#}\<rparr>) else None)"

definition free_rpc_construct_ubi :: "rpc_construct_ubi \<Rightarrow> rpc_state \<Rightarrow> rpc_state option" where
  "free_rpc_construct_ubi req rs = do {
     rs \<leftarrow> free_string (req_name req) rs;
     rs \<leftarrow> free_string (req_image_path req) rs;
     free_string (req_base_bdev_name req) rs
   }"

definition send_response :: "rpc_response \<Rightarrow> rpc_state \<Rightarrow> rpc_state" where
  "send_response r rs = rs\<lparr>rpc_responses := rpc_responses rs @ [r]\<rparr>"

definition bdev_ubi_create_done :: "ubi_bdev option \<Rightarrow> int \<Rightarrow> rpc_response option" where
  "bdev_ubi_create_done b status =
     (if status < 0 then Some (Error_response status)
      else if status > 0 then Some (Error_response_fmt SPDK_JSONRPC_ERROR_INVALID_PARAMS status)
      else do { u \<leftarrow> b; name \<leftarrow> bdev_name (bdev u); Some (String_result name) })"

text \<open>The calls to \<^verbatim>\<open>done_fn\<close> that took the module from its old state to \<open>st\<close>.\<close>

definition rpc_deliver :: "mod_state \<Rightarrow> rpc_state \<Rightarrow> rpc_state option" where
  "rpc_deliver st rs = do {
     resps \<leftarrow> those (map (\<lambda>(b, status). bdev_ubi_create_done b status)
                      (drop (length (done_calls (rpc_mod rs))) (done_calls st)));
     Some (rs\<lparr>rpc_mod := st, rpc_responses := rpc_responses rs @ resps\<rparr>)
   }"

definition option_strings :: "string option list \<Rightarrow> string multiset" where
  "option_strings ps = mset (List.map_filter id ps)"

definition req_strings :: "rpc_construct_ubi \<Rightarrow> string multiset" where
  "req_strings req = option_strings [req_name req, req_image_path req, req_base_bdev_name req]"

definition zero_rpc_construct_ubi :: rpc_construct_ubi where
  "zero_rpc_construct_ubi = \<lparr>req_name = None, req_image_path = None, req_base_bdev_name = None,
     req_stripe_size_kb = 0, req_no_sync = False, req_copy_on_read = False, req_directio = False\<rparr>"

definition rpc_defaults :: rpc_construct_ubi where
  "rpc_defaults = zero_rpc_construct_ubi\<lparr>req_no_sync := False, req_copy_on_read := True, req_directio := True\<rparr>"

text \<open>The image path and the base bdev are dereferenced without a check.\<close>

definition rpc_opts :: "rpc_construct_ubi \<Rightarrow> spdk_ubi_bdev_opts option" where
  "rpc_opts req = do {
     path \<leftarrow> req_image_path req;
     base \<leftarrow> req_base_bdev_name req;
     Some \<lparr>opt_name = req_name req, opt_image_path = path, opt_base_bdev_name = base,
       opt_stripe_size_kb = req_stripe_size_kb req, opt_no_sync = req_no_sync req,
       opt_copy_on_read = req_copy_on_read req, opt_directio = req_directio req\<rparr>
   }"

definition rpc_bdev_ubi_create ::
    "rpc_env \<Rightarrow> test_control \<Rightarrow> json \<Rightarrow> rpc_state \<Rightarrow> rpc_state option" where
  "rpc_bdev_ubi_create env t params rs =
     (let (rc, req) = r_decode_construct env params rpc_construct_ubi_decoders rpc_defaults;
          rs = rs\<lparr>rpc_strings := rpc_strings rs + req_strings req\<rparr>
      in if rc \<noteq> 0 then
           free_rpc_construct_ubi req (send_response (Error_response SPDK_JSONRPC_ERROR_INTERNAL_ERROR) rs)
         else if \<not> r_calloc_context env then None
         else do {
           opts \<leftarrow> rpc_opts req;
           st \<leftarrow> bdev_ubi_create (r_create env) t (Some opts) zero_context (hold R_context (rpc_mod rs));
           rs \<leftarrow> rpc_deliver st rs;
           free_rpc_construct_ubi req rs
         })"

text \<open>The metadata read that a handler has started completes.\<close>

definition rpc_finish_read ::
    "rpc_env \<Rightarrow> bool \<Rightarrow> (nat \<Rightarrow> u8) \<Rightarrow> rpc_state \<Rightarrow> rpc_state option" where
  "rpc_finish_read env success data rs =
     (case reading (rpc_mod rs) of
        [] \<Rightarrow> Some rs
      | ctx # ctxs \<Rightarrow> do {
          st \<leftarrow> ubi_finish_read_metadata (r_create env) ctx success data ((rpc_mod rs)\<lparr>reading := ctxs\<rparr>);
          rpc_deliver st rs
        })"

definition rpc_bdev_ubi_delete_cb :: "int \<Rightarrow> rpc_response" where
  "rpc_bdev_ubi_delete_cb bdeverrno = (if bdeverrno = 0 then Bool_response True else Error_response bdeverrno)"

definition rpc_bdev_ubi_delete :: "rpc_env \<Rightarrow> json \<Rightarrow> rpc_state \<Rightarrow> rpc_state option" where
  "rpc_bdev_ubi_delete env params rs =
     (let (rc, req) = r_decode_delete env params rpc_delete_ubi_decoders \<lparr>del_name = None\<rparr>;
          rs = rs\<lparr>rpc_strings := rpc_strings rs + option_strings [del_name req]\<rparr>
      in if rc \<noteq> 0 then Some (send_response (Error_response SPDK_JSONRPC_ERROR_INTERNAL_ERROR) rs)
         else do {
           name \<leftarrow> del_name req;
           free_string (del_name req)
             (fold (\<lambda>e. send_response (rpc_bdev_ubi_delete_cb e)) (bdev_ubi_delete (r_unregister env name)) rs)
         })"

subsection \<open>The configuration of a bdev\<close>

text \<open>
  The value that the calls to the JSON writer build up; a null string is dereferenced by the
  writer.
\<close>

definition ubi_write_config_json :: "ubi_bdev \<Rightarrow> json option" where
  "ubi_write_config_json u = do {
     name \<leftarrow> bdev_name (bdev u);
     base \<leftarrow> bdev_name (base_bdev (base_bdev_info u));
     Some (J_object
       [(''method'', J_string ''bdev_ubi_create''),
        (''params'', J_object
          [(''name'', J_string name),
           (''base_bdev'', J_string base),
           (''image_path'', J_string (image_path u)),
           (''stripe_size_kb'', J_number (uint (stripe_size_kb u))),
           (''copy_on_read'', J_bool (copy_on_read u)),
           (''directio'', J_bool (directio u)),
           (''no_sync'', J_bool (no_sync u))])])
   }"


subsection \<open>One response per request\<close>

text \<open>A request to create a bdev with the completion of the metadata read, if it gets that far.\<close>

definition rpc_create_run ::
    "rpc_env \<Rightarrow> test_control \<Rightarrow> json \<Rightarrow> bool \<Rightarrow> (nat \<Rightarrow> u8) \<Rightarrow> rpc_state \<Rightarrow> rpc_state option" where
  "rpc_create_run env t params success data rs = do {
     rs \<leftarrow> rpc_bdev_ubi_create env t params rs;
     rpc_finish_read env success data rs
   }"

lemma free_req_strings:
  assumes "rpc_strings rs = X + req_strings req"
  shows "free_rpc_construct_ubi req rs = Some (rs\<lparr>rpc_strings := X\<rparr>)"
  using assms
  by (cases "req_name req"; cases "req_image_path req"; cases "req_base_bdev_name req")
    (simp_all add: free_rpc_construct_ubi_def req_strings_def option_strings_def free_string_def
      List.map_filter_simps)

lemma deliver_none:
  "done_calls st = done_calls (rpc_mod rs) \<Longrightarrow> rpc_deliver st rs = Some (rs\<lparr>rpc_mod := st\<rparr>)"
  by (simp add: rpc_deliver_def)

lemma deliver_one:
  "done_calls st = done_calls (rpc_mod rs) @ [(b, status)] \<Longrightarrow> bdev_ubi_create_done b status = Some r \<Longrightarrow>
     rpc_deliver st rs = Some (rs\<lparr>rpc_mod := st, rpc_responses := rpc_responses rs @ [r]\<rparr>)"
  by (simp add: rpc_deliver_def)

lemma done_error: "status \<noteq> 0 \<Longrightarrow> \<exists>r. bdev_ubi_create_done b status = Some r \<and> (\<forall>n. r \<noteq> String_result n)"
  by (auto simp: bdev_ubi_create_done_def)

text \<open>Once the parameters are decoded, the handler is the creation with the responses added.\<close>

lemma rpc_create_run_mod:
  assumes dec: "r_decode_construct env params rpc_construct_ubi_decoders rpc_defaults = (0, req)"
    and opts: "rpc_opts req = Some opts" and "r_calloc_context env"
    and "reading (rpc_mod rs) = []" and "c_thread (r_create env) = c_app_thread (r_create env)"
    and "blocklen (c_base (r_create env) (opt_base_bdev_name opts)) \<noteq> 0"
    and run: "bdev_ubi_create_run (r_create env) t (Some opts) success data (hold R_context (rpc_mod rs)) = Some st'"
    and calls: "done_calls st' = done_calls (rpc_mod rs) @ [(b, status)]"
    and resp: "bdev_ubi_create_done b status = Some r"
  shows "rpc_create_run env t params success data rs =
     Some (rs\<lparr>rpc_mod := st', rpc_responses := rpc_responses rs @ [r]\<rparr>)"
proof -
  let ?st = "hold R_context (rpc_mod rs)"
  let ?r = "bdev_ubi_create (r_create env) t (Some opts) zero_context ?st"
  let ?rs = "rs\<lparr>rpc_strings := rpc_strings rs + req_strings req\<rparr>"
  have "create_failed (r_create env) (held (rpc_mod rs)) ?st ?r \<or> create_waits (r_create env) (held (rpc_mod rs)) (Some opts) ?st ?r"
    by (rule create_cases) (use assms in auto)
  then consider (fail) "?r = Some st'" "reading st' = []"
    | (wait) st1 ctx where "?r = Some st1" "reading st1 = [ctx]" "done_calls st1 = done_calls (rpc_mod rs)"
    using run assms(4) by (auto simp: create_failed_def create_waits_def bdev_ubi_create_run_def)
  then show ?thesis
  proof cases
    case fail
    have "rpc_deliver st' ?rs = Some (?rs\<lparr>rpc_mod := st', rpc_responses := rpc_responses rs @ [r]\<rparr>)"
      using deliver_one [of st' ?rs b status r] calls resp by simp
    with fail show ?thesis
      by (simp add: rpc_create_run_def rpc_bdev_ubi_create_def dec opts assms(3) free_req_strings rpc_finish_read_def)
  next
    case wait
    have d1: "rpc_deliver st1 ?rs = Some (?rs\<lparr>rpc_mod := st1\<rparr>)"
      by (rule deliver_none) (use wait in simp)
    let ?rs1 = "rs\<lparr>rpc_mod := st1\<rparr>"
    have "rpc_deliver st' ?rs1 = Some (?rs1\<lparr>rpc_mod := st', rpc_responses := rpc_responses rs @ [r]\<rparr>)"
      using deliver_one [of st' ?rs1 b status r] calls resp wait by simp
    moreover have "ubi_finish_read_metadata (r_create env) ctx success data (st1\<lparr>reading := []\<rparr>) = Some st'"
      using run wait by (simp add: bdev_ubi_create_run_def)
    ultimately show ?thesis using wait d1
      by (simp add: rpc_create_run_def rpc_bdev_ubi_create_def dec opts assms(3) free_req_strings rpc_finish_read_def)
  qed
qed

text \<open>
  What the handlers rely on: a decoder that succeeds has filled in every field that is not
  optional, and a bdev has a block length.
\<close>

definition decodes_required :: "(construct_field, rpc_construct_ubi) json_decode \<Rightarrow> bool" where
  "decodes_required decode \<longleftrightarrow>
     (\<forall>params req. decode params rpc_construct_ubi_decoders rpc_defaults = (0, req) \<longrightarrow>
        req_name req \<noteq> None \<and> req_image_path req \<noteq> None \<and> req_base_bdev_name req \<noteq> None)"

lemma decodes_requiredD:
  "decodes_required decode \<Longrightarrow> decode params rpc_construct_ubi_decoders rpc_defaults = (0, req) \<Longrightarrow>
     \<exists>path base. req_image_path req = Some path \<and> req_base_bdev_name req = Some base"
  by (simp add: decodes_required_def)

definition sane_blocklen :: "create_env \<Rightarrow> bool" where
  "sane_blocklen env \<longleftrightarrow> (\<forall>n. blocklen (c_base env n) \<noteq> 0)"

text \<open>
  A decoder of the documented kind, for concrete requests: every member has a decoder that
  accepts it and no required member is missing.
\<close>

fun json_fits :: "decode_fn \<Rightarrow> json \<Rightarrow> bool" where
  "json_fits Json_decode_string v = (case v of J_string _ \<Rightarrow> True | _ \<Rightarrow> False)"
| "json_fits Json_decode_uint32 v = (case v of J_number n \<Rightarrow> 0 \<le> n \<and> n < 2 ^ 32 | _ \<Rightarrow> False)"
| "json_fits Json_decode_bool v = (case v of J_bool _ \<Rightarrow> True | _ \<Rightarrow> False)"

definition accepts_members :: "'f json_object_decoder list \<Rightarrow> (string \<times> json) list \<Rightarrow> bool" where
  "accepts_members decs kvs \<longleftrightarrow> distinct (map fst kvs) \<and>
     list_all (\<lambda>(k, v). list_ex (\<lambda>d. dec_name d = k \<and> json_fits (dec_func d) v) decs) kvs \<and>
     list_all (\<lambda>d. dec_optional d \<or> dec_name d \<in> set (map fst kvs)) decs"

fun set_construct_field :: "construct_field \<Rightarrow> json \<Rightarrow> rpc_construct_ubi \<Rightarrow> rpc_construct_ubi" where
  "set_construct_field F_name (J_string x) req = req\<lparr>req_name := Some x\<rparr>"
| "set_construct_field F_image_path (J_string x) req = req\<lparr>req_image_path := Some x\<rparr>"
| "set_construct_field F_base_bdev_name (J_string x) req = req\<lparr>req_base_bdev_name := Some x\<rparr>"
| "set_construct_field F_stripe_size_kb (J_number n) req = req\<lparr>req_stripe_size_kb := word_of_int n\<rparr>"
| "set_construct_field F_no_sync (J_bool b) req = req\<lparr>req_no_sync := b\<rparr>"
| "set_construct_field F_copy_on_read (J_bool b) req = req\<lparr>req_copy_on_read := b\<rparr>"
| "set_construct_field F_directio (J_bool b) req = req\<lparr>req_directio := b\<rparr>"
| "set_construct_field _ _ req = req"

fun decode_members ::
    "('f \<Rightarrow> json \<Rightarrow> 'r \<Rightarrow> 'r) \<Rightarrow> 'f json_object_decoder list \<Rightarrow> (string \<times> json) list \<Rightarrow> 'r \<Rightarrow> 'r" where
  "decode_members set_field decs [] req = req"
| "decode_members set_field decs ((k, v) # kvs) req =
     decode_members set_field decs kvs
       (case find (\<lambda>d. dec_name d = k) decs of None \<Rightarrow> req | Some d \<Rightarrow> set_field (dec_field d) v req)"

text \<open>
  What the manual of SPDK promises of \<^verbatim>\<open>spdk_json_decode_object\<close>: on an object whose members
  are accepted by the decoders it returns zero and has stored every member in its field, and
  nothing else.
\<close>

definition decodes_objects :: "(construct_field, rpc_construct_ubi) json_decode \<Rightarrow> bool" where
  "decodes_objects decode \<longleftrightarrow>
     (\<forall>kvs decs req. accepts_members decs kvs \<longrightarrow>
        decode (J_object kvs) decs req = (0, decode_members set_construct_field decs kvs req))"

definition demo_decode :: "('f \<Rightarrow> json \<Rightarrow> 'r \<Rightarrow> 'r) \<Rightarrow> ('f, 'r) json_decode" where
  "demo_decode set_field params decs req =
     (case params of
        J_object kvs \<Rightarrow>
          if accepts_members decs kvs then (0, decode_members set_field decs kvs req) else (- EINVAL, req)
      | _ \<Rightarrow> (- EINVAL, req))"

lemma demo_decodes_objects: "decodes_objects (demo_decode set_construct_field)"
  by (simp add: decodes_objects_def demo_decode_def)

lemma find_construct_decoder:
  "find (\<lambda>d. dec_name d = ''name'') rpc_construct_ubi_decoders = Some (decoder ''name'' F_name Json_decode_string False)"
  "find (\<lambda>d. dec_name d = ''image_path'') rpc_construct_ubi_decoders =
     Some (decoder ''image_path'' F_image_path Json_decode_string False)"
  "find (\<lambda>d. dec_name d = ''base_bdev'') rpc_construct_ubi_decoders =
     Some (decoder ''base_bdev'' F_base_bdev_name Json_decode_string False)"
  by (simp_all add: rpc_construct_ubi_decoders_def decoder_def)

text \<open>A required member ends up in its field.\<close>

lemma decode_members_stores:
  assumes keep: "\<And>f v req. get req \<noteq> None \<Longrightarrow> get (set_field f v req) \<noteq> None"
    and find: "find (\<lambda>d. dec_name d = k) decs = Some d"
    and store: "\<And>x req. get (set_field (dec_field d) (J_string x) req) \<noteq> None"
  shows "get req \<noteq> None \<or> (\<exists>x. (k, J_string x) \<in> set kvs) \<Longrightarrow> get (decode_members set_field decs kvs req) \<noteq> None"
proof (induction kvs arbitrary: req)
  case (Cons kv kvs)
  obtain k' v where kv: "kv = (k', v)" by fastforce
  let ?req = "case find (\<lambda>d. dec_name d = k') decs of None \<Rightarrow> req | Some d \<Rightarrow> set_field (dec_field d) v req"
  have "get ?req \<noteq> None" if "get req \<noteq> None"
    using keep [OF that] that by (simp split: option.split)
  moreover have "get ?req \<noteq> None" if "k' = k" "v = J_string x" for x
    using find store that by simp
  ultimately have "get ?req \<noteq> None \<or> (\<exists>x. (k, J_string x) \<in> set kvs)"
    using Cons.prems kv by auto
  from Cons.IH [OF this] show ?case by (simp add: kv)
qed simp

lemma set_construct_field_keeps:
  "req_name req \<noteq> None \<Longrightarrow> req_name (set_construct_field f v req) \<noteq> None"
  "req_image_path req \<noteq> None \<Longrightarrow> req_image_path (set_construct_field f v req) \<noteq> None"
  "req_base_bdev_name req \<noteq> None \<Longrightarrow> req_base_bdev_name (set_construct_field f v req) \<noteq> None"
  by (cases f; cases v; simp)+

lemma accepts_required_string:
  assumes "accepts_members rpc_construct_ubi_decoders kvs" "k \<in> {''name'', ''image_path'', ''base_bdev''}"
  shows "\<exists>x. (k, J_string x) \<in> set kvs"
proof -
  obtain v where v: "(k, v) \<in> set kvs"
    using assms by (auto simp: accepts_members_def rpc_construct_ubi_decoders_def decoder_def)
  then have "list_ex (\<lambda>d. dec_name d = k \<and> json_fits (dec_func d) v) rpc_construct_ubi_decoders"
    using assms(1) by (auto simp: accepts_members_def list_all_iff)
  then have "json_fits Json_decode_string v"
    using assms(2) by (auto simp: rpc_construct_ubi_decoders_def decoder_def)
  with v show ?thesis by (cases v) auto
qed

lemma demo_decodes_required: "decodes_required (demo_decode set_construct_field)"
proof -
  have "req_name req \<noteq> None \<and> req_image_path req \<noteq> None \<and> req_base_bdev_name req \<noteq> None"
    if dec: "demo_decode set_construct_field params rpc_construct_ubi_decoders rpc_defaults = (0, req)" for params req
  proof -
    obtain kvs where acc: "accepts_members rpc_construct_ubi_decoders kvs"
      and req: "req = decode_members set_construct_field rpc_construct_ubi_decoders kvs rpc_defaults"
      using dec by (auto simp: demo_decode_def split: json.splits if_splits)
    note stored = accepts_required_string [OF acc]
    have "req_name req \<noteq> None" unfolding req
      by (rule decode_members_stores [where get = req_name and set_field = set_construct_field,
          OF set_construct_field_keeps(1) find_construct_decoder(1)])
        (use stored in \<open>simp_all add: decoder_def\<close>)
    moreover have "req_image_path req \<noteq> None" unfolding req
      by (rule decode_members_stores [where get = req_image_path and set_field = set_construct_field,
          OF set_construct_field_keeps(2) find_construct_decoder(2)])
        (use stored in \<open>simp_all add: decoder_def\<close>)
    moreover have "req_base_bdev_name req \<noteq> None" unfolding req
      by (rule decode_members_stores [where get = req_base_bdev_name and set_field = set_construct_field,
          OF set_construct_field_keeps(3) find_construct_decoder(3)])
        (use stored in \<open>simp_all add: decoder_def\<close>)
    ultimately show ?thesis by blast
  qed
  then show ?thesis unfolding decodes_required_def by blast
qed




definition demo_params :: json where
  "demo_params = J_object
     [(''name'', J_string ''ubi0''), (''base_bdev'', J_string ''base''), (''image_path'', J_string ''image''),
      (''stripe_size_kb'', J_number 64)]"

fun set_delete_field :: "delete_field \<Rightarrow> json \<Rightarrow> rpc_delete_ubi \<Rightarrow> rpc_delete_ubi" where
  "set_delete_field D_name (J_string x) req = req\<lparr>del_name := Some x\<rparr>"
| "set_delete_field D_name _ req = req"

definition demo_rpc_env :: rpc_env where
  "demo_rpc_env = \<lparr>r_decode_construct = demo_decode set_construct_field,
     r_decode_delete = demo_decode set_delete_field, r_calloc_context = True, r_create = demo_create_env,
     r_unregister = \<lambda>_. - ENODEV\<rparr>"

definition demo_rpc :: rpc_state where
  "demo_rpc = \<lparr>rpc_mod = demo_mod\<lparr>held := {#}\<rparr>, rpc_strings = {#}, rpc_responses = []\<rparr>"


text \<open>The members that are written are the members that are read.\<close>

lemma config_decoded:
  assumes "decodes_objects decode"
  shows "decode (J_object
      [(''name'', J_string name), (''base_bdev'', J_string base), (''image_path'', J_string path),
       (''stripe_size_kb'', J_number (uint (kb :: u32))), (''copy_on_read'', J_bool cor),
       (''directio'', J_bool dio), (''no_sync'', J_bool ns)]) rpc_construct_ubi_decoders rpc_defaults =
    (0, \<lparr>req_name = Some name, req_image_path = Some path, req_base_bdev_name = Some base,
       req_stripe_size_kb = kb, req_no_sync = ns, req_copy_on_read = cor, req_directio = dio\<rparr>)"
proof -
  let ?kvs = "[(''name'', J_string name), (''base_bdev'', J_string base), (''image_path'', J_string path),
       (''stripe_size_kb'', J_number (uint kb)), (''copy_on_read'', J_bool cor),
       (''directio'', J_bool dio), (''no_sync'', J_bool ns)]"
  have "uint kb < 2 ^ 32" using uint_lt2p [of kb] by simp
  then have "accepts_members rpc_construct_ubi_decoders ?kvs"
    by (simp add: accepts_members_def rpc_construct_ubi_decoders_def decoder_def)
  then have "decode (J_object ?kvs) rpc_construct_ubi_decoders rpc_defaults =
      (0, decode_members set_construct_field rpc_construct_ubi_decoders ?kvs rpc_defaults)"
    using assms by (simp add: decodes_objects_def)
  then show ?thesis
    by (simp add: rpc_construct_ubi_decoders_def decoder_def rpc_defaults_def zero_rpc_construct_ubi_def)
qed

text \<open>
  C21: the configuration a bdev writes recreates it.  If creating a bdev with \<open>opts\<close> succeeds,
  the configuration it writes names the method \<^verbatim>\<open>bdev_ubi_create\<close>, and its parameters, handed
  to the handler of that method, decode to the same options again; only an image path of
  \<open>UBI_PATH_LEN\<close> characters or more comes back cut off, as it was used.
\<close>

theorem config_round_trip:
  assumes "decodes_objects decode"
    and "held st = add_mset R_context h" and "reading st = []" and "c_thread env = c_app_thread env"
    and "blocklen (c_base env (opt_base_bdev_name opts)) \<noteq> 0"
    and "bdev_name (c_base env (opt_base_bdev_name opts)) = Some (opt_base_bdev_name opts)"
    and "bdev_ubi_create_run env t (Some opts) success data st = Some st'"
    and "done_calls st' = done_calls st @ [(Some u, 0)]"
  shows "\<exists>params req. ubi_write_config_json u =
       Some (J_object [(''method'', J_string ''bdev_ubi_create''), (''params'', params)]) \<and>
     decode params rpc_construct_ubi_decoders rpc_defaults = (0, req) \<and>
     rpc_opts req = Some (opts\<lparr>opt_image_path := take (UBI_PATH_LEN - 1) (opt_image_path opts)\<rparr>)"
proof -
  obtain v u' where "Some u = Some u'" and v: "prepared env opts v" "partial_resources v True = bdev_resources"
    and load: "ubi_load_metadata (v\<lparr>metadata := metadata_of_bytes data\<rparr>) = (0, u')"
    by (rule create_run_success [OF assms(2-5,7,8)])
  then have load: "ubi_load_metadata (v\<lparr>metadata := metadata_of_bytes data\<rparr>) = (0, u)" by simp
  note fr = load_metadata_frame [OF load]
  note cf = prepared_config [OF v(1)]
  obtain name where name: "bdev_name (bdev u) = Some name"
    using bdev_resources_name [OF v(2)] fr(1) by auto
  then have on: "opt_name opts = Some name" using cf fr(1) by simp
  have base: "bdev_name (base_bdev (base_bdev_info u)) = Some (opt_base_bdev_name opts)"
    using cf fr(2) assms(6) by simp
  show ?thesis
    using name base fr cf on
    by (simp add: ubi_write_config_json_def config_decoded [OF assms(1)] rpc_opts_def)
qed


theorem config_round_trip_witness:
  "\<exists>st' u params req.
     bdev_ubi_create_run demo_create_env no_faults (Some demo_opts) True (\<lambda>_. 0) demo_mod = Some st' \<and>
     ubi_write_config_json u = Some (J_object [(''method'', J_string ''bdev_ubi_create''), (''params'', params)]) \<and>
     demo_decode set_construct_field params rpc_construct_ubi_decoders rpc_defaults = (0, req) \<and>
     rpc_opts req = Some demo_opts"
proof -
  have hyps: "held demo_mod = add_mset R_context {#}" "reading demo_mod = []" "c_thread demo_create_env = c_app_thread demo_create_env"
    "blocklen (c_base demo_create_env (opt_base_bdev_name demo_opts)) \<noteq> 0"
    "bdev_name (c_base demo_create_env (opt_base_bdev_name demo_opts)) = Some (opt_base_bdev_name demo_opts)"
    by (simp_all add: demo_mod_def demo_create_env_def demo_base_def)
  obtain st' u where st': "bdev_ubi_create_run demo_create_env no_faults (Some demo_opts) True (\<lambda>_. 0) demo_mod = Some st'"
    "done_calls st' = done_calls demo_mod @ [(Some u, 0)]"
    by (rule demo_create_success)
  from config_round_trip [OF demo_decodes_objects hyps st'] obtain params req where
    "ubi_write_config_json u = Some (J_object [(''method'', J_string ''bdev_ubi_create''), (''params'', params)])"
    "demo_decode set_construct_field params rpc_construct_ubi_decoders rpc_defaults = (0, req)"
    "rpc_opts req = Some (demo_opts\<lparr>opt_image_path := take (UBI_PATH_LEN - 1) (opt_image_path demo_opts)\<rparr>)"
    by blast
  moreover have "demo_opts\<lparr>opt_image_path := take (UBI_PATH_LEN - 1) (opt_image_path demo_opts)\<rparr> = demo_opts"
    by (simp add: demo_opts_def)
  ultimately show ?thesis using st'(1) by auto
qed

text \<open>
  C39: the answer to a request to delete a bdev.  If the parameters do not decode, or SPDK
  does not find the bdev, the handler sends exactly one error; if SPDK accepts the request
  the handler sends nothing, the callback handed to SPDK sends the one response.  The
  decoded name has been given back, except when the decoder failed after it had decoded it: then
  the name is leaked.
\<close>

theorem rpc_delete_answers:
  assumes "r_decode_delete env params rpc_delete_ubi_decoders \<lparr>del_name = None\<rparr> = (rc, req)"
    and "rc = 0 \<longrightarrow> del_name req = Some name"
  shows "\<exists>rs'. rpc_bdev_ubi_delete env params rs = Some rs' \<and> rpc_mod rs' = rpc_mod rs \<and>
     rpc_responses rs' = rpc_responses rs @
       (if rc \<noteq> 0 then [Error_response SPDK_JSONRPC_ERROR_INTERNAL_ERROR]
        else if r_unregister env name \<noteq> 0 then [Error_response (r_unregister env name)] else []) \<and>
     rpc_strings rs' = rpc_strings rs + (if rc = 0 then {#} else option_strings [del_name req])"
  using assms
  by (auto simp: rpc_bdev_ubi_delete_def send_response_def free_string_def bdev_ubi_delete_def
      rpc_bdev_ubi_delete_cb_def option_strings_def List.map_filter_simps)

theorem rpc_delete_answers_witness:
  "\<exists>rs'. rpc_bdev_ubi_delete demo_rpc_env (J_object [(''name'', J_string ''ubi0'')]) demo_rpc = Some rs' \<and>
     rpc_responses rs' = [Error_response (- ENODEV)] \<and> rpc_strings rs' = {#}"
proof -
  have dec: "r_decode_delete demo_rpc_env (J_object [(''name'', J_string ''ubi0'')]) rpc_delete_ubi_decoders
      \<lparr>del_name = None\<rparr> = (0, \<lparr>del_name = Some ''ubi0''\<rparr>)"
    by (simp add: demo_rpc_env_def demo_decode_def accepts_members_def rpc_delete_ubi_decoders_def decoder_def)
  from rpc_delete_answers [OF dec, of "''ubi0''" demo_rpc] show ?thesis
    by (auto simp: demo_rpc_env_def demo_rpc_def)
qed

text \<open>
  A name that was decoded before the decoder failed is leaked: unlike the handler of
  \<^verbatim>\<open>bdev_ubi_create\<close>, the handler of \<^verbatim>\<open>bdev_ubi_delete\<close> returns without freeing it.
\<close>

theorem malformed_delete_leaks_name:
  assumes "r_decode_delete env params rpc_delete_ubi_decoders \<lparr>del_name = None\<rparr> = (rc, req)"
    and "rc \<noteq> 0" and "del_name req = Some name"
  shows "\<exists>rs'. rpc_bdev_ubi_delete env params rs = Some rs' \<and> rpc_strings rs' = add_mset name (rpc_strings rs)"
  using assms by (simp add: rpc_bdev_ubi_delete_def send_response_def option_strings_def List.map_filter_simps)

theorem malformed_delete_leaks_name_witness:
  "\<exists>rs'. rpc_bdev_ubi_delete (demo_rpc_env\<lparr>r_decode_delete := \<lambda>_ _ _. (- EINVAL, \<lparr>del_name = Some ''ubi0''\<rparr>)\<rparr>)
       (J_object [(''name'', J_string ''ubi0''), (''x'', J_bool True)]) demo_rpc = Some rs' \<and>
     rpc_strings rs' = {#''ubi0''#}"
  using malformed_delete_leaks_name
    [of "demo_rpc_env\<lparr>r_decode_delete := \<lambda>_ _ _. (- EINVAL, \<lparr>del_name = Some ''ubi0''\<rparr>)\<rparr>"
      "J_object [(''name'', J_string ''ubi0''), (''x'', J_bool True)]" "- EINVAL" "\<lparr>del_name = Some ''ubi0''\<rparr>"
      "''ubi0''" demo_rpc]
  by (simp add: demo_rpc_def)

end
