(* ===== verification/Ubi_App.thy ===== *)
theory Ubi_App
  imports Ubi_Rpc
begin

section \<open>The vhost application (\<^verbatim>\<open>vhost_ubi.c\<close>)\<close>

text \<open>
  The callback for the application's own options and \<^verbatim>\<open>main\<close>.  SPDK's option parser and the
  application framework are parameters; \<open>calls\<close> records what \<^verbatim>\<open>main\<close> does with them.
\<close>

datatype app_call =
    App_opts_init
  | App_parse_args string
  | App_start string
  | App_fini
  | App_exit int

record vhost_app =
  socket_path :: "string option"
  calls :: "app_call list"

type_synonym option_callback = "char \<Rightarrow> string \<Rightarrow> vhost_app \<Rightarrow> int \<times> vhost_app"

record app_env =
  parse_args :: "(char \<times> string) list \<Rightarrow> string \<Rightarrow> option_callback \<Rightarrow> vhost_app \<Rightarrow> int \<times> vhost_app"
  parse_success :: int
  app_start :: "string \<Rightarrow> int"

definition vhost_parse_arg :: option_callback where
  "vhost_parse_arg opt arg a = (if opt = CHR ''S'' then (0, a\<lparr>socket_path := Some arg\<rparr>) else (- EINVAL, a))"

abbreviation app_call :: "app_call \<Rightarrow> vhost_app \<Rightarrow> vhost_app" where
  "app_call c a \<equiv> a\<lparr>calls := calls a @ [c]\<rparr>"

definition vhost_main :: "app_env \<Rightarrow> (char \<times> string) list \<Rightarrow> vhost_app \<Rightarrow> int \<times> vhost_app" where
  "vhost_main env args a =
     (let a = app_call App_opts_init a;
          name = ''vhost_ubi'';
          (rc, a) = parse_args env args ''f:S:'' vhost_parse_arg (app_call (App_parse_args ''f:S:'') a)
      in if rc \<noteq> parse_success env then (rc, app_call (App_exit rc) a)
         else
           (let rc = app_start env name;
                a = app_call (App_start name) a
            in (rc, app_call App_fini a)))"

text \<open>
  What \<^verbatim>\<open>main\<close> relies on: the parser hands the options to the callback, which is the only one
  to touch the application's state, and reports a failure when the callback rejects one.
\<close>

definition parser_ok :: "app_env \<Rightarrow> bool" where
  "parser_ok env \<longleftrightarrow> (\<forall>args optstring cb a rc a'. parse_args env args optstring cb a = (rc, a') \<longrightarrow>
     ((\<forall>c x b. calls (snd (cb c x b)) = calls b) \<longrightarrow> calls a' = calls a) \<and>
     (rc = parse_success env \<longrightarrow> (\<forall>(c, x) \<in> set args. \<exists>b. fst (cb c x b) = 0)))"

text \<open>
  C40: the only option of its own that the application accepts is \<^verbatim>\<open>-S\<close>.  Given any other one,
  also \<^verbatim>\<open>-f\<close>, which the option string declares, it ends with the parser's code before SPDK
  is started.  Otherwise SPDK is started at most once, and always shut down again.
\<close>

theorem vhost_main_options:
  assumes "parser_ok env" and "vhost_main env args a = (rc, a')"
  shows "\<exists>cs. calls a' = calls a @ [App_opts_init, App_parse_args ''f:S:''] @ cs \<and>
     (cs = [App_exit rc] \<and> rc \<noteq> parse_success env \<or>
      cs = [App_start ''vhost_ubi'', App_fini] \<and> (\<forall>c x. (c, x) \<in> set args \<longrightarrow> c = CHR ''S''))"
proof -
  let ?a = "app_call (App_parse_args ''f:S:'') (app_call App_opts_init a)"
  obtain rc1 a1 where p: "parse_args env args ''f:S:'' vhost_parse_arg ?a = (rc1, a1)" by fastforce
  have "calls (snd (vhost_parse_arg c x b)) = calls b" for c x b by (simp add: vhost_parse_arg_def)
  then have c1: "calls a1 = calls ?a" using assms(1) p unfolding parser_ok_def by blast
  have ok: "c = CHR ''S''" if "rc1 = parse_success env" "(c, x) \<in> set args" for c x
  proof -
    have "\<exists>b. fst (vhost_parse_arg c x b) = 0" using assms(1) p that unfolding parser_ok_def by blast
    then show ?thesis by (auto simp: vhost_parse_arg_def split: if_splits)
  qed
  then show ?thesis
    using assms(2) p c1 by (cases "rc1 = parse_success env") (auto simp: vhost_main_def Let_def)
qed

text \<open>A parser that hands the options to the callback in turn.\<close>

fun demo_parse :: "(char \<times> string) list \<Rightarrow> option_callback \<Rightarrow> vhost_app \<Rightarrow> int \<times> vhost_app" where
  "demo_parse [] cb a = (1, a)"
| "demo_parse ((c, x) # args) cb a = (let (rc, a) = cb c x a in if rc \<noteq> 0 then (2, a) else demo_parse args cb a)"

definition demo_app_env :: app_env where
  "demo_app_env = \<lparr>parse_args = \<lambda>args _. demo_parse args, parse_success = 1, app_start = \<lambda>_. 0\<rparr>"

lemma demo_parse_ok:
  "demo_parse args cb a = (rc, a') \<Longrightarrow>
     ((\<forall>c x b. calls (snd (cb c x b)) = calls b) \<longrightarrow> calls a' = calls a) \<and>
     (rc = 1 \<longrightarrow> (\<forall>(c, x) \<in> set args. \<exists>b. fst (cb c x b) = 0))"
proof (induction args cb a rule: demo_parse.induct)
  case (2 c x args cb a)
  obtain rc1 a1 where cb: "cb c x a = (rc1, a1)" by fastforce
  have a1: "calls a1 = calls a" if "\<forall>c x b. calls (snd (cb c x b)) = calls b"
    using that [THEN spec, THEN spec, THEN spec, of c x a] cb by simp
  show ?case
  proof (cases "rc1 = 0")
    case True
    have "\<exists>b. fst (cb c x b) = 0" using cb True by (intro exI [of _ a]) simp
    with 2 cb True a1 show ?thesis by auto
  qed (use 2 cb a1 in auto)
qed simp

theorem vhost_main_options_witness:
  "\<exists>rc a'. vhost_main demo_app_env [(CHR ''f'', ''conf'')] \<lparr>socket_path = None, calls = []\<rparr> = (rc, a') \<and>
     calls a' = [App_opts_init, App_parse_args ''f:S:'', App_exit rc]"
proof -
  have ok: "parser_ok demo_app_env" by (auto simp: parser_ok_def demo_app_env_def dest!: demo_parse_ok)
  obtain rc a' where m: "vhost_main demo_app_env [(CHR ''f'', ''conf'')] \<lparr>socket_path = None, calls = []\<rparr> = (rc, a')"
    by fastforce
  from vhost_main_options [OF ok m] m show ?thesis by auto
qed

end
