(* ===== verification/Spec2Isabelle.thy ===== *)
theory Spec2Isabelle
  imports Ubi_Together Ubi_Restart Ubi_App
begin

text \<open>
  Verification of \<^verbatim>\<open>bdev_ubi\<close>, an SPDK block device module.

  \<^bold>\<open>The program.\<close>  A ubi bdev presents a virtual disk.  At first its contents are those of a
  read-only image file; every stripe of the image is copied to a base bdev the first time it is
  needed, and from then on lives there.  The base bdev starts with 8 MB of metadata that records
  which stripes were copied.  The repository has these parts, in the order of the theories:
  \<^item> \<^verbatim>\<open>include/bdev_ubi_internal.h\<close>, \<^verbatim>\<open>include/bdev_ubi.h\<close>: constants and structures.
    \<open>Ubi_Prelude\<close> has the C types as words and the constants, \<open>Ubi_Types\<close> one record or datatype
    per structure or enumeration, with the names of the source.
  \<^item> \<^verbatim>\<open>lib/bdev_ubi_stripe.c\<close>: the fetch queue (\<open>Ubi_Queue\<close>: \<open>enqueue_stripe\<close>, \<open>dequeue_stripe\<close>,
    \<open>stripe_queue_empty\<close>), the status table and the stages of a stripe fetch (\<open>Ubi_Stripe\<close>).
  \<^item> \<^verbatim>\<open>lib/bdev_ubi_flush.c\<close>: the three stages of a flush request (\<open>Ubi_Flush\<close>).
  \<^item> \<^verbatim>\<open>lib/bdev_ubi.c\<close>: the layout (\<open>Ubi_Layout\<close>), the metadata (\<open>Ubi_Metadata\<close>), the submission
    of requests (\<open>ubi_submit_request\<close> in \<open>Ubi_IO\<close>), creation, destruction and removal of bdevs
    (\<open>Ubi_Create\<close>), the configuration a bdev writes (\<open>Ubi_Rpc\<close>).
  \<^item> \<^verbatim>\<open>lib/bdev_ubi_io_channel.c\<close>: the poller with reads and writes (\<open>Ubi_IO\<close>), creation and
    destruction of channels (\<open>Ubi_Channel\<close>).
  \<^item> \<^verbatim>\<open>lib/bdev_ubi_rpc.c\<close>: the RPC methods (\<open>Ubi_Rpc\<close>); \<^verbatim>\<open>app/vhost_ubi.c\<close>: the application
    (\<open>Ubi_App\<close>).

  \<^bold>\<open>How the code is modelled.\<close>  One definition per function, with every branch and early return.
  The state an I/O handler works on is the record \<open>ubi_state\<close>: the bdev (\<^verbatim>\<open>struct ubi_bdev\<close>), one
  channel (\<^verbatim>\<open>struct ubi_io_channel\<close>), the driver contexts of the requests, and what was handed to
  io\_uring, the base bdev and the buffer pool and has not come back.  Integers keep their width
  where the C type matters; undefined behaviour is \<open>None\<close>.  SPDK, liburing, the kernel and the
  allocator are not part of the repository: what they return is an argument of the definitions
  (\<open>ext_oracle\<close>, \<open>chan_env\<close>, \<open>create_env\<close>, \<open>rpc_env\<close>, \<open>app_env\<close>), and what is relied on is a named
  hypothesis: \<open>uring_ok\<close> (an entry is found while fewer than 32 wait, submitting does not fail),
  \<open>io_ok\<close> (the limits the bdev layer enforces on a request), \<open>ev_enabled\<close> (a completion belongs to
  something outstanding).  No definition needs fuel: every loop of the code runs over a list or
  halves a number.

  \<^bold>\<open>What is proved.\<close>
  \<^item> \<open>Ubi_System\<close>, \<open>Ubi_Invariant\<close>, \<open>Ubi_Fetch_Inv\<close>, \<open>Ubi_Poll_Inv\<close>, \<open>Ubi_Reach\<close>: a channel as a
    transition system whose events are submissions, polls, buffer callbacks and base bdev
    completions, and an invariant all of them preserve.  \<open>Ubi_Start\<close> starts it at a channel just
    created.  From this follow, in this theory, that no event has undefined behaviour, that a stripe
    is fetched once, the bounds on the ring and on concurrent reads, that the branch for a programming
    error is dead, that the metadata in memory is accurate.
  \<^item> \<open>Ubi_Walk\<close>: the principle by which all other theories follow the state through a poll, a locale
    over a relation that holds for the poller's small steps.  It is interpreted for the life cycle of
    stripes (\<open>Ubi_Evolve\<close>), the conservation of requests (\<open>Ubi_Conserve\<close>), the bytes on disk
    (\<open>Ubi_Data\<close>, \<open>Ubi_View\<close>), the requests that wait for a stripe (\<open>Ubi_Quiet\<close>), the work that is
    left (\<open>Ubi_Progress\<close>), the reads held back (\<open>Ubi_Drain\<close>) and the metadata writes
    (\<open>Ubi_Restart\<close>).
  \<^item> \<open>Ubi_Data\<close>, \<open>Ubi_View\<close>, \<open>Ubi_Share\<close>: with the bytes of the image and the base bdev added, all
    channels together implement one disk that only completed writes change, and reads return it.  The
    image is assumed to be a whole number of stripes, image reads not to be cut short and stripe
    writes not to fail; \<open>Ubi_View\<close> and \<open>Ubi_Stripe\<close> show what goes wrong otherwise.
  \<^item> \<open>Ubi_Quiet\<close>, \<open>Ubi_Progress\<close>, \<open>Ubi_Drain\<close>: a channel without requests is idle and may be
    destroyed; every request costs at most six completions; a prompt environment drains every channel
    in which no read is held back; and a read that is held back stays so.
  \<^item> \<open>Ubi_Together\<close>: a bdev over its life, with channels that are opened, used and closed
    (\<open>sys_life\<close>).  Channels never fetch the same stripe, each keeps all its requests, and together
    they can always be drained, although a request may wait for a stripe another channel fetches.
  \<^item> \<open>Ubi_Restart\<close>: the metadata on disk while all this happens.  It never claims a stripe that is
    not there, so a bdev created again after a crash shows, stripe by stripe, the image or what the
    client saw last, and after a metadata write that no fetch has overtaken all of what the client
    saw.  The base bdev is taken to keep what it has completed; metadata writes do not fail.
  \<^item> \<open>Ubi_Race\<close>: an event runs to its end before another starts, which SPDK guarantees on one thread
    only; with the two halves of a submission as separate steps, two threads may fetch one stripe.
  \<^item> \<open>Ubi_Create\<close>, \<open>Ubi_Channel\<close>, \<open>Ubi_Rpc\<close>, \<open>Ubi_App\<close>: what is acquired is given back on every
    path, one response per RPC request, configurations round-trip; the exceptions are properties of
    their own.
  \<^item> \<open>Ubi_Layout\<close>, \<open>Ubi_Metadata\<close>: which inputs the layout accepts and what it guarantees, and that
    metadata read back gives the state that was written.  The last section of this theory joins
    creation and I/O: a bdev created within the limits (at most 32767 stripes in the image, at most
    \<^const>\<open>UBI_MAX_STRIPES\<close> on the device, neither of which the code checks) serves every event.

  \<^bold>\<open>Not modelled.\<close>  The test programs under \<^verbatim>\<open>src/test\<close>; the prototypes, the function and module
  tables and the registration macros, which only connect functions to SPDK; \<^verbatim>\<open>ubi_initialize\<close>,
  \<^verbatim>\<open>ubi_finish\<close>, \<^verbatim>\<open>ubi_get_ctx_size\<close>, \<^verbatim>\<open>vhost_started\<close>, which do nothing or return a constant;
  \<^verbatim>\<open>ubi_get_io_channel\<close>, a call of SPDK; \<^verbatim>\<open>ubi_init_ext_io_opts\<close>, whose options pass unread to the
  base bdev; \<^verbatim>\<open>vhost_usage\<close> and log output.  Completion callbacks of clients run after the handler
  that completes their request.  Threads are modelled for submissions only; a memory model of C is not.
\<close>

section \<open>The I/O path\<close>









text \<open>
  C6: \<^verbatim>\<open>active_reads\<close> counts the reads that were dispatched and not completed, wherever they
  are (waiting for a buffer, in io\_uring, at the base bdev), and is at most 24.
\<close>

theorem active_reads_accurate:
  assumes "channel_start s0" and "ubi_reachable s0 s"
  shows "unat (active_reads (ch s)) =
      length (buf_wait s) + size (ring_reads (ring s)) + size (base_reads (mset (base_reqs s))) \<and>
    active_reads (ch s) \<le> UBI_MAX_CONCURRENT_READS"
  using reachable_start_inv [OF assms] by (simp add: inv_gen_def read_ok_def reads_def word_le_nat_alt)

theorem active_reads_accurate_witness:
  "unat (active_reads (ch demo_submitted)) = length (buf_wait demo_submitted) +
     size (ring_reads (ring demo_submitted)) + size (base_reads (mset (base_reqs demo_submitted)))"
  using active_reads_accurate [OF demo_start demo_reachable] by blast

text \<open>
  C7: the branch of \<^verbatim>\<open>ubi_io_poll\<close> that reports a programming error is never taken: no queued
  request has a stripe of the image that must be fetched and whose fetch was not started.
\<close>

theorem no_programming_error:
  assumes "channel_start s0" and "ubi_reachable s0 s" and "b \<in> set (ch_io (ch s))"
  shows "\<exists>v. io_verdict (ub s) b = Some v \<and> v \<noteq> Io_bug"
proof -
  have "inv s" by (rule reachable_start_inv [OF assms(1,2)])
  then have "conf_ok (ub s)" "io_ok (ub s) b" "not_forgotten (ub s) b"
    using assms(3) by (simp_all add: inv_gen_def ios_ok_def)
  then show ?thesis using no_bug_verdict io_verdict_eq by (metis option.inject)
qed

theorem no_programming_error_witness:
  "\<exists>v. io_verdict (ub demo_submitted) demo_write = Some v \<and> v \<noteq> Io_bug"
  by (rule no_programming_error [OF demo_start demo_reachable])
    (simp add: demo_submitted_def insert_io_def)



section \<open>Many channels\<close>



section \<open>From the creation of a bdev to its I/O path\<close>



text \<open>
  C38: the size of the device is not checked against the status table.  A read that the bdev
  layer accepts, of a block whose stripe number is at least \<open>UBI_MAX_STRIPES\<close>, makes the
  buffer callback read \<^verbatim>\<open>stripe_status\<close> out of bounds, although the stripe lies behind the image
  and its status does not matter.
\<close>

theorem large_device_out_of_bounds:
  assumes "UBI_MAX_STRIPES \<le> stripe_of (ub s) b" and "stripe_of (ub s) b < 2 ^ 31"
  shows "get_buf_for_read_cb env b True s = None"
proof -
  have b: "unat (block_stripe (ub s) (offset_blocks b)) = stripe_of (ub s) b"
    by (simp add: unat_block_stripe stripe_of_def)
  have "unat (ucast (block_stripe (ub s) (offset_blocks b)) :: i32) = stripe_of (ub s) b"
    using assms(2) by (subst unat_ucast_small) (simp_all add: b)
  then have "\<not> stripe_valid (ucast (block_stripe (ub s) (offset_blocks b)))"
    using assms(1) by (simp add: stripe_valid_def)
  then show ?thesis by (simp add: get_buf_for_read_cb_def ubi_get_stripe_status_eq)
qed

definition large_base :: spdk_bdev where
  "large_base = demo_base\<lparr>blockcnt := 536870912\<rparr>"

definition large_ubi :: ubi_bdev where
  "large_ubi = (demo_ubi0 64)\<lparr>base_bdev_info := \<lparr>base_bdev = large_base, base_desc = Some 1\<rparr>\<rparr>"

definition large_read :: bdev_io where
  "large_read = \<lparr>io_id = 3, io_type = IO_READ, offset_blocks = 300000000, num_blocks = 8\<rparr>"

text \<open>A device of 256 GB with stripes of 64 KB is accepted.\<close>

theorem large_device_out_of_bounds_witness:
  "\<exists>u1. ubi_init_layout_params (\<lambda>_. Some 1048576) large_ubi = Some (0, u1) \<and>
     io_ok (ubi_copy_base demo_create_env u1) large_read \<and>
     get_buf_for_read_cb demo_env large_read True (demo_state\<lparr>ub := ubi_copy_base demo_create_env u1\<rparr>) = None"
proof -
  obtain u1 where lay: "ubi_init_layout_params (\<lambda>_. Some 1048576) large_ubi = Some (0, u1)"
    and sh: "stripe_shift u1 = 7" "data_offset_blocks u1 = 16384" "base_bdev_info u1 = base_bdev_info large_ubi"
    by (simp add: ubi_init_layout_params_def large_ubi_def large_base_def demo_ubi0_def demo_base_def Let_def demo_log2)
  let ?u = "ubi_copy_base demo_create_env u1"
  have bs: "block_stripe ?u x = drop_bit 7 x" for x
    by (simp add: block_stripe_def ubi_copy_base_def Let_def sh)
  have "io_ok ?u large_read"
    by (simp add: io_ok_def bs large_read_def ubi_io_type_supported_def)
      (simp add: ubi_copy_base_def Let_def sh large_ubi_def large_base_def)
  moreover have "stripe_of ?u large_read = 2343750"
    by (simp add: stripe_of_def large_read_def ubi_copy_base_def Let_def sh)
  ultimately show ?thesis
    using lay large_device_out_of_bounds [of "demo_state\<lparr>ub := ?u\<rparr>" large_read demo_env] by auto
qed

end
